(* ===== verification/Anvil_Prelude.thy ===== *)
theory Anvil_Prelude
  imports Main "HOL-Library.Word" "HOL-Library.Monad_Syntax"
begin

text \<open>
  Shared vocabulary of the development: the machine integer types of the kernel, the checked
  arithmetic of the development profile of the Rust compiler, array accesses, and the generic
  lemmas on options and lists that the component theories use.

  Conventions. The kernel is built with the \<open>dev\<close> profile (\<open>kernel/GNUmakefile\<close>), in which
  arithmetic overflow, an index out of range, a failed \<open>assert!\<close>, \<open>debug_assert!\<close>,
  \<open>expect\<close> or \<open>unwrap\<close> panics. A Rust function that can panic is a function into \<open>option\<close>
  with \<open>None\<close> for the panic; a Rust \<open>Option\<close> below it is a second \<open>option\<close>, and a Rust
  \<open>Result\<close> is a sum with \<open>Inl\<close> for the error.
  \<open>usize\<close> and address-like \<open>u64\<close> values are natural numbers below \<open>2 ^ 64\<close> with every
  addition and subtraction checked; bit sets and counters that wrap are words.
\<close>

type_synonym usize = nat
type_synonym u8 = "8 word"
type_synonym u16 = "16 word"
type_synonym u32 = "32 word"
type_synonym u64 = "64 word"

named_theorems checked_simps \<open>rewrite rules that discharge checked arithmetic\<close>

subsection \<open>Checked arithmetic on usize\<close>

definition USIZE_MAX :: usize where
  "USIZE_MAX = 2 ^ 64 - 1"

definition u_add :: "usize \<Rightarrow> usize \<Rightarrow> usize option" where
  "u_add a b = (if a + b \<le> USIZE_MAX then Some (a + b) else None)"

definition u_sub :: "usize \<Rightarrow> usize \<Rightarrow> usize option" where
  "u_sub a b = (if b \<le> a then Some (a - b) else None)"

definition u_mul :: "usize \<Rightarrow> usize \<Rightarrow> usize option" where
  "u_mul a b = (if a * b \<le> USIZE_MAX then Some (a * b) else None)"

text \<open>The shift \<open>1usize << k\<close>: a shift amount of 64 or more panics.\<close>

definition u_bit :: "usize \<Rightarrow> usize option" where
  "u_bit k = (if k < 64 then Some (2 ^ k) else None)"

definition saturating_add :: "usize \<Rightarrow> usize \<Rightarrow> usize" where
  "saturating_add a b = min (a + b) USIZE_MAX"

definition saturating_sub :: "usize \<Rightarrow> usize \<Rightarrow> usize" where
  "saturating_sub a b = a - b"

definition checked_add :: "usize \<Rightarrow> usize \<Rightarrow> usize option" where
  "checked_add a b = (if a + b \<le> USIZE_MAX then Some (a + b) else None)"

definition u_not :: "usize \<Rightarrow> usize" where
  "u_not a = USIZE_MAX - a"

text \<open>\<open>assert!\<close> and \<open>debug_assert!\<close>.\<close>

definition rassert :: "bool \<Rightarrow> unit option" where
  "rassert b = (if b then Some () else None)"

lemma u_add_ok [simp, checked_simps]: "a + b \<le> USIZE_MAX \<Longrightarrow> u_add a b = Some (a + b)"
  by (simp add: u_add_def)

lemma u_sub_ok [simp, checked_simps]: "b \<le> a \<Longrightarrow> u_sub a b = Some (a - b)"
  by (simp add: u_sub_def)

lemma u_mul_ok [simp, checked_simps]: "a * b \<le> USIZE_MAX \<Longrightarrow> u_mul a b = Some (a * b)"
  by (simp add: u_mul_def)

lemma u_bit_ok [simp, checked_simps]: "k < 64 \<Longrightarrow> u_bit k = Some (2 ^ k)"
  by (simp add: u_bit_def)

lemma rassert_ok [simp, checked_simps]: "b \<Longrightarrow> rassert b = Some ()"
  by (simp add: rassert_def)

lemma rassert_None [simp]: "rassert b = None \<longleftrightarrow> \<not> b"
  by (simp add: rassert_def)

lemma rassert_Some [simp]: "rassert b = Some u \<longleftrightarrow> b"
  by (simp add: rassert_def)

lemma u_add_Some: "u_add a b = Some c \<longleftrightarrow> c = a + b \<and> a + b \<le> USIZE_MAX"
  by (auto simp: u_add_def)

lemma u_sub_Some: "u_sub a b = Some c \<longleftrightarrow> c = a - b \<and> b \<le> a"
  by (auto simp: u_sub_def)

lemma u_mul_Some: "u_mul a b = Some c \<longleftrightarrow> c = a * b \<and> a * b \<le> USIZE_MAX"
  by (auto simp: u_mul_def)

lemma u_bit_Some: "u_bit k = Some c \<longleftrightarrow> c = 2 ^ k \<and> k < 64"
  by (auto simp: u_bit_def)

lemma checked_add_Some: "checked_add a b = Some c \<longleftrightarrow> c = a + b \<and> a + b \<le> USIZE_MAX"
  by (auto simp: checked_add_def)

lemmas checked_Some = u_add_Some u_sub_Some u_mul_Some u_bit_Some checked_add_Some

subsection \<open>Arrays\<close>

text \<open>Indexing an array or a slice panics outside of its bounds.\<close>

definition arr_get :: "'a list \<Rightarrow> usize \<Rightarrow> 'a option" where
  "arr_get xs i = (if i < length xs then Some (xs ! i) else None)"

definition arr_set :: "'a list \<Rightarrow> usize \<Rightarrow> 'a \<Rightarrow> 'a list option" where
  "arr_set xs i x = (if i < length xs then Some (xs[i := x]) else None)"

lemma arr_get_ok [simp, checked_simps]: "i < length xs \<Longrightarrow> arr_get xs i = Some (xs ! i)"
  by (simp add: arr_get_def)

lemma arr_set_ok [simp, checked_simps]: "i < length xs \<Longrightarrow> arr_set xs i x = Some (xs[i := x])"
  by (simp add: arr_set_def)

lemma arr_get_Some: "arr_get xs i = Some x \<longleftrightarrow> i < length xs \<and> x = xs ! i"
  by (auto simp: arr_get_def)

lemma arr_set_Some: "arr_set xs i x = Some ys \<longleftrightarrow> i < length xs \<and> ys = xs[i := x]"
  by (auto simp: arr_set_def)

subsection \<open>Loops\<close>

text \<open>
  A \<open>for\<close> loop over a range or a slice is a fold in the option monad; a loop whose body may
  return an error with \<open>?\<close> or \<open>return Err\<close> also stops at the first \<open>Inl\<close>.
\<close>

fun for_each :: "('a \<Rightarrow> 's \<Rightarrow> 's option) \<Rightarrow> 'a list \<Rightarrow> 's \<Rightarrow> 's option" where
  "for_each f [] s = Some s"
| "for_each f (x # xs) s = Option.bind (f x s) (for_each f xs)"

fun try_each :: "('a \<Rightarrow> 's \<Rightarrow> ('e + 's) option) \<Rightarrow> 'a list \<Rightarrow> 's \<Rightarrow> ('e + 's) option" where
  "try_each f [] s = Some (Inr s)"
| "try_each f (x # xs) s =
     Option.bind (f x s) (\<lambda>r. case r of Inl e \<Rightarrow> Some (Inl e) | Inr s' \<Rightarrow> try_each f xs s')"

lemma for_each_append:
  "for_each f (xs @ ys) s = Option.bind (for_each f xs s) (for_each f ys)"
proof (induction xs arbitrary: s)
  case (Cons x xs)
  then show ?case by (cases "f x s") simp_all
qed simp

lemma try_each_append:
  "try_each f (xs @ ys) s =
     Option.bind (try_each f xs s) (\<lambda>r. case r of Inl e \<Rightarrow> Some (Inl e) | Inr t \<Rightarrow> try_each f ys t)"
proof (induction xs arbitrary: s)
  case (Cons x xs)
  show ?case
  proof (cases "f x s")
    case (Some r)
    then show ?thesis using Cons by (cases r) simp_all
  qed simp
qed simp

lemma for_each_total:
  "(\<And>x s. x \<in> set xs \<Longrightarrow> f x s = Some (g x s)) \<Longrightarrow> for_each f xs s = Some (fold g xs s)"
  by (induction xs arbitrary: s) simp_all

text \<open>The rule for a counting loop: an invariant indexed by the loop counter.\<close>

lemma for_range_inv:
  assumes "lo \<le> hi" and "I lo s"
    and step: "\<And>i t. lo \<le> i \<Longrightarrow> i < hi \<Longrightarrow> I i t \<Longrightarrow> \<exists>t'. f i t = Some t' \<and> I (Suc i) t'"
  shows "\<exists>t. for_each f [lo..<hi] s = Some t \<and> I hi t"
  using assms(1) step
proof (induction hi rule: dec_induct)
  case base
  then show ?case using assms(2) by simp
next
  case (step n)
  then obtain t where t: "for_each f [lo..<n] s = Some t" "I n t" by auto
  moreover obtain t' where "f n t = Some t'" "I (Suc n) t'"
    using step.prems[of n t] step.hyps t(2) by auto
  ultimately show ?case using step.hyps by (simp add: for_each_append)
qed

subsection \<open>Generic lemmas\<close>

lemma take_list_update_le [simp]: "n \<le> i \<Longrightarrow> take n (xs[i := x]) = take n xs"
  by (rule nth_equalityI) auto

lemma take_Suc_update: "i < length xs \<Longrightarrow> take (Suc i) (xs[i := x]) = take i xs @ [x]"
  by (simp add: take_Suc_conv_app_nth)

lemma drop_eq_nth: "drop i a = drop i b \<Longrightarrow> i < length a \<Longrightarrow> i < length b \<Longrightarrow> a ! i = b ! i"
  by (metis hd_drop_conv_nth)

lemma drop_eq_Suc: "drop i a = drop i b \<Longrightarrow> drop (Suc i) a = drop (Suc i) b"
  by (simp add: drop_Suc flip: tl_drop)

lemma USIZE_MAX_Suc: "Suc USIZE_MAX = 2 ^ 64"
  by (simp add: USIZE_MAX_def)

lemma le_USIZE_MAX_iff: "n \<le> USIZE_MAX \<longleftrightarrow> n < 2 ^ 64"
  unfolding USIZE_MAX_def by (simp, arith)

end
