(* ===== verification/Mem_Misc.thy ===== *)
theory Mem_Misc
  imports Anvil_Prelude
begin

text \<open>
  \<open>arch/amd64/memory/misc.rs\<close>: alignment, integer logarithm, the higher-half direct map, the
  order of a page count, and the size units of the boot log. \<open>HHDM_OFFSET\<close> is a static that
  the boot code writes once; it is the argument \<open>hhdm\<close> here.
\<close>

unbundle bit_operations_syntax

subsection \<open>Definitions\<close>

fun bit_len :: "nat \<Rightarrow> nat" where
  "bit_len n = (if n = 0 then 0 else Suc (bit_len (n div 2)))"

definition leading_zeros :: "usize \<Rightarrow> usize" where
  "leading_zeros x = 64 - bit_len x"

fun trailing_zeros :: "usize \<Rightarrow> usize" where
  "trailing_zeros x =
     (if x = 0 then 64 else if odd x then 0 else Suc (trailing_zeros (x div 2)))"

declare bit_len.simps [simp del] trailing_zeros.simps [simp del]

definition align_up :: "usize \<Rightarrow> usize \<Rightarrow> usize option" where
  "align_up x a = do {
     s \<leftarrow> u_add x a;
     s1 \<leftarrow> u_sub s 1;
     m \<leftarrow> u_sub a 1;
     Some (s1 AND u_not m)
   }"

definition align_down :: "usize \<Rightarrow> usize \<Rightarrow> usize option" where
  "align_down x a = do {
     m \<leftarrow> u_sub a 1;
     Some (x AND u_not m)
   }"

definition floor_log2 :: "usize \<Rightarrow> usize option" where
  "floor_log2 x = u_sub (64 - 1) (leading_zeros x)"

definition virt_to_phys :: "usize \<Rightarrow> usize \<Rightarrow> usize option" where
  "virt_to_phys hhdm virt = u_sub virt hhdm"

definition phys_to_virt :: "usize \<Rightarrow> usize \<Rightarrow> usize option" where
  "phys_to_virt hhdm phys = u_add phys hhdm"

text \<open>
  The loop of \<open>pages_to_order\<close>. \<open>n <<= 1\<close> drops the bit it shifts out, so the loop would not
  end for a page count above \<open>2 ^ 63\<close>: not returning is \<open>None\<close>.
\<close>

partial_function (option) pages_to_order_loop :: "usize \<Rightarrow> usize \<Rightarrow> usize \<Rightarrow> usize option" where
  "pages_to_order_loop pages n order =
     (if n < pages
      then Option.bind (u_add order 1) (\<lambda>order'. pages_to_order_loop pages (n * 2 mod 2 ^ 64) order')
      else Some order)"

definition pages_to_order :: "usize \<Rightarrow> usize option" where
  "pages_to_order pages = do {
     rassert (pages > 0);
     pages_to_order_loop pages 1 0
   }"

datatype SizeUnit = Bytes | KiB | MiB | GiB | TiB

record HumanSize =
  hs_value :: usize
  hs_unit :: SizeUnit

fun size_unit_as_str :: "SizeUnit \<Rightarrow> string" where
  "size_unit_as_str Bytes = ''B''"
| "size_unit_as_str KiB = ''KiB''"
| "size_unit_as_str MiB = ''MiB''"
| "size_unit_as_str GiB = ''GiB''"
| "size_unit_as_str TiB = ''TiB''"

definition human_readable_size :: "usize \<Rightarrow> HumanSize" where
  "human_readable_size bytes =
     (let KIB = 1024; MIB = 1024 * KIB; GIB = 1024 * MIB; TIB = 1024 * GIB in
      if bytes \<ge> TIB then \<lparr>hs_value = bytes div TIB, hs_unit = TiB\<rparr>
      else if bytes \<ge> GIB then \<lparr>hs_value = bytes div GIB, hs_unit = GiB\<rparr>
      else if bytes \<ge> MIB then \<lparr>hs_value = bytes div MIB, hs_unit = MiB\<rparr>
      else if bytes \<ge> KIB then \<lparr>hs_value = bytes div KIB, hs_unit = KiB\<rparr>
      else \<lparr>hs_value = bytes, hs_unit = Bytes\<rparr>)"

subsection \<open>Masks and alignment\<close>

lemma u_not_mask: "k \<le> 64 \<Longrightarrow> u_not (2 ^ k - Suc 0) = push_bit k (mask (64 - k))"
  by (simp add: u_not_def USIZE_MAX_def push_bit_eq_mult mask_eq_exp_minus_1 diff_mult_distrib
      flip: power_add)

lemma bit_u_not_mask: "k \<le> 64 \<Longrightarrow> bit (u_not (2 ^ k - Suc 0)) n \<longleftrightarrow> k \<le> n \<and> n < 64"
  by (auto simp: u_not_mask bit_push_bit_iff bit_mask_iff)

lemma and_u_not_mask:
  assumes "k \<le> 64" and "x \<le> USIZE_MAX"
  shows "x AND u_not (2 ^ k - Suc 0) = x div 2 ^ k * 2 ^ k"
proof -
  have hi: "bit x n \<Longrightarrow> n < 64" for n
  proof -
    assume "bit x n"
    moreover have "take_bit 64 x = x"
      using assms(2) by (simp add: take_bit_nat_eq_self le_USIZE_MAX_iff)
    ultimately show "n < 64" by (metis bit_take_bit_iff)
  qed
  have "x AND u_not (2 ^ k - Suc 0) = push_bit k (drop_bit k x)"
    by (rule bit_eqI)
      (auto simp: bit_and_iff bit_u_not_mask[OF assms(1)] bit_push_bit_iff bit_drop_bit_eq dest: hi)
  then show ?thesis by (simp add: push_bit_eq_mult drop_bit_eq_div)
qed

lemma align_up_pow2:
  assumes "k < 64" and "x + 2 ^ k \<le> USIZE_MAX"
  shows "align_up x (2 ^ k) = Some ((x + 2 ^ k - 1) div 2 ^ k * 2 ^ k)"
proof -
  have "(1::nat) \<le> 2 ^ k" by simp
  then have "x + 2 ^ k - 1 \<le> USIZE_MAX" and "1 \<le> x + 2 ^ k"
    using assms(2) by linarith+
  then show ?thesis
    using assms by (simp add: align_up_def and_u_not_mask)
qed

lemma align_down_pow2:
  "k < 64 \<Longrightarrow> x \<le> USIZE_MAX \<Longrightarrow> align_down x (2 ^ k) = Some (x div 2 ^ k * 2 ^ k)"
  by (simp add: align_down_def and_u_not_mask)

lemma round_up_bounds:
  fixes x a :: nat
  assumes "0 < a"
  shows "x \<le> (x + a - 1) div a * a" and "(x + a - 1) div a * a < x + a"
proof -
  have "(x + a - 1) div a * a + (x + a - 1) mod a = x + a - 1" by simp
  moreover have "(x + a - 1) mod a < a" using assms by simp
  ultimately show "x \<le> (x + a - 1) div a * a" and "(x + a - 1) div a * a < x + a"
    using assms by linarith+
qed

lemma align_up_ok:
  assumes "k < 64" and "x + 2 ^ k \<le> USIZE_MAX"
  obtains r where "align_up x (2 ^ k) = Some r" "2 ^ k dvd r" "x \<le> r" "r < x + 2 ^ k"
  using align_up_pow2[OF assms] round_up_bounds[of "2 ^ k" x] by (auto intro: that)

lemma align_up_aligned:
  assumes "k < 64" and "x + 2 ^ k \<le> USIZE_MAX" and "2 ^ k dvd x"
  shows "align_up x (2 ^ k) = Some x"
proof -
  obtain c where "x = c * 2 ^ k" using assms(3) by (metis dvd_def mult.commute)
  moreover have "(c * 2 ^ k + 2 ^ k - 1) div 2 ^ k = c"
  proof -
    have "c * 2 ^ k + 2 ^ k - 1 = (2 ^ k - 1) + c * 2 ^ k" by simp
    also have "\<dots> div 2 ^ k = (2 ^ k - 1) div 2 ^ k + c" by (subst div_mult_self1) auto
    also have "\<dots> = c" by simp
    finally show ?thesis .
  qed
  ultimately show ?thesis using align_up_pow2[OF assms(1,2)] by simp
qed

subsection \<open>Logarithms and orders\<close>

lemma bit_len_bounds: "0 < n \<Longrightarrow> 2 ^ (bit_len n - 1) \<le> n \<and> n < 2 ^ bit_len n \<and> 0 < bit_len n"
proof (induction n rule: bit_len.induct)
  case (1 n)
  show ?case
  proof (cases "n div 2 = 0")
    case True
    with 1 have "n = 1" by auto
    then show ?thesis by (simp add: bit_len.simps[of "Suc 0"] bit_len.simps[of 0])
  next
    case False
    with 1 have IH: "2 ^ (bit_len (n div 2) - 1) \<le> n div 2" "n div 2 < 2 ^ bit_len (n div 2)"
      "0 < bit_len (n div 2)" by auto
    have eq: "bit_len n = Suc (bit_len (n div 2))" using 1 by (simp add: bit_len.simps[of n])
    obtain m where m: "bit_len (n div 2) = Suc m" using IH(3) by (auto simp: gr0_conv_Suc)
    from IH(1,2) show ?thesis unfolding eq m by auto
  qed
qed

lemma bit_len_le_64: "n \<le> USIZE_MAX \<Longrightarrow> bit_len n \<le> 64"
proof (cases "n = 0")
  case False
  assume "n \<le> USIZE_MAX"
  then have "(2::nat) ^ (bit_len n - 1) < 2 ^ 64"
    using bit_len_bounds[of n] False by (auto simp: le_USIZE_MAX_iff)
  then have "bit_len n - 1 < 64" by (simp only: power_strict_increasing_iff)
  then show ?thesis by simp
qed (simp add: bit_len.simps[of 0])

lemma floor_log2_ok:
  assumes "0 < x" and "x \<le> USIZE_MAX"
  obtains k where "floor_log2 x = Some k" "2 ^ k \<le> x" "x < 2 ^ Suc k" "k < 64"
proof -
  have b: "2 ^ (bit_len x - 1) \<le> x" "x < 2 ^ bit_len x" "0 < bit_len x" "bit_len x \<le> 64"
    using bit_len_bounds[of x] bit_len_le_64[of x] assms by auto
  have "floor_log2 x = Some (bit_len x - 1)"
    using b(3,4) by (simp add: floor_log2_def leading_zeros_def u_sub_def)
  with b show ?thesis by (intro that[of "bit_len x - 1"]) auto
qed

lemma trailing_zeros_dvd: "2 ^ k dvd x \<longleftrightarrow> x = 0 \<or> k \<le> trailing_zeros x"
proof (induction x arbitrary: k rule: trailing_zeros.induct)
  case (1 x)
  consider "x = 0" | "x \<noteq> 0" "odd x" | "x \<noteq> 0" "even x" by auto
  then show ?case
  proof cases
    case 2
    then show ?thesis by (cases k) (auto simp: trailing_zeros.simps[of x])
  next
    case 3
    then obtain y where y: "x = 2 * y" "y \<noteq> 0" by auto
    have "2 ^ k dvd x \<longleftrightarrow> k \<le> Suc (trailing_zeros y)"
      using "1.IH"[of "k - 1"] 3 y by (cases k) auto
    then show ?thesis using 3 y by (simp add: trailing_zeros.simps[of "2 * y"])
  qed simp
qed

lemma pages_to_order_loop_ok:
  assumes "n = 2 ^ order" and "order \<le> k" and "pages \<le> 2 ^ k" and "k < 64"
    and "order = 0 \<or> 2 ^ (order - 1) < pages"
  shows "\<exists>r. pages_to_order_loop pages n order = Some r \<and> r \<le> k \<and> pages \<le> 2 ^ r
           \<and> (r = 0 \<or> 2 ^ (r - 1) < pages)"
  using assms
proof (induction "k - order" arbitrary: n order)
  case 0
  then have "pages_to_order_loop pages n order = Some order"
    by (subst pages_to_order_loop.simps) simp
  then show ?case using 0 by auto
next
  case (Suc d)
  show ?case
  proof (cases "n < pages")
    case True
    have lt: "order < k" using Suc.hyps(2) by simp
    have "(2::nat) ^ Suc order < 2 ^ 64" using lt Suc.prems by (intro power_strict_increasing) auto
    then have n2: "n * 2 mod 2 ^ 64 = 2 ^ Suc order" using Suc.prems by simp
    have "order + 1 \<le> USIZE_MAX" using lt Suc.prems by (simp add: USIZE_MAX_def)
    then have "pages_to_order_loop pages n order = pages_to_order_loop pages (2 ^ Suc order) (Suc order)"
      using True n2 by (simp add: pages_to_order_loop.simps[of pages n order])
    moreover have "d = k - Suc order" using Suc.hyps(2) by simp
    moreover have "2 ^ (Suc order - 1) < pages" using True Suc.prems(1) by simp
    ultimately show ?thesis using Suc.hyps(1)[of "Suc order" "2 ^ Suc order"] lt Suc.prems by simp
  next
    case False
    then have "pages_to_order_loop pages n order = Some order"
      by (simp add: pages_to_order_loop.simps[of pages n order])
    then show ?thesis using Suc.prems False by auto
  qed
qed

subsection \<open>Properties\<close>

text \<open>
  C3. \<open>pages_to_order\<close> terminates for every request of at most \<open>2^63\<close> pages, and its result is the
  least order whose block holds that many pages.
\<close>

theorem pages_to_order_least:
  assumes "0 < pages" and "pages \<le> 2 ^ 63"
  shows "\<exists>r. pages_to_order pages = Some r \<and> pages \<le> 2 ^ r \<and> (\<forall>k. pages \<le> 2 ^ k \<longrightarrow> r \<le> k)"
proof -
  obtain r where r: "pages_to_order_loop pages 1 0 = Some r" "pages \<le> 2 ^ r" "r = 0 \<or> 2 ^ (r - 1) < pages"
    using pages_to_order_loop_ok[of 1 0 63 pages] assms by auto
  have "r \<le> k" if "pages \<le> 2 ^ k" for k
  proof (rule ccontr)
    assume "\<not> r \<le> k"
    then have "(2::nat) ^ k \<le> 2 ^ (r - 1)" by (intro power_increasing) auto
    then show False using that r(3) \<open>\<not> r \<le> k\<close> by linarith
  qed
  then show ?thesis using r assms by (auto simp: pages_to_order_def)
qed

theorem pages_to_order_least_witness: "pages_to_order 9 = Some 4"
proof -
  obtain r where r: "pages_to_order 9 = Some r" "(9::nat) \<le> 2 ^ r" "\<And>k. (9::nat) \<le> 2 ^ k \<Longrightarrow> r \<le> k"
    using pages_to_order_least[of 9] by auto
  have "r \<le> 4" using r(3)[of 4] by simp
  moreover have "\<not> r \<le> 3"
  proof
    assume "r \<le> 3"
    then have "(2::nat) ^ r \<le> 2 ^ 3" by (rule power_increasing) simp
    then show False using r(2) by simp
  qed
  ultimately show ?thesis using r(1) by simp
qed

text \<open>
  C4. For a power-of-two alignment, \<open>align_up\<close> and \<open>align_down\<close> return without overflow the
  nearest multiples at or above and at or below the address.
\<close>

theorem align_nearest:
  assumes "k < 64" and "x + 2 ^ k \<le> USIZE_MAX"
  shows "\<exists>u d. align_up x (2 ^ k) = Some u \<and> align_down x (2 ^ k) = Some d
     \<and> 2 ^ k dvd u \<and> 2 ^ k dvd d \<and> d \<le> x \<and> x \<le> u
     \<and> (\<forall>y. 2 ^ k dvd y \<longrightarrow> (x \<le> y \<longrightarrow> u \<le> y) \<and> (y \<le> x \<longrightarrow> y \<le> d))"
proof -
  let ?a = "2 ^ k :: nat"
  let ?u = "(x + ?a - 1) div ?a * ?a" and ?d = "x div ?a * ?a"
  have a: "0 < ?a" by simp
  have up: "align_up x ?a = Some ?u" by (rule align_up_pow2[OF assms])
  have down: "align_down x ?a = Some ?d" using assms by (intro align_down_pow2) auto
  have least: "?u \<le> y" if y: "?a dvd y" "x \<le> y" for y
  proof -
    obtain c where c: "y = c * ?a" using y(1) by (auto elim!: dvdE simp: mult.commute)
    have "(x + ?a - 1) div ?a \<le> c"
    proof (rule less_Suc_eq_le[THEN iffD1])
      have "x + ?a - 1 < Suc c * ?a" using y(2) a unfolding c mult_Suc by linarith
      then show "(x + ?a - 1) div ?a < Suc c" by (simp only: less_mult_imp_div_less)
    qed
    then show ?thesis unfolding c by (rule mult_le_mono1)
  qed
  have greatest: "y \<le> ?d" if "?a dvd y" "y \<le> x" for y
  proof -
    have "y = y div ?a * ?a" using that(1) by simp
    also have "\<dots> \<le> ?d" using that(2) by (intro mult_le_mono1 div_le_mono)
    finally show ?thesis .
  qed
  show ?thesis
  proof (rule exI[of _ ?u], rule exI[of _ ?d], intro conjI allI impI)
    show "x \<le> ?u" by (rule round_up_bounds(1)[OF a])
  qed (use up down least greatest in simp_all)
qed

theorem align_nearest_witness:
  "(12::nat) < 64 \<and> 5000 + 2 ^ 12 \<le> USIZE_MAX \<and> align_up 5000 4096 = Some 8192 \<and> align_down 5000 4096 = Some 4096"
proof -
  have h: "(12::nat) < 64" "5000 + 2 ^ 12 \<le> USIZE_MAX" by (simp_all add: USIZE_MAX_def)
  obtain u d where e: "align_up 5000 (2 ^ 12) = Some u" "align_down 5000 (2 ^ 12) = Some d"
    and b: "2 ^ 12 dvd u" "2 ^ 12 dvd d" "d \<le> 5000" "5000 \<le> u"
    and n: "\<And>y. 2 ^ 12 dvd y \<Longrightarrow> (5000 \<le> y \<longrightarrow> u \<le> y) \<and> (y \<le> 5000 \<longrightarrow> y \<le> d)"
    using align_nearest[OF h] by blast
  have "u \<le> 8192" using n[of 8192] by simp
  moreover have "4096 \<le> d" using n[of 4096] by simp
  moreover obtain i j where "u = 4096 * i" "d = 4096 * j" using b(1,2) by (auto elim!: dvdE)
  ultimately have "i = 2" "j = 1" using b(3,4) by linarith+
  then have "u = 8192" "d = 4096" using \<open>u = 4096 * i\<close> \<open>d = 4096 * j\<close> by simp_all
  then show ?thesis using h e by simp
qed

end
