(* ===== verification/Bump_Alloc.thy ===== *)
theory Bump_Alloc
  imports Mem_Misc
begin

text \<open>
  \<open>memory/pmm/bump_alloc.rs\<close>: the arena that holds the page frame metadata at boot. The model
  keeps the arena's two addresses; \<open>alloc_zeroed\<close> differs from \<open>alloc\<close> only in the bytes it
  writes, and its callers overwrite them.
\<close>

record BumpState =
  bs_end :: usize
  bs_next :: usize

definition bump_init :: "usize \<Rightarrow> usize \<Rightarrow> BumpState option" where
  "bump_init start end_addr = do {
     rassert (start < end_addr);
     Some \<lparr>bs_end = end_addr, bs_next = start\<rparr>
   }"

definition is_power_of_two :: "usize \<Rightarrow> bool" where
  "is_power_of_two n \<longleftrightarrow> n \<in> set (map (\<lambda>k. 2 ^ k) [0..<64])"

text \<open>\<open>NonNull::new\<close> refuses the address 0, after the arena has already advanced.\<close>

definition non_null :: "usize \<Rightarrow> usize option" where
  "non_null p = (if p = 0 then None else Some p)"

definition bump_alloc :: "BumpState \<Rightarrow> usize \<Rightarrow> usize \<Rightarrow> (usize option \<times> BumpState) option" where
  "bump_alloc b len align =
     (if len = 0 then Some (None, b)
      else let a = max align 1 in
        if \<not> is_power_of_two a then Some (None, b)
        else do {
          aligned \<leftarrow> align_up (bs_next b) a;
          case checked_add aligned len of
            None \<Rightarrow> Some (None, b)
          | Some new_next \<Rightarrow>
              if new_next > bs_end b then Some (None, b)
              else Some (non_null aligned, b\<lparr>bs_next := new_next\<rparr>)
        })"

definition bump_alloc_zeroed :: "BumpState \<Rightarrow> usize \<Rightarrow> usize \<Rightarrow> (usize option \<times> BumpState) option" where
  "bump_alloc_zeroed b len align = do {
     (p, b') \<leftarrow> bump_alloc b len align;
     Some (case p of None \<Rightarrow> None | Some q \<Rightarrow> Some q, b')
   }"

text \<open>A sequence of requests \<open>(size, align)\<close> and the blocks it grants, as address, size and alignment.\<close>

fun bump_run :: "(usize \<times> usize) list \<Rightarrow> BumpState \<Rightarrow> ((usize \<times> usize \<times> usize) list \<times> BumpState) option" where
  "bump_run [] b = Some ([], b)"
| "bump_run ((len, align) # rqs) b = do {
     (p, b') \<leftarrow> bump_alloc b len align;
     (ps, b'') \<leftarrow> bump_run rqs b';
     Some (case p of None \<Rightarrow> ps | Some q \<Rightarrow> (q, len, align) # ps, b'')
   }"

subsection \<open>Lemmas\<close>

lemma is_power_of_twoE:
  assumes "is_power_of_two n"
  obtains k where "n = 2 ^ k" "k < 64"
  using assms by (auto simp: is_power_of_two_def)

lemma is_power_of_two_pow [simp]: "k < 64 \<Longrightarrow> is_power_of_two (2 ^ k)"
  by (auto simp: is_power_of_two_def)

text \<open>What one request does to an arena at a non-null address.\<close>

lemma bump_alloc_cases:
  assumes "0 < bs_next b" and "bs_next b + max align 1 \<le> USIZE_MAX"
  obtains (none) "bump_alloc b len align = Some (None, b)"
  | (some) p where "bump_alloc b len align = Some (Some p, b\<lparr>bs_next := p + len\<rparr>)" "0 < len"
      "max align 1 dvd p" "bs_next b \<le> p" "p < bs_next b + max align 1" "p + len \<le> bs_end b"
proof (cases "len = 0 \<or> \<not> is_power_of_two (max align 1)")
  case True
  then show ?thesis by (intro none) (auto simp: bump_alloc_def Let_def)
next
  case False
  then obtain k where k: "max align 1 = 2 ^ k" "k < 64" using is_power_of_twoE by blast
  then obtain p where p: "align_up (bs_next b) (max align 1) = Some p" "max align 1 dvd p"
      "bs_next b \<le> p" "p < bs_next b + max align 1"
    using align_up_ok[of k "bs_next b"] assms(2) by auto
  show ?thesis
  proof (cases "p + len \<le> USIZE_MAX \<and> p + len \<le> bs_end b")
    case True
    then have "bump_alloc b len align = Some (Some p, b\<lparr>bs_next := p + len\<rparr>)"
      using False p assms(1) by (simp add: bump_alloc_def checked_add_def non_null_def Let_def)
    then show ?thesis using some False p True by blast
  next
    case 2: False
    then have "bump_alloc b len align = Some (None, b)"
      using False p by (auto simp: bump_alloc_def checked_add_def Let_def)
    then show ?thesis by (rule none)
  qed
qed

lemma bump_alloc_room:
  assumes "0 < bs_next b" "0 < len" "k < 64" "bs_next b + 2 ^ k + len \<le> Suc (bs_end b)" "bs_end b + 2 ^ k \<le> USIZE_MAX"
  shows "\<exists>p. bump_alloc b len (2 ^ k) = Some (Some p, b\<lparr>bs_next := p + len\<rparr>) \<and> bs_next b \<le> p \<and> p < bs_next b + 2 ^ k"
proof -
  have m: "max (2 ^ k) 1 = (2 :: nat) ^ k" by simp
  obtain p where p: "align_up (bs_next b) (2 ^ k) = Some p" "bs_next b \<le> p" "p < bs_next b + 2 ^ k"
    using align_up_ok[of k "bs_next b"] assms by auto
  have "p + len \<le> bs_end b" using p assms by linarith
  then show ?thesis
    using p assms m by (simp add: bump_alloc_def checked_add_def non_null_def Let_def)
qed

text \<open>A request is refused only when it is malformed or no aligned place is left for it.\<close>

definition fits :: "BumpState \<Rightarrow> usize \<Rightarrow> usize \<Rightarrow> bool" where
  "fits b len align \<longleftrightarrow> 0 < len \<and> is_power_of_two (max align 1)
     \<and> (\<exists>p. max align 1 dvd p \<and> bs_next b \<le> p \<and> p + len \<le> bs_end b)"

lemma least_multiple:
  assumes "(a :: nat) dvd p" "p < n + a" "a dvd q" "n \<le> q"
  shows "p \<le> q"
proof (rule ccontr)
  assume "\<not> p \<le> q"
  then have "0 < p - q" "a dvd p - q" using assms by (auto intro: dvd_diff_nat)
  then have "a \<le> p - q" using dvd_imp_le by blast
  then show False using assms \<open>\<not> p \<le> q\<close> by linarith
qed

lemma bump_alloc_iff_fits:
  assumes "0 < bs_next b" "bs_next b + max align 1 \<le> USIZE_MAX" "bs_end b \<le> USIZE_MAX"
  shows "\<exists>r b'. bump_alloc b len align = Some (r, b') \<and> (r \<noteq> None \<longleftrightarrow> fits b len align) \<and> (r = None \<longrightarrow> b' = b)"
proof (cases "len = 0 \<or> \<not> is_power_of_two (max align 1)")
  case True
  then show ?thesis by (auto simp: bump_alloc_def fits_def Let_def)
next
  case False
  then obtain k where k: "max align 1 = 2 ^ k" "k < 64" using is_power_of_twoE by blast
  then obtain p where p: "align_up (bs_next b) (max align 1) = Some p" "max align 1 dvd p"
      "bs_next b \<le> p" "p < bs_next b + max align 1"
    using align_up_ok[of k "bs_next b"] assms(2) by auto
  have "fits b len align \<longleftrightarrow> p + len \<le> bs_end b"
  proof
    assume "fits b len align"
    then obtain q where q: "max align 1 dvd q" "bs_next b \<le> q" "q + len \<le> bs_end b" unfolding fits_def by blast
    then show "p + len \<le> bs_end b" using least_multiple[OF p(2,4) q(1,2)] by linarith
  next
    assume "p + len \<le> bs_end b"
    then show "fits b len align" using False p unfolding fits_def by auto
  qed
  then show ?thesis using False p assms
    by (cases "p + len \<le> bs_end b") (auto simp: bump_alloc_def checked_add_def non_null_def Let_def)
qed

subsection \<open>Properties\<close>

text \<open>The blocks are aligned and lie in the arena, in order, each one past the end of the one before.\<close>

definition blocks_within :: "usize \<Rightarrow> usize \<Rightarrow> (usize \<times> usize \<times> usize) list \<Rightarrow> bool" where
  "blocks_within lo hi bs \<longleftrightarrow>
     sorted_wrt (\<lambda>(p, n, _) (q, m, _). p + n \<le> q) bs
     \<and> (\<forall>(p, n, a) \<in> set bs. max a 1 dvd p \<and> lo \<le> p \<and> 0 < n \<and> p + n \<le> hi)"

text \<open>The address behind the last block, or the start when there is none.\<close>

fun blocks_end :: "usize \<Rightarrow> (usize \<times> usize \<times> usize) list \<Rightarrow> usize" where
  "blocks_end lo [] = lo"
| "blocks_end lo ((p, n, _) # bs) = blocks_end (p + n) bs"

lemma bump_run_ok:
  assumes "0 < bs_next b" and "bs_next b \<le> bs_end b"
    and "\<forall>(len, align) \<in> set rqs. bs_end b + max align 1 \<le> USIZE_MAX"
    and "bs_end b + max align 1 \<le> USIZE_MAX"
  shows "\<exists>bs b'. bump_run rqs b = Some (bs, b') \<and> blocks_within (bs_next b) (bs_end b) bs
     \<and> bs_end b' = bs_end b \<and> bs_next b' = blocks_end (bs_next b) bs \<and> bs_next b' \<le> bs_end b
     \<and> (\<exists>r b''. bump_alloc b' len align = Some (r, b'') \<and> (r \<noteq> None \<longleftrightarrow> fits b' len align) \<and> (r = None \<longrightarrow> b'' = b'))"
  using assms
proof (induction rqs arbitrary: b)
  case Nil
  then show ?case using bump_alloc_iff_fits[of b align len] by (simp add: blocks_within_def)
next
  case (Cons r rqs)
  obtain n a where r: "r = (n, a)" by (cases r)
  have room: "bs_next b + max a 1 \<le> USIZE_MAX" using Cons.prems by (auto simp: r)
  from Cons.prems(1) room show ?case
  proof (cases rule: bump_alloc_cases[of b a n])
    case none
    then show ?thesis using Cons.IH[of b] Cons.prems by (simp add: r)
  next
    case (some p)
    let ?b = "b\<lparr>bs_next := p + n\<rparr>"
    obtain bs b' where IH: "bump_run rqs ?b = Some (bs, b')" "blocks_within (p + n) (bs_end b) bs"
        "bs_end b' = bs_end b" "bs_next b' = blocks_end (p + n) bs" "bs_next b' \<le> bs_end b"
        "\<exists>r b''. bump_alloc b' len align = Some (r, b'') \<and> (r \<noteq> None \<longleftrightarrow> fits b' len align) \<and> (r = None \<longrightarrow> b'' = b')"
      using Cons.IH[of ?b] Cons.prems some by auto
    have "blocks_within (bs_next b) (bs_end b) ((p, n, a) # bs)"
      using IH(2) some by (auto simp: blocks_within_def)
    then show ?thesis using IH some by (simp add: r)
  qed
qed

text \<open>
  C5. Boot allocations never overlap. On a freshly initialised arena at a non-null address whose end leaves room for the
  alignments that are asked for below the top of the address space, any sequence of requests runs
  without a panic; the blocks it grants are non-empty, aligned as asked, lie inside the arena and are
  pairwise disjoint, and the arena has advanced exactly to the end of the last one. The next request
  is then granted exactly when its size is not 0, its alignment is a power of two and some aligned
  block of that size is left.
\<close>

theorem bump_run_disjoint:
  assumes "bump_init start end_addr = Some b" and "0 < start"
    and "\<forall>(len, align) \<in> set rqs. end_addr + max align 1 \<le> USIZE_MAX"
    and "end_addr + max align 1 \<le> USIZE_MAX"
  shows "\<exists>bs b'. bump_run rqs b = Some (bs, b') \<and> blocks_within start end_addr bs
     \<and> bs_end b' = end_addr \<and> bs_next b' = blocks_end start bs \<and> bs_next b' \<le> end_addr
     \<and> (\<exists>r b''. bump_alloc b' len align = Some (r, b'') \<and> (r \<noteq> None \<longleftrightarrow> fits b' len align) \<and> (r = None \<longrightarrow> b'' = b'))"
proof -
  have "b = \<lparr>bs_end = end_addr, bs_next = start\<rparr>" "start < end_addr"
    using assms(1) by (auto simp: bump_init_def rassert_def split: if_splits)
  then show ?thesis using bump_run_ok[of b rqs align len] assms(2-4) by simp
qed

theorem bump_run_disjoint_witness:
  "\<exists>b bs b'. bump_init 60 1024 = Some b \<and> bump_run [(16, 8), (100, 64), (4096, 1)] b = Some (bs, b')
     \<and> blocks_within 60 1024 bs \<and> bs_next b' = blocks_end 60 bs \<and> bs_next b' \<le> 1024"
  using bump_run_disjoint[of 60 1024 "\<lparr>bs_end = 1024, bs_next = 60\<rparr>" "[(16, 8), (100, 64), (4096, 1)]" 8 16]
  by (auto simp: bump_init_def rassert_def USIZE_MAX_def)

end
