(* ===== verification/Memblock.thy ===== *)
theory Memblock
  imports Mem_Misc "HOL-Library.Multiset"
begin

text \<open>
  \<open>arch/amd64/memory/pmm/memblock.rs\<close>: the boot-time list of memory regions. The fixed arrays of
  64 regions are lists of length 64 with a count; the in-place loops (compaction, insertion sort,
  merging, subtraction of the reserved regions) are the index loops of the source over them. The
  lemmas relate each loop to a list function (\<open>filter\<close>, \<open>sort_key\<close>, \<open>merge_ref\<close>,
  \<open>subtract_ref\<close>) and the properties state what the boot memory map becomes: the usable regions
  are exactly the usable entries less everything reserved.
\<close>

definition MAX_MEMBLOCK_REGIONS :: usize where
  "MAX_MEMBLOCK_REGIONS = 64"

datatype MemblockType = Usable | Reserved | AcpiReclaim | BootloaderReclaimable

fun is_reserved_kind :: "MemblockType \<Rightarrow> bool" where
  "is_reserved_kind k = (k \<noteq> MemblockType.Usable)"

record MemblockRegion =
  mr_base :: usize
  mr_size :: usize
  mr_kind :: MemblockType

definition region_empty :: MemblockRegion where
  "region_empty = \<lparr>mr_base = 0, mr_size = 0, mr_kind = MemblockType.Reserved\<rparr>"

definition region_end :: "MemblockRegion \<Rightarrow> usize" where
  "region_end r = saturating_add (mr_base r) (mr_size r)"

definition region_is_empty :: "MemblockRegion \<Rightarrow> bool" where
  "region_is_empty r \<longleftrightarrow> mr_size r = 0"

datatype MemblockError = OutOfSlots | ZeroSize | Overflow | InvalidKind

record Memblock =
  mb_memory :: "MemblockRegion list"
  mb_mem_cnt :: usize
  mb_reserved :: "MemblockRegion list"
  mb_res_cnt :: usize
  mb_raw_memory :: "MemblockRegion list"
  mb_raw_memory_cnt :: usize

record MemblockStats =
  st_usable_region_count :: usize
  st_usable_bytes :: usize
  st_reserved_bytes :: usize
  st_usable_min_addr :: "usize option"
  st_usable_max_addr :: "usize option"

subsection \<open>The list routines\<close>

definition compact_step ::
  "usize \<Rightarrow> MemblockRegion list \<times> usize \<Rightarrow> (MemblockRegion list \<times> usize) option" where
  "compact_step i = (\<lambda>(arr, w). do {
     r \<leftarrow> arr_get arr i;
     if mr_size r = 0 then Some (arr, w)
     else do {
       arr' \<leftarrow> (if w \<noteq> i then arr_set arr w r else Some arr);
       Some (arr', w + 1)
     }
   })"

definition compact_list :: "MemblockRegion list \<Rightarrow> usize \<Rightarrow> (MemblockRegion list \<times> usize) option" where
  "compact_list arr cnt = do {
     (arr1, w) \<leftarrow> for_each compact_step [0..<cnt] (arr, 0);
     arr2 \<leftarrow> for_each (\<lambda>i a. arr_set a i region_empty) [w..<cnt] arr1;
     Some (arr2, w)
   }"

text \<open>The inner loop of \<open>sort_by_base\<close>; its last argument is the index \<open>j\<close>.\<close>

fun sort_shift ::
  "MemblockRegion list \<Rightarrow> MemblockRegion \<Rightarrow> usize \<Rightarrow> (MemblockRegion list \<times> usize) option" where
  "sort_shift arr key 0 = Some (arr, 0)"
| "sort_shift arr key (Suc j) = do {
     p \<leftarrow> arr_get arr j;
     if mr_base p > mr_base key then do {
       arr' \<leftarrow> arr_set arr (Suc j) p;
       sort_shift arr' key j
     } else Some (arr, Suc j)
   }"

definition sort_by_base :: "MemblockRegion list \<Rightarrow> usize \<Rightarrow> MemblockRegion list option" where
  "sort_by_base arr cnt =
     for_each (\<lambda>i a. do {
       key \<leftarrow> arr_get a i;
       (a', j) \<leftarrow> sort_shift a key i;
       arr_set a' j key
     }) [1..<cnt] arr"

definition merge_step ::
  "usize \<Rightarrow> MemblockRegion list \<times> usize \<times> MemblockRegion
     \<Rightarrow> (MemblockRegion list \<times> usize \<times> MemblockRegion) option" where
  "merge_step i = (\<lambda>(arr, w, cur). do {
     r \<leftarrow> arr_get arr i;
     if mr_kind r = mr_kind cur \<and> mr_base r \<le> region_end cur then do {
       sz \<leftarrow> u_sub (max (region_end cur) (region_end r)) (mr_base cur);
       Some (arr, w, cur\<lparr>mr_size := sz\<rparr>)
     } else do {
       arr' \<leftarrow> arr_set arr w cur;
       Some (arr', w + 1, r)
     }
   })"

definition merge_overlaps_same_kind ::
  "MemblockRegion list \<Rightarrow> usize \<Rightarrow> (MemblockRegion list \<times> usize) option" where
  "merge_overlaps_same_kind arr cnt =
     (if cnt = 0 then Some (arr, cnt)
      else do {
        cur0 \<leftarrow> arr_get arr 0;
        (arr1, w, cur) \<leftarrow> for_each merge_step [1..<cnt] (arr, 0, cur0);
        arr2 \<leftarrow> arr_set arr1 w cur;
        arr3 \<leftarrow> for_each (\<lambda>i a. arr_set a i region_empty) [w + 1..<cnt] arr2;
        Some (arr3, w + 1)
      })"

text \<open>Writing one usable region to the output array, or \<open>OutOfSlots\<close>.\<close>

definition emit_usable ::
  "usize \<Rightarrow> usize \<Rightarrow> MemblockRegion list \<times> usize \<Rightarrow> (MemblockError + MemblockRegion list \<times> usize) option" where
  "emit_usable b e = (\<lambda>(out, out_cnt).
     if out_cnt \<ge> MAX_MEMBLOCK_REGIONS then Some (Inl OutOfSlots)
     else do {
       sz \<leftarrow> u_sub e b;
       out' \<leftarrow> arr_set out out_cnt \<lparr>mr_base = b, mr_size = sz, mr_kind = MemblockType.Usable\<rparr>;
       Some (Inr (out', out_cnt + 1))
     })"

function skip_reserved :: "MemblockRegion list \<Rightarrow> usize \<Rightarrow> usize \<Rightarrow> usize \<Rightarrow> usize option" where
  "skip_reserved reserved res_cnt cur ri =
     (if ri < res_cnt then do {
        r \<leftarrow> arr_get reserved ri;
        if region_end r \<le> cur then skip_reserved reserved res_cnt cur (ri + 1) else Some ri
      } else Some ri)"
  by pat_completeness auto
termination by (relation "measure (\<lambda>(_, n, _, i). n - i)") auto

function subtract_loop ::
  "MemblockRegion list \<Rightarrow> usize \<Rightarrow> usize \<Rightarrow> usize \<Rightarrow> usize \<Rightarrow> MemblockRegion list \<times> usize
     \<Rightarrow> (MemblockError + usize \<times> MemblockRegion list \<times> usize) option" where
  "subtract_loop reserved res_cnt mend ri cur out =
     (if ri < res_cnt then do {
        r \<leftarrow> arr_get reserved ri;
        if mr_base r \<ge> mend then Some (Inr (cur, out))
        else do {
          let left_end = min (mr_base r) mend;
          res \<leftarrow> (if left_end > cur then emit_usable cur left_end out else Some (Inr out));
          case res of
            Inl e \<Rightarrow> Some (Inl e)
          | Inr out' \<Rightarrow>
              (let cur' = max cur (region_end r) in
               if cur' \<ge> mend then Some (Inr (cur', out'))
               else subtract_loop reserved res_cnt mend (ri + 1) cur' out')
        }
      } else Some (Inr (cur, out)))"
  by pat_completeness auto
termination by (relation "measure (\<lambda>(_, n, _, i, _). n - i)") auto

declare skip_reserved.simps [simp del] subtract_loop.simps [simp del]

definition subtract_region ::
  "MemblockRegion list \<Rightarrow> MemblockRegion list \<Rightarrow> usize \<Rightarrow> usize \<Rightarrow> MemblockRegion list \<times> usize
     \<Rightarrow> (MemblockError + MemblockRegion list \<times> usize) option" where
  "subtract_region memory reserved res_cnt mi out = do {
     m \<leftarrow> arr_get memory mi;
     ri \<leftarrow> skip_reserved reserved res_cnt (mr_base m) 0;
     res \<leftarrow> subtract_loop reserved res_cnt (region_end m) ri (mr_base m) out;
     case res of
       Inl e \<Rightarrow> Some (Inl e)
     | Inr (cur, out') \<Rightarrow>
         (if cur < region_end m then emit_usable cur (region_end m) out' else Some (Inr out'))
   }"

definition subtract_reserved ::
  "MemblockRegion list \<Rightarrow> usize \<Rightarrow> MemblockRegion list \<Rightarrow> usize \<Rightarrow> MemblockRegion list
     \<Rightarrow> (MemblockError + MemblockRegion list \<times> usize) option" where
  "subtract_reserved memory mem_cnt reserved res_cnt out =
     try_each (subtract_region memory reserved res_cnt) [0..<mem_cnt] (out, 0)"

subsection \<open>The memblock object\<close>

definition memblock_new :: Memblock where
  "memblock_new =
     \<lparr>mb_memory = replicate MAX_MEMBLOCK_REGIONS region_empty, mb_mem_cnt = 0,
      mb_reserved = replicate MAX_MEMBLOCK_REGIONS region_empty, mb_res_cnt = 0,
      mb_raw_memory = replicate MAX_MEMBLOCK_REGIONS region_empty, mb_raw_memory_cnt = 0\<rparr>"

text \<open>
  The slices of the arrays up to their counts. Slicing past the end of an array would panic; the
  invariant \<open>mb_wf\<close> below keeps every count within its array.
\<close>

definition memory_regions :: "Memblock \<Rightarrow> MemblockRegion list" where
  "memory_regions mb = take (mb_mem_cnt mb) (mb_memory mb)"

definition reserved_regions :: "Memblock \<Rightarrow> MemblockRegion list" where
  "reserved_regions mb = take (mb_res_cnt mb) (mb_reserved mb)"

definition all_memory_regions :: "Memblock \<Rightarrow> MemblockRegion list" where
  "all_memory_regions mb = take (mb_raw_memory_cnt mb) (mb_raw_memory mb)"

definition max_phys_addr :: "Memblock \<Rightarrow> usize" where
  "max_phys_addr mb = fold max (map region_end (all_memory_regions mb)) 0"

definition add_memory :: "Memblock \<Rightarrow> usize \<Rightarrow> usize \<Rightarrow> ((MemblockError + unit) \<times> Memblock) option" where
  "add_memory mb base len =
     (if len = 0 then Some (Inl ZeroSize, mb)
      else case checked_add base len of
        None \<Rightarrow> Some (Inl Overflow, mb)
      | Some end_addr \<Rightarrow>
          if mb_mem_cnt mb \<ge> MAX_MEMBLOCK_REGIONS then Some (Inl OutOfSlots, mb)
          else if mb_raw_memory_cnt mb \<ge> MAX_MEMBLOCK_REGIONS then Some (Inl OutOfSlots, mb)
          else do {
            sz \<leftarrow> u_sub end_addr base;
            let region = \<lparr>mr_base = base, mr_size = sz, mr_kind = MemblockType.Usable\<rparr>;
            mem \<leftarrow> arr_set (mb_memory mb) (mb_mem_cnt mb) region;
            raw \<leftarrow> arr_set (mb_raw_memory mb) (mb_raw_memory_cnt mb) region;
            Some (Inr (), mb\<lparr>mb_memory := mem, mb_mem_cnt := mb_mem_cnt mb + 1,
                             mb_raw_memory := raw, mb_raw_memory_cnt := mb_raw_memory_cnt mb + 1\<rparr>)
          })"

definition add_reserved ::
  "Memblock \<Rightarrow> usize \<Rightarrow> usize \<Rightarrow> MemblockType \<Rightarrow> ((MemblockError + unit) \<times> Memblock) option" where
  "add_reserved mb base len kind =
     (if \<not> is_reserved_kind kind then Some (Inl InvalidKind, mb)
      else if len = 0 then Some (Inl ZeroSize, mb)
      else case checked_add base len of
        None \<Rightarrow> Some (Inl Overflow, mb)
      | Some end_addr \<Rightarrow>
          if mb_res_cnt mb \<ge> MAX_MEMBLOCK_REGIONS then Some (Inl OutOfSlots, mb)
          else do {
            sz \<leftarrow> u_sub end_addr base;
            res \<leftarrow> arr_set (mb_reserved mb) (mb_res_cnt mb)
                     \<lparr>mr_base = base, mr_size = sz, mr_kind = kind\<rparr>;
            Some (Inr (), mb\<lparr>mb_reserved := res, mb_res_cnt := mb_res_cnt mb + 1\<rparr>)
          })"

text \<open>The three routines that \<open>normalize\<close> runs on each array.\<close>

definition tidy :: "MemblockRegion list \<Rightarrow> usize \<Rightarrow> (MemblockRegion list \<times> usize) option" where
  "tidy arr cnt = do {
     (arr1, cnt1) \<leftarrow> compact_list arr cnt;
     arr2 \<leftarrow> sort_by_base arr1 cnt1;
     merge_overlaps_same_kind arr2 cnt1
   }"

definition normalize :: "Memblock \<Rightarrow> ((MemblockError + unit) \<times> Memblock) option" where
  "normalize mb = do {
     (raw, raw_cnt) \<leftarrow> tidy (mb_raw_memory mb) (mb_raw_memory_cnt mb);
     (mem, mem_cnt) \<leftarrow> tidy (mb_memory mb) (mb_mem_cnt mb);
     (res, res_cnt) \<leftarrow> tidy (mb_reserved mb) (mb_res_cnt mb);
     let mb1 = mb\<lparr>mb_raw_memory := raw, mb_raw_memory_cnt := raw_cnt,
                  mb_memory := mem, mb_mem_cnt := mem_cnt,
                  mb_reserved := res, mb_res_cnt := res_cnt\<rparr>;
     out \<leftarrow> subtract_reserved mem mem_cnt res res_cnt (replicate MAX_MEMBLOCK_REGIONS region_empty);
     case out of
       Inl e \<Rightarrow> Some (Inl e, mb1)
     | Inr (new_memory, new_cnt) \<Rightarrow> do {
         (mem', mem_cnt') \<leftarrow> compact_list new_memory new_cnt;
         Some (Inr (), mb1\<lparr>mb_memory := mem', mb_mem_cnt := mem_cnt'\<rparr>)
       }
   }"

definition collect_memblock_stats :: "Memblock \<Rightarrow> MemblockStats option" where
  "collect_memblock_stats mb = do {
     let st0 = \<lparr>st_usable_region_count = mb_mem_cnt mb, st_usable_bytes = 0, st_reserved_bytes = 0,
                st_usable_min_addr = None, st_usable_max_addr = None\<rparr>;
     st1 \<leftarrow> for_each (\<lambda>m st. do {
       ub \<leftarrow> u_add (st_usable_bytes st) (mr_size m);
       Some (st\<lparr>st_usable_bytes := ub,
               st_usable_min_addr := Some (case st_usable_min_addr st of
                  None \<Rightarrow> mr_base m | Some x \<Rightarrow> min x (mr_base m)),
               st_usable_max_addr := Some (case st_usable_max_addr st of
                  None \<Rightarrow> region_end m | Some x \<Rightarrow> max x (region_end m))\<rparr>)
     }) (memory_regions mb) st0;
     for_each (\<lambda>r st. for_each (\<lambda>m st'.
         let lo = max (mr_base r) (mr_base m); hi = min (region_end r) (region_end m) in
         if lo < hi then do {
           d \<leftarrow> u_sub hi lo;
           rb \<leftarrow> u_add (st_reserved_bytes st') d;
           Some (st'\<lparr>st_reserved_bytes := rb\<rparr>)
         } else Some st') (all_memory_regions mb) st)
       (reserved_regions mb) st1
   }"

text \<open>
  The entries of the boot loader's memory map. The source compares an entry's type with three
  constants of the \<open>limine\<close> crate and treats every other value alike.
\<close>

datatype EntryType = USABLE | ACPI_RECLAIMABLE | BOOTLOADER_RECLAIMABLE | OTHER_ENTRY_TYPE u64

record Entry =
  en_base :: usize
  en_length :: usize
  en_type :: EntryType

definition memblock_add_entry ::
  "Entry \<Rightarrow> Memblock \<Rightarrow> (MemblockError + Memblock) option" where
  "memblock_add_entry e mb = do {
     (r, mb') \<leftarrow> (case en_type e of
         USABLE \<Rightarrow> add_memory mb (en_base e) (en_length e)
       | ACPI_RECLAIMABLE \<Rightarrow> add_reserved mb (en_base e) (en_length e) MemblockType.AcpiReclaim
       | BOOTLOADER_RECLAIMABLE \<Rightarrow>
           add_reserved mb (en_base e) (en_length e) MemblockType.BootloaderReclaimable
       | OTHER_ENTRY_TYPE _ \<Rightarrow> add_reserved mb (en_base e) (en_length e) MemblockType.Reserved);
     Some (case r of Inl err \<Rightarrow> Inl err | Inr _ \<Rightarrow> Inr mb')
   }"

text \<open>The printed summary is dropped, but not the statistics it computes, which can overflow.\<close>

definition initialize_memblock_from_mm :: "Entry list \<Rightarrow> (MemblockError + Memblock) option" where
  "initialize_memblock_from_mm mmap = do {
     r \<leftarrow> try_each memblock_add_entry mmap memblock_new;
     case r of
       Inl err \<Rightarrow> Some (Inl err)
     | Inr mb \<Rightarrow> do {
         (n, mb') \<leftarrow> normalize mb;
         case n of
           Inl err \<Rightarrow> Some (Inl err)
         | Inr _ \<Rightarrow> do {
             collect_memblock_stats mb';
             Some (Inr mb')
           }
       }
   }"

subsection \<open>The in-place loops compute list functions\<close>

lemma fill_empty_ok:
  assumes "w \<le> cnt" and "cnt \<le> length a"
  shows "\<exists>a'. for_each (\<lambda>i a. arr_set a i e) [w..<cnt] a = Some a' \<and> length a' = length a
            \<and> take w a' = take w a"
  using for_range_inv[OF assms(1), where f = "\<lambda>i a. arr_set a i e" and s = a
      and I = "\<lambda>i t. length t = length a \<and> take w t = take w a"] assms(2)
  by fastforce

abbreviation nonempty :: "MemblockRegion \<Rightarrow> bool" where
  "nonempty r \<equiv> mr_size r \<noteq> 0"

lemma compact_list_ok:
  assumes "cnt \<le> length arr"
  shows "\<exists>arr' w. compact_list arr cnt = Some (arr', w) \<and> length arr' = length arr \<and> w \<le> cnt
           \<and> take w arr' = filter nonempty (take cnt arr)"
proof -
  let ?I = "\<lambda>n (a, w). w \<le> n \<and> length a = length arr \<and> take w a = filter nonempty (take n arr)
              \<and> drop n a = drop n arr"
  have "\<exists>t. for_each compact_step [0..<cnt] (arr, 0) = Some t \<and> ?I cnt t"
  proof (rule for_range_inv)
    fix i t
    assume i: "0 \<le> i" "i < cnt" and I: "?I i t"
    obtain a w where t: "t = (a, w)" by (cases t)
    from I t have I': "w \<le> i" "length a = length arr" "take w a = filter nonempty (take i arr)"
        "drop i a = drop i arr" by auto
    have ai: "a ! i = arr ! i" using I' i assms by (auto intro: drop_eq_nth)
    have dr: "drop (Suc i) a = drop (Suc i) arr" using I'(4) by (rule drop_eq_Suc)
    have tk: "take (Suc i) arr = take i arr @ [arr ! i]" and tka: "take (Suc i) a = take i a @ [arr ! i]"
      using I' i assms ai by (simp_all add: take_Suc_conv_app_nth)
    have il: "i < length a" "w < length a" using I' i assms by auto
    show "\<exists>t'. compact_step i t = Some t' \<and> ?I (Suc i) t'"
    proof (cases "mr_size (arr ! i) = 0")
      case True
      then have "compact_step i t = Some (a, w)" using t il ai by (simp add: compact_step_def)
      then show ?thesis using True I' dr tk by simp
    next
      case False
      let ?a = "if w \<noteq> i then a[w := arr ! i] else a"
      have "compact_step i t = Some (?a, w + 1)" using False t il ai by (simp add: compact_step_def)
      moreover have "take (Suc w) ?a = take w a @ [arr ! i]"
        using il tka by (simp add: take_Suc_update)
      ultimately show ?thesis using False I' dr tk il by simp
    qed
  qed auto
  then obtain a w where a: "for_each compact_step [0..<cnt] (arr, 0) = Some (a, w)" "w \<le> cnt"
      "length a = length arr" "take w a = filter nonempty (take cnt arr)"
    by auto
  then obtain a' where "for_each (\<lambda>i a. arr_set a i region_empty) [w..<cnt] a = Some a'"
      "length a' = length a" "take w a' = take w a"
    using fill_empty_ok[of w cnt a region_empty] assms by auto
  with a show ?thesis by (simp add: compact_list_def)
qed

lemma sort_shift_ok:
  assumes "j < length arr"
  shows "\<exists>arr' j'. sort_shift arr key j = Some (arr', j') \<and> j' \<le> j \<and> length arr' = length arr
           \<and> arr'[j' := key] = take j' arr @ key # take (j - j') (drop j' arr) @ drop (Suc j) arr
           \<and> (\<forall>x \<in> set (take (j - j') (drop j' arr)). mr_base key < mr_base x)
           \<and> (j' = 0 \<or> mr_base (arr ! (j' - 1)) \<le> mr_base key)"
  using assms
proof (induction j arbitrary: arr)
  case 0
  then show ?case
    by (auto simp: list_update_append upd_conv_take_nth_drop)
next
  case (Suc j)
  show ?case
  proof (cases "mr_base key < mr_base (arr ! j)")
    case True
    let ?a = "arr[Suc j := arr ! j]"
    obtain arr' j' where IH: "sort_shift ?a key j = Some (arr', j')" "j' \<le> j" "length arr' = length arr"
        "arr'[j' := key] = take j' ?a @ key # take (j - j') (drop j' ?a) @ drop (Suc j) ?a"
        "\<forall>x \<in> set (take (j - j') (drop j' ?a)). mr_base key < mr_base x"
        "j' = 0 \<or> mr_base (?a ! (j' - 1)) \<le> mr_base key"
      using Suc.IH[of ?a] Suc.prems by auto
    have t1: "take (j - j') (drop j' ?a) = take (j - j') (drop j' arr)"
      using IH(2) by (simp add: drop_update_swap)
    have t2: "drop (Suc j) ?a = arr ! j # drop (Suc (Suc j)) arr"
      using Suc.prems by (simp add: Cons_nth_drop_Suc[symmetric])
    have t3: "take (Suc j - j') (drop j' arr) = take (j - j') (drop j' arr) @ [arr ! j]"
      using IH(2) Suc.prems by (simp add: Suc_diff_le take_Suc_conv_app_nth)
    have "sort_shift arr key (Suc j) = Some (arr', j')"
      using True Suc.prems IH(1) by simp
    then show ?thesis
      using IH t1 t2 t3 True by (intro exI[of _ arr'] exI[of _ j']) (auto simp: nth_list_update)
  next
    case False
    then show ?thesis
      using Suc.prems by (auto simp: upd_conv_take_nth_drop)
  qed
qed

lemma sort_key_snoc:
  assumes "sort_key f xs = A @ B" and "\<forall>a \<in> set A. f a \<le> f x" and "\<forall>b \<in> set B. f x < f b"
  shows "sort_key f (xs @ [x]) = A @ x # B"
proof (rule properties_for_sort_key)
  show "mset (A @ x # B) = mset (xs @ [x])"
    using arg_cong[OF assms(1), of mset] by simp
  have "sorted (map f (A @ B))" using sorted_sort_key[of f xs] by (simp add: assms(1))
  then show "sorted (map f (A @ x # B))"
    using assms(2,3) by (fastforce simp: sorted_append)
next
  fix k
  have "filter (\<lambda>y. f k = f y) (A @ B) = filter (\<lambda>y. f k = f y) xs"
    using sort_key_stable[of f "f k" xs] by (simp add: assms(1) eq_commute)
  moreover have "f k = f x \<Longrightarrow> filter (\<lambda>y. f k = f y) B = []"
    using assms(3) by (auto simp: filter_empty_conv)
  ultimately show "filter (\<lambda>y. f k = f y) (A @ x # B) = filter (\<lambda>y. f k = f y) (xs @ [x])"
    by (cases "f k = f x") auto
qed

lemma sort_by_base_ok:
  assumes "cnt \<le> length arr"
  shows "\<exists>arr'. sort_by_base arr cnt = Some arr' \<and> length arr' = length arr
           \<and> take cnt arr' = sort_key mr_base (take cnt arr)"
proof (cases "cnt = 0")
  case False
  let ?f = "\<lambda>i a. do { key \<leftarrow> arr_get a i; (a', j) \<leftarrow> sort_shift a key i; arr_set a' j key }"
  let ?I = "\<lambda>n a. length a = length arr \<and> take n a = sort_key mr_base (take n arr)
              \<and> drop n a = drop n arr"
  have "\<exists>t. for_each ?f [1..<cnt] arr = Some t \<and> ?I cnt t"
  proof (rule for_range_inv)
    show "?I 1 arr" using False assms by (cases arr) auto
  next
    fix i a
    assume i: "1 \<le> i" "i < cnt" and I: "?I i a"
    have ai: "a ! i = arr ! i" using I i assms by (auto intro: drop_eq_nth)
    obtain a' j where s: "sort_shift a (arr ! i) i = Some (a', j)" "j \<le> i" "length a' = length a"
        "a'[j := arr ! i] = take j a @ arr ! i # take (i - j) (drop j a) @ drop (Suc i) a"
        "\<forall>x \<in> set (take (i - j) (drop j a)). mr_base (arr ! i) < mr_base x"
        "j = 0 \<or> mr_base (a ! (j - 1)) \<le> mr_base (arr ! i)"
      using sort_shift_ok[of i a "arr ! i"] I i assms by auto
    have split: "take i a = take j a @ take (i - j) (drop j a)"
      using s(2) take_add[of j "i - j" a] by simp
    have "\<forall>x \<in> set (take j a). mr_base x \<le> mr_base (arr ! i)"
    proof
      fix x
      assume "x \<in> set (take j a)"
      then obtain m where m: "m < j" "m < length a" "x = a ! m" by (auto simp: in_set_conv_nth)
      have jl: "j \<le> length a" using s(2) I i assms by simp
      have "sorted (map mr_base (take j a))"
      proof -
        have "sorted (map mr_base (take j a @ take (i - j) (drop j a)))"
          unfolding split[symmetric] using I by simp
        then show ?thesis by (simp add: sorted_append)
      qed
      then have "map mr_base (take j a) ! m \<le> map mr_base (take j a) ! (j - 1)"
        using m jl by (intro sorted_nth_mono) auto
      then show "mr_base x \<le> mr_base (arr ! i)" using m jl s(6) by auto
    qed
    then have "sort_key mr_base (take i arr @ [arr ! i]) = take j a @ arr ! i # take (i - j) (drop j a)"
      using I split s(5) by (intro sort_key_snoc) auto
    moreover have "take (Suc i) arr = take i arr @ [arr ! i]"
      using i assms by (simp add: take_Suc_conv_app_nth)
    moreover have "length (take j a @ arr ! i # take (i - j) (drop j a)) = Suc i"
      using s(2) I i assms by simp
    moreover have "drop (Suc i) a = drop (Suc i) arr" using I by (auto intro: drop_eq_Suc)
    ultimately have "?I (Suc i) (a'[j := arr ! i])"
      unfolding s(4) using I s(2,3) i assms by (auto simp: Suc_diff_le)
    then show "\<exists>t'. ?f i a = Some t' \<and> ?I (Suc i) t'"
      using s(1-3) ai I i assms by auto
  qed (use False in auto)
  then show ?thesis by (auto simp: sort_by_base_def)
qed (simp add: sort_by_base_def)

subsection \<open>Merging\<close>

definition region_ok :: "MemblockRegion \<Rightarrow> bool" where
  "region_ok r \<longleftrightarrow> mr_base r + mr_size r \<le> USIZE_MAX"

lemma region_end_ok: "region_ok r \<Longrightarrow> region_end r = mr_base r + mr_size r"
  by (simp add: region_ok_def region_end_def saturating_add_def)

fun merge_ref :: "MemblockRegion \<Rightarrow> MemblockRegion list \<Rightarrow> MemblockRegion list" where
  "merge_ref cur [] = [cur]"
| "merge_ref cur (r # rs) =
     (if mr_kind r = mr_kind cur \<and> mr_base r \<le> region_end cur
      then merge_ref (cur\<lparr>mr_size := max (region_end cur) (region_end r) - mr_base cur\<rparr>) rs
      else cur # merge_ref r rs)"

lemma region_ok_merge:
  "region_ok cur \<Longrightarrow> region_ok r \<Longrightarrow>
     region_ok (cur\<lparr>mr_size := max (region_end cur) (region_end r) - mr_base cur\<rparr>)"
  by (auto simp: region_end_ok) (auto simp: region_ok_def)

lemma merge_overlaps_ok:
  assumes "cnt \<le> length arr" and ok: "\<forall>r \<in> set (take cnt arr). region_ok r"
  shows "\<exists>arr' w. merge_overlaps_same_kind arr cnt = Some (arr', w) \<and> length arr' = length arr \<and> w \<le> cnt
           \<and> take w arr' = (case take cnt arr of [] \<Rightarrow> [] | r # rs \<Rightarrow> merge_ref r rs)"
proof (cases "cnt = 0")
  case True
  then show ?thesis by (simp add: merge_overlaps_same_kind_def)
next
  case False
  then have c: "0 < cnt" "1 \<le> cnt" by auto
  have hd: "take cnt arr = arr ! 0 # take (cnt - 1) (drop 1 arr)"
    using c assms(1) by (cases arr; cases cnt) auto
  let ?R = "merge_ref (arr ! 0) (take (cnt - 1) (drop 1 arr))"
  let ?I = "\<lambda>n (a, w, cur). w < n \<and> length a = length arr \<and> drop n a = drop n arr \<and> region_ok cur
              \<and> take w a @ merge_ref cur (take (cnt - n) (drop n arr)) = ?R"
  have "\<exists>t. for_each merge_step [1..<cnt] (arr, 0, arr ! 0) = Some t \<and> ?I cnt t"
  proof (rule for_range_inv[where I = ?I])
    show "?I 1 (arr, 0, arr ! 0)" using ok hd by simp
  next
    fix i t
    assume i: "1 \<le> i" "i < cnt" and I: "?I i t"
    obtain a w cur where t: "t = (a, w, cur)" by (cases t)
    from I t have I': "w < i" "length a = length arr" "drop i a = drop i arr" "region_ok cur"
        "take w a @ merge_ref cur (take (cnt - i) (drop i arr)) = ?R" by auto
    have ai: "a ! i = arr ! i" using I' i assms by (auto intro: drop_eq_nth)
    have dr: "drop (Suc i) a = drop (Suc i) arr" using I'(3) by (rule drop_eq_Suc)
    have il: "i < length a" "w < length a" using I' i assms by auto
    have rok: "region_ok (arr ! i)"
      using ok i assms(1) nth_mem[of i "take cnt arr"] by auto
    have nx: "take (cnt - i) (drop i arr) = arr ! i # take (cnt - Suc i) (drop (Suc i) arr)"
      using i assms(1) by (simp add: Cons_nth_drop_Suc[symmetric] Suc_diff_Suc[symmetric])
    show "\<exists>t'. merge_step i t = Some t' \<and> ?I (Suc i) t'"
    proof (cases "mr_kind (arr ! i) = mr_kind cur \<and> mr_base (arr ! i) \<le> region_end cur")
      case True
      have "mr_base cur \<le> max (region_end cur) (region_end (arr ! i))"
        using I'(4) by (simp add: region_end_ok)
      then have "merge_step i t = Some (a, w,
          cur\<lparr>mr_size := max (region_end cur) (region_end (arr ! i)) - mr_base cur\<rparr>)"
        using True t ai il by (simp add: merge_step_def)
      then show ?thesis using True I' dr nx region_ok_merge[OF I'(4) rok] by simp
    next
      case False
      then have "merge_step i t = Some (a[w := cur], w + 1, arr ! i)"
        using t ai il by (auto simp: merge_step_def)
      then show ?thesis using False I' dr nx rok il by (auto simp: take_Suc_update)
    qed
  qed (use c in auto)
  then obtain a w cur where a: "for_each merge_step [1..<cnt] (arr, 0, arr ! 0) = Some (a, w, cur)"
      "w < cnt" "length a = length arr" "take w a @ [cur] = ?R" by auto
  moreover obtain a' where "for_each (\<lambda>i a. arr_set a i region_empty) [Suc w..<cnt] (a[w := cur]) = Some a'"
      "length a' = length a" "take (Suc w) a' = take (Suc w) (a[w := cur])"
    using fill_empty_ok[of "Suc w" cnt "a[w := cur]" region_empty] a assms by auto
  moreover have "0 < length arr" using c assms(1) by linarith
  ultimately show ?thesis
    using c assms(1) hd by (auto simp: merge_overlaps_same_kind_def take_Suc_update)
qed

subsection \<open>Address sets\<close>

definition region_addrs :: "MemblockRegion \<Rightarrow> nat set" where
  "region_addrs r = {mr_base r..<region_end r}"

definition coverage :: "MemblockRegion list \<Rightarrow> nat set" where
  "coverage rs = (\<Union>r \<in> set rs. region_addrs r)"

lemma coverage_simps [simp]:
  "coverage [] = {}" "coverage (r # rs) = region_addrs r \<union> coverage rs"
  "coverage (xs @ ys) = coverage xs \<union> coverage ys"
  by (auto simp: coverage_def)

lemma coverage_filter_nonempty: "\<forall>r \<in> set rs. region_ok r \<Longrightarrow> coverage (filter nonempty rs) = coverage rs"
  by (induction rs) (auto simp: region_addrs_def region_end_ok)

lemma coverage_sort [simp]: "coverage (sort_key f rs) = coverage rs"
  by (simp add: coverage_def)

definition gap_sorted :: "MemblockRegion list \<Rightarrow> bool" where
  "gap_sorted rs \<longleftrightarrow> sorted_wrt (\<lambda>a b. region_end a < mr_base b) rs"

lemma merge_ref_addrs:
  assumes "region_ok cur" "region_ok r" "mr_base cur \<le> mr_base r" "mr_base r \<le> region_end cur"
  shows "region_addrs (cur\<lparr>mr_size := max (region_end cur) (region_end r) - mr_base cur\<rparr>)
           = region_addrs cur \<union> region_addrs r"
proof -
  let ?c = "cur\<lparr>mr_size := max (region_end cur) (region_end r) - mr_base cur\<rparr>"
  have "region_end ?c = max (region_end cur) (region_end r)"
    using region_ok_merge[OF assms(1,2)] assms(1) by (auto simp: region_end_ok)
  then show ?thesis using assms by (auto simp: region_addrs_def)
qed

definition regions_ok :: "(MemblockType \<Rightarrow> bool) \<Rightarrow> MemblockRegion list \<Rightarrow> bool" where
  "regions_ok P rs \<longleftrightarrow> (\<forall>r \<in> set rs. region_ok r \<and> 0 < mr_size r \<and> P (mr_kind r))"

lemma regions_ok_merge:
  "regions_ok P (cur # r # rs) \<Longrightarrow>
     regions_ok P (cur\<lparr>mr_size := max (region_end cur) (region_end r) - mr_base cur\<rparr> # rs)"
  using region_ok_merge[of cur r] by (auto simp: regions_ok_def region_end_ok)

lemma regions_ok_Cons [simp]:
  "regions_ok P (r # rs) \<longleftrightarrow> region_ok r \<and> 0 < mr_size r \<and> P (mr_kind r) \<and> regions_ok P rs"
  by (auto simp: regions_ok_def)

lemma regions_ok_merge_ref: "regions_ok P (cur # rs) \<Longrightarrow> regions_ok P (merge_ref cur rs)"
proof (induction cur rs rule: merge_ref.induct)
  case (2 cur r rs)
  then show ?case using regions_ok_merge[of P cur r rs] by auto
qed simp

lemma coverage_merge_ref:
  "regions_ok P (cur # rs) \<Longrightarrow> sorted (map mr_base (cur # rs)) \<Longrightarrow>
     coverage (merge_ref cur rs) = coverage (cur # rs)"
proof (induction cur rs rule: merge_ref.induct)
  case (2 cur r rs)
  then show ?case using regions_ok_merge[of P cur r rs] merge_ref_addrs[of cur r] by auto
qed simp

lemma merge_ref_base: "sorted (map mr_base (cur # rs)) \<Longrightarrow> r \<in> set (merge_ref cur rs) \<Longrightarrow> mr_base cur \<le> mr_base r"
proof (induction cur rs rule: merge_ref.induct)
  case (2 cur x rs)
  then show ?case by (auto split: if_splits)
qed simp

lemma sorted_merge_ref: "sorted (map mr_base (cur # rs)) \<Longrightarrow> sorted (map mr_base (merge_ref cur rs))"
proof (induction cur rs rule: merge_ref.induct)
  case (2 cur r rs)
  then show ?case using merge_ref_base[of r rs] by (auto intro: order_trans)
qed simp

lemma gap_sorted_merge_ref:
  "regions_ok (\<lambda>k. k = K) (cur # rs) \<Longrightarrow> sorted (map mr_base (cur # rs)) \<Longrightarrow>
     gap_sorted (merge_ref cur rs)"
proof (induction cur rs rule: merge_ref.induct)
  case (2 cur r rs)
  show ?case
  proof (cases "mr_base r \<le> region_end cur")
    case True
    then show ?thesis
      using 2 regions_ok_merge[of "\<lambda>k. k = K" cur r rs] by auto
  next
    case False
    then show ?thesis
      using 2 merge_ref_base[of r rs] by (force simp: gap_sorted_def)
  qed
qed (simp add: gap_sorted_def)

subsection \<open>Subtracting the reserved regions\<close>

definition usable_region :: "usize \<Rightarrow> usize \<Rightarrow> MemblockRegion" where
  "usable_region b e = \<lparr>mr_base = b, mr_size = e - b, mr_kind = MemblockType.Usable\<rparr>"

definition final_piece :: "usize \<Rightarrow> usize \<Rightarrow> MemblockRegion list" where
  "final_piece cur mend = (if cur < mend then [usable_region cur mend] else [])"

fun carve_ref :: "usize \<Rightarrow> usize \<Rightarrow> MemblockRegion list \<Rightarrow> MemblockRegion list" where
  "carve_ref cur mend [] = final_piece cur mend"
| "carve_ref cur mend (r # rs) =
     (if mr_base r \<ge> mend then final_piece cur mend
      else final_piece cur (mr_base r) @
        (if max cur (region_end r) \<ge> mend then [] else carve_ref (max cur (region_end r)) mend rs))"

definition carve_region :: "MemblockRegion list \<Rightarrow> MemblockRegion \<Rightarrow> MemblockRegion list" where
  "carve_region rs m =
     carve_ref (mr_base m) (region_end m) (dropWhile (\<lambda>r. region_end r \<le> mr_base m) rs)"

definition subtract_ref :: "MemblockRegion list \<Rightarrow> MemblockRegion list \<Rightarrow> MemblockRegion list" where
  "subtract_ref mem rs = concat (map (carve_region rs) mem)"

text \<open>The state of the output array: \<open>xs\<close> has been written so far.\<close>

definition out_holds :: "MemblockRegion list \<times> usize \<Rightarrow> MemblockRegion list \<Rightarrow> bool" where
  "out_holds out xs \<longleftrightarrow> length (fst out) = MAX_MEMBLOCK_REGIONS \<and> snd out = length xs
     \<and> length xs \<le> MAX_MEMBLOCK_REGIONS \<and> take (length xs) (fst out) = xs"

text \<open>What a run of the output loop must give when it has \<open>ys\<close> left to write after \<open>xs\<close>.\<close>

definition out_result ::
  "MemblockRegion list \<Rightarrow> MemblockRegion list \<Rightarrow> (MemblockError + MemblockRegion list \<times> usize) option \<Rightarrow> bool" where
  "out_result xs ys res \<longleftrightarrow>
     (if length xs + length ys \<le> MAX_MEMBLOCK_REGIONS
      then \<exists>out'. res = Some (Inr out') \<and> out_holds out' (xs @ ys)
      else res = Some (Inl OutOfSlots))"

lemma out_result_append: "out_result (xs @ zs) ys res \<longleftrightarrow> out_result xs (zs @ ys) res"
  by (simp add: out_result_def add.assoc)

lemma emit_usable_ok:
  assumes "out_holds out xs" and "b \<le> e"
  shows "out_result xs [usable_region b e] (emit_usable b e out)"
  using assms
  by (cases out)
    (auto simp: out_holds_def out_result_def emit_usable_def usable_region_def take_Suc_update)

lemma out_holds_le: "out_holds out xs \<Longrightarrow> length xs \<le> MAX_MEMBLOCK_REGIONS"
  by (simp add: out_holds_def)

lemma final_piece_ok:
  assumes "out_holds out xs"
  shows "out_result xs (final_piece cur mend)
           (if cur < mend then emit_usable cur mend out else Some (Inr out))"
proof (cases "cur < mend")
  case True
  then show ?thesis using emit_usable_ok[OF assms, of cur mend] by (simp add: final_piece_def)
next
  case False
  then show ?thesis using assms out_holds_le[OF assms] by (simp add: final_piece_def out_result_def)
qed

lemma skip_reserved_ok:
  assumes "res_cnt \<le> length reserved" and "ri \<le> res_cnt"
  shows "\<exists>rj. skip_reserved reserved res_cnt cur ri = Some rj \<and> ri \<le> rj \<and> rj \<le> res_cnt
           \<and> drop rj (take res_cnt reserved) = dropWhile (\<lambda>r. region_end r \<le> cur) (drop ri (take res_cnt reserved))"
  using assms(2)
proof (induction "res_cnt - ri" arbitrary: ri)
  case 0
  then show ?case using assms(1) by (subst skip_reserved.simps) auto
next
  case (Suc d)
  then have lt: "ri < res_cnt" by simp
  have nx: "drop ri (take res_cnt reserved) = reserved ! ri # drop (Suc ri) (take res_cnt reserved)"
    using lt assms(1) by (simp add: Cons_nth_drop_Suc[symmetric])
  show ?case
  proof (cases "region_end (reserved ! ri) \<le> cur")
    case True
    then have "skip_reserved reserved res_cnt cur ri = skip_reserved reserved res_cnt cur (Suc ri)"
      using lt assms(1) by (subst skip_reserved.simps) simp
    moreover have "d = res_cnt - Suc ri" using Suc.hyps(2) by simp
    then obtain rj where "skip_reserved reserved res_cnt cur (Suc ri) = Some rj" "Suc ri \<le> rj" "rj \<le> res_cnt"
        "drop rj (take res_cnt reserved) = dropWhile (\<lambda>r. region_end r \<le> cur) (drop (Suc ri) (take res_cnt reserved))"
      using Suc.hyps(1)[of "Suc ri"] lt by auto
    ultimately show ?thesis using True nx by auto
  next
    case False
    then have "skip_reserved reserved res_cnt cur ri = Some ri"
      using lt assms(1) by (subst skip_reserved.simps) simp
    then show ?thesis using lt False nx by auto
  qed
qed

lemma subtract_loop_ok:
  assumes "res_cnt \<le> length reserved" and "ri \<le> res_cnt" and "out_holds out xs" and "cur \<le> mend"
  shows "out_result xs (carve_ref cur mend (drop ri (take res_cnt reserved)))
           (Option.bind (subtract_loop reserved res_cnt mend ri cur out) (\<lambda>res.
              case res of Inl e \<Rightarrow> Some (Inl e)
              | Inr (c, out') \<Rightarrow> (if c < mend then emit_usable c mend out' else Some (Inr out'))))"
  using assms(2-4)
proof (induction "res_cnt - ri" arbitrary: ri out xs cur)
  case 0
  then show ?case
    using assms(1) final_piece_ok[of out xs cur mend] by (subst subtract_loop.simps) simp
next
  case (Suc d)
  then have lt: "ri < res_cnt" by simp
  let ?r = "reserved ! ri"
  let ?cur = "max cur (region_end ?r)"
  have nx: "drop ri (take res_cnt reserved) = ?r # drop (Suc ri) (take res_cnt reserved)"
    using lt assms(1) by (simp add: Cons_nth_drop_Suc[symmetric])
  show ?case
  proof (cases "mr_base ?r \<ge> mend")
    case True
    then show ?thesis
      using lt assms(1) nx final_piece_ok[OF Suc.prems(2)] by (subst subtract_loop.simps) simp
  next
    case False
    then have mn: "min (mr_base ?r) mend = mr_base ?r" by simp
    let ?e = "if mr_base ?r > cur then emit_usable cur (mr_base ?r) out else Some (Inr out)"
    have e: "out_result xs (final_piece cur (mr_base ?r)) ?e" by (rule final_piece_ok[OF Suc.prems(2)])
    show ?thesis
    proof (cases "length xs + length (final_piece cur (mr_base ?r)) \<le> MAX_MEMBLOCK_REGIONS")
      case True
      with e obtain out' where out': "?e = Some (Inr out')" "out_holds out' (xs @ final_piece cur (mr_base ?r))"
        by (auto simp: out_result_def)
      show ?thesis
      proof (cases "?cur \<ge> mend")
        case True
        then show ?thesis
          using False lt assms(1) nx out' mn out_holds_le[OF out'(2)]
          by (subst subtract_loop.simps) (cases out'; auto simp: out_result_def)
      next
        case nf: False
        have "subtract_loop reserved res_cnt mend ri cur out
                = subtract_loop reserved res_cnt mend (Suc ri) ?cur out'"
          using False lt assms(1) out' mn nf by (subst subtract_loop.simps) simp
        moreover have "d = res_cnt - Suc ri" "Suc ri \<le> res_cnt" "?cur \<le> mend"
          using Suc.hyps(2) lt nf by auto
        note Suc.hyps(1)[OF this(1,2) out'(2) this(3)]
        ultimately show ?thesis
          unfolding nx using False nf by (simp add: out_result_append)
      qed
    next
      case nf: False
      then have "?e = Some (Inl OutOfSlots)" using e by (auto simp: out_result_def)
      then have "subtract_loop reserved res_cnt mend ri cur out = Some (Inl OutOfSlots)"
        using False lt assms(1) mn by (subst subtract_loop.simps) simp
      then show ?thesis using nf False nx by (auto simp: out_result_def)
    qed
  qed
qed

lemma subtract_reserved_ok:
  assumes "mem_cnt \<le> length memory" and "res_cnt \<le> length reserved"
    and "\<forall>m \<in> set (take mem_cnt memory). region_ok m" and "length out = MAX_MEMBLOCK_REGIONS"
  shows "out_result [] (subtract_ref (take mem_cnt memory) (take res_cnt reserved))
           (subtract_reserved memory mem_cnt reserved res_cnt out)"
proof -
  have "out_result [] (subtract_ref (take n memory) (take res_cnt reserved))
           (try_each (subtract_region memory reserved res_cnt) [0..<n] (out, 0))" if "n \<le> mem_cnt" for n
    using that
  proof (induction n)
    case 0
    then show ?case using assms(4) by (simp add: subtract_ref_def out_result_def out_holds_def)
  next
    case (Suc n)
    then have n: "n < mem_cnt" by simp
    let ?m = "memory ! n"
    let ?S = "subtract_ref (take n memory) (take res_cnt reserved)"
    have tk: "take (Suc n) memory = take n memory @ [?m]"
      using n assms(1) by (simp add: take_Suc_conv_app_nth)
    have S: "subtract_ref (take (Suc n) memory) (take res_cnt reserved) = ?S @ carve_region (take res_cnt reserved) ?m"
      by (simp add: subtract_ref_def tk)
    have IH: "out_result [] ?S (try_each (subtract_region memory reserved res_cnt) [0..<n] (out, 0))"
      using Suc n by simp
    have "region_ok ?m" using assms(1,3) n nth_mem[of n "take mem_cnt memory"] by auto
    then have le: "mr_base ?m \<le> region_end ?m" by (simp add: region_end_ok)
    show ?case
    proof (cases "length ?S \<le> MAX_MEMBLOCK_REGIONS")
      case True
      with IH obtain out' where o: "try_each (subtract_region memory reserved res_cnt) [0..<n] (out, 0) = Some (Inr out')"
          "out_holds out' ?S" by (auto simp: out_result_def)
      obtain rj where rj: "skip_reserved reserved res_cnt (mr_base ?m) 0 = Some rj" "rj \<le> res_cnt"
          "drop rj (take res_cnt reserved) = dropWhile (\<lambda>r. region_end r \<le> mr_base ?m) (take res_cnt reserved)"
        using skip_reserved_ok[OF assms(2), of 0 "mr_base ?m"] by auto
      have "out_result ?S (carve_region (take res_cnt reserved) ?m)
              (subtract_region memory reserved res_cnt n out')"
        using subtract_loop_ok[OF assms(2) rj(2) o(2) le] rj n assms(1)
        by (simp add: subtract_region_def carve_region_def)
      then show ?thesis
        using o S by (auto simp: try_each_append out_result_def split: option.splits sum.splits)
    next
      case False
      then show ?thesis using IH S by (auto simp: try_each_append out_result_def)
    qed
  qed
  then show ?thesis by (simp add: subtract_reserved_def)
qed

subsection \<open>What the subtraction leaves\<close>

lemma usable_region_simps [simp]:
  "mr_base (usable_region b e) = b" "mr_kind (usable_region b e) = MemblockType.Usable"
  "mr_size (usable_region b e) = e - b"
  by (simp_all add: usable_region_def)

lemma region_end_usable [simp]: "b \<le> e \<Longrightarrow> e \<le> USIZE_MAX \<Longrightarrow> region_end (usable_region b e) = e"
  by (simp add: region_end_def saturating_add_def)

lemma coverage_final_piece: "mend \<le> USIZE_MAX \<Longrightarrow> coverage (final_piece cur mend) = {cur..<mend}"
  by (simp add: final_piece_def region_addrs_def)

lemma coverage_above: "\<forall>r \<in> set rs. b \<le> mr_base r \<Longrightarrow> coverage rs \<inter> {..<b} = {}"
  by (fastforce simp: coverage_def region_addrs_def)

lemma coverage_carve_ref:
  assumes "sorted (map mr_base rs)" and "mend \<le> USIZE_MAX" and "regions_ok P rs"
  shows "coverage (carve_ref cur mend rs) = {cur..<mend} - coverage rs"
  using assms(1,3)
proof (induction rs arbitrary: cur)
  case Nil
  then show ?case using assms(2) by (simp add: coverage_final_piece)
next
  case (Cons r rs)
  have ok: "region_end r = mr_base r + mr_size r" "0 < mr_size r" "region_end r \<le> USIZE_MAX"
    using Cons.prems by (auto simp: region_end_ok region_ok_def)
  have ab: "coverage rs \<inter> {..<mr_base r} = {}"
    using Cons.prems by (intro coverage_above) auto
  show ?case
  proof (cases "mend \<le> mr_base r")
    case True
    then have "coverage (r # rs) \<inter> {cur..<mend} = {}" using ab by (auto simp: region_addrs_def)
    then show ?thesis using True assms(2) by (auto simp: coverage_final_piece)
  next
    case False
    have left: "coverage (final_piece cur (mr_base r)) = {cur..<mr_base r}"
      using ok by (intro coverage_final_piece) simp
    have right: "coverage (if max cur (region_end r) \<ge> mend then [] else carve_ref (max cur (region_end r)) mend rs)
        = {max cur (region_end r)..<mend} - coverage rs"
      using Cons by auto
    have "{cur..<mend} - coverage (r # rs)
        = ({cur..<mr_base r} - coverage rs) \<union> ({max cur (region_end r)..<mend} - coverage rs)"
      using False ok by (auto simp: region_addrs_def)
    moreover have "{cur..<mr_base r} - coverage rs = {cur..<mr_base r}" using ab by auto
    ultimately show ?thesis using False left right by simp
  qed
qed

lemma carve_ref_bounds:
  assumes "x \<in> set (carve_ref cur mend rs)" and "mend \<le> USIZE_MAX" and "regions_ok P rs"
  shows "cur \<le> mr_base x" "mr_base x < region_end x" "region_end x \<le> mend"
    "region_ok x" "mr_kind x = MemblockType.Usable"
proof -
  have "cur \<le> mr_base x \<and> mr_base x < region_end x \<and> region_end x \<le> mend \<and> region_ok x
      \<and> mr_kind x = MemblockType.Usable"
    using assms(1,3)
  proof (induction rs arbitrary: cur)
    case Nil
    then show ?case using assms(2) by (auto simp: final_piece_def region_ok_def split: if_splits)
  next
    case (Cons r rs)
    have r: "mr_base r \<le> USIZE_MAX" using Cons.prems by (auto simp: region_ok_def)
    consider "x \<in> set (final_piece cur mend)" | "mr_base r < mend" "x \<in> set (final_piece cur (mr_base r))"
      | "x \<in> set (carve_ref (max cur (region_end r)) mend rs)"
      using Cons.prems(1) by (auto split: if_splits)
    then show ?case
    proof cases
      case 3
      then show ?thesis using Cons.IH[of "max cur (region_end r)"] Cons.prems by auto
    qed (use assms(2) r in \<open>auto simp: final_piece_def region_ok_def split: if_splits\<close>)
  qed
  then show "cur \<le> mr_base x" "mr_base x < region_end x" "region_end x \<le> mend"
    "region_ok x" "mr_kind x = MemblockType.Usable" by auto
qed

lemma gap_sorted_carve_ref:
  assumes "mend \<le> USIZE_MAX" and "regions_ok P rs"
  shows "gap_sorted (carve_ref cur mend rs)"
  using assms(2)
proof (induction rs arbitrary: cur)
  case Nil
  then show ?case by (simp add: final_piece_def gap_sorted_def)
next
  case (Cons r rs)
  have ok: "region_end r = mr_base r + mr_size r" "0 < mr_size r" "region_end r \<le> USIZE_MAX"
    using Cons.prems by (auto simp: region_end_ok region_ok_def)
  have "mr_base r < mr_base x" if "x \<in> set (carve_ref (max cur (region_end r)) mend rs)" for x
    using carve_ref_bounds(1)[OF that assms(1), of P] Cons.prems ok by auto
  then show ?case
    using Cons ok by (auto simp: gap_sorted_def final_piece_def sorted_wrt_append)
qed

lemma dropWhile_coverage:
  "{b..} \<inter> coverage (dropWhile (\<lambda>r. region_end r \<le> b) rs) = {b..} \<inter> coverage rs"
proof (induction rs)
  case (Cons r rs)
  have "region_end r \<le> b \<Longrightarrow> {b..} \<inter> region_addrs r = {}" by (auto simp: region_addrs_def)
  then show ?case using Cons by (simp add: Int_Un_distrib)
qed simp

lemma regions_ok_subset: "regions_ok P rs \<Longrightarrow> set qs \<subseteq> set rs \<Longrightarrow> regions_ok P qs"
  by (auto simp: regions_ok_def)

lemma carve_region_props:
  assumes "sorted (map mr_base rs)" and "regions_ok P rs" and "region_ok m"
  shows "coverage (carve_region rs m) = region_addrs m - coverage rs"
    and "gap_sorted (carve_region rs m)"
    and "\<forall>x \<in> set (carve_region rs m). mr_base m \<le> mr_base x \<and> mr_base x < region_end x
           \<and> region_end x \<le> region_end m \<and> region_ok x \<and> mr_kind x = MemblockType.Usable"
proof -
  let ?qs = "dropWhile (\<lambda>r. region_end r \<le> mr_base m) rs"
  have me: "region_end m \<le> USIZE_MAX" by (simp add: region_end_def saturating_add_def)
  have q: "regions_ok P ?qs" "sorted (map mr_base ?qs)"
  proof -
    show "regions_ok P ?qs" using assms(2) by (rule regions_ok_subset) (auto dest: set_dropWhileD)
    obtain n where "?qs = drop n rs" by (metis dropWhile_eq_drop)
    then show "sorted (map mr_base ?qs)"
      using assms(1) by (simp add: drop_map[symmetric] sorted_wrt_drop)
  qed
  show "coverage (carve_region rs m) = region_addrs m - coverage rs"
  proof -
    have "region_addrs m \<subseteq> {mr_base m..}" by (auto simp: region_addrs_def)
    then have "region_addrs m - coverage ?qs = region_addrs m - coverage rs"
      using dropWhile_coverage[of "mr_base m" rs] by blast
    then show ?thesis
      using coverage_carve_ref[OF q(2) me q(1), of "mr_base m"]
      by (simp add: carve_region_def region_addrs_def)
  qed
  show "gap_sorted (carve_region rs m)"
    using gap_sorted_carve_ref[OF me q(1)] by (simp add: carve_region_def)
  show "\<forall>x \<in> set (carve_region rs m). mr_base m \<le> mr_base x \<and> mr_base x < region_end x
           \<and> region_end x \<le> region_end m \<and> region_ok x \<and> mr_kind x = MemblockType.Usable"
  proof
    fix x
    assume "x \<in> set (carve_region rs m)"
    then have "x \<in> set (carve_ref (mr_base m) (region_end m) ?qs)" by (simp add: carve_region_def)
    from carve_ref_bounds[OF this me q(1)]
    show "mr_base m \<le> mr_base x \<and> mr_base x < region_end x
           \<and> region_end x \<le> region_end m \<and> region_ok x \<and> mr_kind x = MemblockType.Usable" by blast
  qed
qed

lemma subtract_ref_props:
  assumes "sorted (map mr_base rs)" and "regions_ok P rs" and "regions_ok Q mem" and "gap_sorted mem"
  shows "coverage (subtract_ref mem rs) = coverage mem - coverage rs"
    and "gap_sorted (subtract_ref mem rs)"
    and "regions_ok (\<lambda>k. k = MemblockType.Usable) (subtract_ref mem rs)"
proof -
  show "coverage (subtract_ref mem rs) = coverage mem - coverage rs"
    using assms(3) carve_region_props(1)[OF assms(1,2)]
    by (induction mem) (auto simp: subtract_ref_def)
  have sz: "mr_base x < region_end x \<Longrightarrow> region_ok x \<Longrightarrow> 0 < mr_size x" for x
    by (simp add: region_end_ok)
  show "regions_ok (\<lambda>k. k = MemblockType.Usable) (subtract_ref mem rs)"
    using assms(3) carve_region_props(3)[OF assms(1,2)] sz
    by (auto simp: subtract_ref_def regions_ok_def)
  show "gap_sorted (subtract_ref mem rs)"
    using assms(3,4)
  proof (induction mem)
    case Nil
    then show ?case by (simp add: subtract_ref_def gap_sorted_def)
  next
    case (Cons m mem)
    have g: "gap_sorted (carve_region rs m)" and gm: "gap_sorted mem"
      using Cons.prems carve_region_props(2)[OF assms(1,2)] by (auto simp: gap_sorted_def)
    have "region_end x < mr_base y"
      if x: "x \<in> set (carve_region rs m)" and y: "y \<in> set (subtract_ref mem rs)" for x y
    proof -
      obtain m' where m': "m' \<in> set mem" "y \<in> set (carve_region rs m')"
        using y by (auto simp: subtract_ref_def)
      have "region_end x \<le> region_end m" "mr_base m' \<le> mr_base y"
        using carve_region_props(3)[OF assms(1,2)] x m' Cons.prems(1) by (auto simp: regions_ok_def)
      moreover have "region_end m < mr_base m'" using Cons.prems(2) m' by (auto simp: gap_sorted_def)
      ultimately show ?thesis by simp
    qed
    then show ?case
      using Cons g gm by (auto simp: gap_sorted_def subtract_ref_def sorted_wrt_append)
  qed
qed

subsection \<open>The invariant of the memblock object\<close>

abbreviation usable_kind :: "MemblockType \<Rightarrow> bool" where
  "usable_kind k \<equiv> k = MemblockType.Usable"

definition mb_wf :: "Memblock \<Rightarrow> bool" where
  "mb_wf mb \<longleftrightarrow>
     length (mb_memory mb) = MAX_MEMBLOCK_REGIONS \<and> mb_mem_cnt mb \<le> MAX_MEMBLOCK_REGIONS \<and>
     length (mb_reserved mb) = MAX_MEMBLOCK_REGIONS \<and> mb_res_cnt mb \<le> MAX_MEMBLOCK_REGIONS \<and>
     length (mb_raw_memory mb) = MAX_MEMBLOCK_REGIONS \<and> mb_raw_memory_cnt mb \<le> MAX_MEMBLOCK_REGIONS \<and>
     regions_ok usable_kind (memory_regions mb) \<and>
     regions_ok is_reserved_kind (reserved_regions mb) \<and>
     regions_ok usable_kind (all_memory_regions mb)"

lemmas mb_defs = memory_regions_def reserved_regions_def all_memory_regions_def

lemma regions_ok_append [simp]: "regions_ok P (xs @ ys) \<longleftrightarrow> regions_ok P xs \<and> regions_ok P ys"
  by (auto simp: regions_ok_def)

lemma regions_ok_Nil [simp]: "regions_ok P []"
  by (simp add: regions_ok_def)

lemma mb_wf_new: "mb_wf memblock_new"
  by (simp add: mb_wf_def memblock_new_def mb_defs)

text \<open>A new region of \<open>n\<close> bytes at \<open>b\<close>.\<close>

definition mk_region :: "usize \<Rightarrow> usize \<Rightarrow> MemblockType \<Rightarrow> MemblockRegion" where
  "mk_region b n k = \<lparr>mr_base = b, mr_size = n, mr_kind = k\<rparr>"

lemma mk_region_simps [simp]:
  "mr_base (mk_region b n k) = b" "mr_size (mk_region b n k) = n" "mr_kind (mk_region b n k) = k"
  "region_ok (mk_region b n k) \<longleftrightarrow> b + n \<le> USIZE_MAX"
  by (simp_all add: mk_region_def region_ok_def)

lemma region_addrs_mk [simp]: "b + n \<le> USIZE_MAX \<Longrightarrow> region_addrs (mk_region b n k) = {b..<b + n}"
  by (simp add: region_addrs_def region_end_ok)

lemma add_memory_cases:
  assumes "mb_wf mb"
  obtains (err) e where "add_memory mb b n = Some (Inl e, mb)"
      "n = 0 \<or> USIZE_MAX < b + n \<or> mb_mem_cnt mb = MAX_MEMBLOCK_REGIONS
         \<or> mb_raw_memory_cnt mb = MAX_MEMBLOCK_REGIONS"
  | (ok) mb' where "add_memory mb b n = Some (Inr (), mb')" "0 < n" "b + n \<le> USIZE_MAX" "mb_wf mb'"
      "memory_regions mb' = memory_regions mb @ [mk_region b n MemblockType.Usable]"
      "all_memory_regions mb' = all_memory_regions mb @ [mk_region b n MemblockType.Usable]"
      "reserved_regions mb' = reserved_regions mb"
proof (cases "n = 0 \<or> USIZE_MAX < b + n \<or> mb_mem_cnt mb = MAX_MEMBLOCK_REGIONS
         \<or> mb_raw_memory_cnt mb = MAX_MEMBLOCK_REGIONS")
  case True
  have "\<exists>e. add_memory mb b n = Some (Inl e, mb)"
    using True assms by (auto simp: add_memory_def checked_add_def mb_wf_def)
  then show ?thesis using True err by blast
next
  case False
  let ?r = "mk_region b n MemblockType.Usable"
  let ?mb = "mb\<lparr>mb_memory := (mb_memory mb)[mb_mem_cnt mb := ?r], mb_mem_cnt := mb_mem_cnt mb + 1,
               mb_raw_memory := (mb_raw_memory mb)[mb_raw_memory_cnt mb := ?r],
               mb_raw_memory_cnt := mb_raw_memory_cnt mb + 1\<rparr>"
  have lt: "mb_mem_cnt mb < MAX_MEMBLOCK_REGIONS" "mb_raw_memory_cnt mb < MAX_MEMBLOCK_REGIONS"
    using False assms by (auto simp: mb_wf_def)
  have eq: "add_memory mb b n = Some (Inr (), ?mb)"
    using False assms lt by (simp add: add_memory_def checked_add_def mb_wf_def mk_region_def Let_def)
  have m: "memory_regions ?mb = memory_regions mb @ [?r]"
      "all_memory_regions ?mb = all_memory_regions mb @ [?r]" "reserved_regions ?mb = reserved_regions mb"
    using lt assms by (simp_all add: mb_defs take_Suc_update mb_wf_def)
  have "mb_wf ?mb"
    unfolding mb_wf_def m using assms lt False by (simp add: mb_wf_def)
  then show ?thesis using ok eq m False by auto
qed

lemma add_reserved_cases:
  assumes "mb_wf mb" and "is_reserved_kind k"
  obtains (err) e where "add_reserved mb b n k = Some (Inl e, mb)"
      "n = 0 \<or> USIZE_MAX < b + n \<or> mb_res_cnt mb = MAX_MEMBLOCK_REGIONS"
  | (ok) mb' where "add_reserved mb b n k = Some (Inr (), mb')" "0 < n" "b + n \<le> USIZE_MAX" "mb_wf mb'"
      "reserved_regions mb' = reserved_regions mb @ [mk_region b n k]"
      "memory_regions mb' = memory_regions mb" "all_memory_regions mb' = all_memory_regions mb"
proof (cases "n = 0 \<or> USIZE_MAX < b + n \<or> mb_res_cnt mb = MAX_MEMBLOCK_REGIONS")
  case True
  have "\<exists>e. add_reserved mb b n k = Some (Inl e, mb)"
    using True assms by (auto simp: add_reserved_def checked_add_def mb_wf_def)
  then show ?thesis using True err by blast
next
  case False
  let ?mb = "mb\<lparr>mb_reserved := (mb_reserved mb)[mb_res_cnt mb := mk_region b n k],
               mb_res_cnt := mb_res_cnt mb + 1\<rparr>"
  have lt: "mb_res_cnt mb < MAX_MEMBLOCK_REGIONS"
    using False assms by (auto simp: mb_wf_def)
  have eq: "add_reserved mb b n k = Some (Inr (), ?mb)"
    using False assms lt by (simp add: add_reserved_def checked_add_def mb_wf_def mk_region_def)
  have m: "reserved_regions ?mb = reserved_regions mb @ [mk_region b n k]"
      "memory_regions ?mb = memory_regions mb" "all_memory_regions ?mb = all_memory_regions mb"
    using lt assms by (simp_all add: mb_defs take_Suc_update mb_wf_def)
  have "mb_wf ?mb"
    unfolding mb_wf_def m using assms lt False by (simp add: mb_wf_def)
  then show ?thesis using ok eq m False by auto
qed

subsection \<open>Normalisation\<close>

definition tidy_ref :: "MemblockRegion list \<Rightarrow> MemblockRegion list" where
  "tidy_ref rs = (case sort_key mr_base rs of [] \<Rightarrow> [] | r # qs \<Rightarrow> merge_ref r qs)"

lemma tidy_ok:
  assumes "cnt \<le> length arr" and "regions_ok P (take cnt arr)"
  shows "\<exists>arr' w. tidy arr cnt = Some (arr', w) \<and> length arr' = length arr \<and> w \<le> cnt
           \<and> take w arr' = tidy_ref (take cnt arr)"
proof -
  obtain a1 w1 where c: "compact_list arr cnt = Some (a1, w1)" "length a1 = length arr" "w1 \<le> cnt"
      "take w1 a1 = filter nonempty (take cnt arr)"
    using compact_list_ok[OF assms(1)] by blast
  have f: "filter nonempty (take cnt arr) = take cnt arr"
    using assms(2) by (auto simp: regions_ok_def)
  obtain a2 where s: "sort_by_base a1 w1 = Some a2" "length a2 = length arr"
      "take w1 a2 = sort_key mr_base (take cnt arr)"
    using sort_by_base_ok[of w1 a1] c f assms(1) by auto
  have "\<forall>r \<in> set (take w1 a2). region_ok r" using s(3) assms(2) by (auto simp: regions_ok_def)
  then obtain a3 w3 where "merge_overlaps_same_kind a2 w1 = Some (a3, w3)" "length a3 = length arr" "w3 \<le> w1"
      "take w3 a3 = tidy_ref (take cnt arr)"
    using merge_overlaps_ok[of w1 a2] s c(3) assms(1) by (auto simp: tidy_ref_def)
  then show ?thesis using c s by (auto simp: tidy_def)
qed

lemma tidy_ref_props:
  assumes "regions_ok P rs"
  shows "coverage (tidy_ref rs) = coverage rs" "regions_ok P (tidy_ref rs)"
    "sorted (map mr_base (tidy_ref rs))" "P = (\<lambda>k. k = K) \<Longrightarrow> gap_sorted (tidy_ref rs)"
proof -
  have *: "coverage (tidy_ref rs) = coverage rs \<and> regions_ok P (tidy_ref rs) \<and>
        sorted (map mr_base (tidy_ref rs)) \<and> (P = (\<lambda>k. k = K) \<longrightarrow> gap_sorted (tidy_ref rs))"
  proof (cases "sort_key mr_base rs")
    case Nil
    then have "coverage rs = {}" by (metis coverage_sort coverage_simps(1))
    then show ?thesis
      using Nil by (simp add: tidy_ref_def gap_sorted_def)
  next
    case (Cons r qs)
    have eq: "tidy_ref rs = merge_ref r qs" by (simp add: tidy_ref_def Cons)
    have ok: "regions_ok P (r # qs)" using assms unfolding Cons[symmetric] by (simp add: regions_ok_def)
    have so: "sorted (map mr_base (r # qs))" unfolding Cons[symmetric] by simp
    have cv: "coverage (r # qs) = coverage rs" unfolding Cons[symmetric] by simp
    show ?thesis
      unfolding eq cv[symmetric]
      using coverage_merge_ref[OF ok so] regions_ok_merge_ref[OF ok] sorted_merge_ref[OF so]
        gap_sorted_merge_ref[of K r qs] ok so by blast
  qed
  show "coverage (tidy_ref rs) = coverage rs" "regions_ok P (tidy_ref rs)"
    "sorted (map mr_base (tidy_ref rs))" "P = (\<lambda>k. k = K) \<Longrightarrow> gap_sorted (tidy_ref rs)"
    using * by blast+
qed

text \<open>The pieces that \<open>normalize\<close> leaves.\<close>

definition normal_pieces :: "Memblock \<Rightarrow> MemblockRegion list" where
  "normal_pieces mb = subtract_ref (tidy_ref (memory_regions mb)) (tidy_ref (reserved_regions mb))"

lemma normalize_cases:
  assumes "mb_wf mb"
  obtains (slots) mb' where "normalize mb = Some (Inl OutOfSlots, mb')" "mb_wf mb'"
      "MAX_MEMBLOCK_REGIONS < length (normal_pieces mb)"
  | (ok) mb' where "normalize mb = Some (Inr (), mb')" "mb_wf mb'"
      "memory_regions mb' = normal_pieces mb"
      "reserved_regions mb' = tidy_ref (reserved_regions mb)"
      "all_memory_regions mb' = tidy_ref (all_memory_regions mb)"
      "length (normal_pieces mb) \<le> MAX_MEMBLOCK_REGIONS"
proof -
  have len: "length (mb_memory mb) = MAX_MEMBLOCK_REGIONS" "mb_mem_cnt mb \<le> MAX_MEMBLOCK_REGIONS"
      "length (mb_reserved mb) = MAX_MEMBLOCK_REGIONS" "mb_res_cnt mb \<le> MAX_MEMBLOCK_REGIONS"
      "length (mb_raw_memory mb) = MAX_MEMBLOCK_REGIONS" "mb_raw_memory_cnt mb \<le> MAX_MEMBLOCK_REGIONS"
    and oks: "regions_ok usable_kind (memory_regions mb)" "regions_ok is_reserved_kind (reserved_regions mb)"
      "regions_ok usable_kind (all_memory_regions mb)"
    using assms by (auto simp: mb_wf_def)
  obtain raw rc where raw: "tidy (mb_raw_memory mb) (mb_raw_memory_cnt mb) = Some (raw, rc)"
      "length raw = MAX_MEMBLOCK_REGIONS" "rc \<le> MAX_MEMBLOCK_REGIONS" "take rc raw = tidy_ref (all_memory_regions mb)"
    using tidy_ok[of "mb_raw_memory_cnt mb" "mb_raw_memory mb" usable_kind] len oks by (auto simp: mb_defs)
  obtain mem mc where mem: "tidy (mb_memory mb) (mb_mem_cnt mb) = Some (mem, mc)"
      "length mem = MAX_MEMBLOCK_REGIONS" "mc \<le> MAX_MEMBLOCK_REGIONS" "take mc mem = tidy_ref (memory_regions mb)"
    using tidy_ok[of "mb_mem_cnt mb" "mb_memory mb" usable_kind] len oks by (auto simp: mb_defs)
  obtain res sc where res: "tidy (mb_reserved mb) (mb_res_cnt mb) = Some (res, sc)"
      "length res = MAX_MEMBLOCK_REGIONS" "sc \<le> MAX_MEMBLOCK_REGIONS" "take sc res = tidy_ref (reserved_regions mb)"
    using tidy_ok[of "mb_res_cnt mb" "mb_reserved mb" is_reserved_kind] len oks by (auto simp: mb_defs)
  let ?mb1 = "mb\<lparr>mb_raw_memory := raw, mb_raw_memory_cnt := rc, mb_memory := mem, mb_mem_cnt := mc,
               mb_reserved := res, mb_res_cnt := sc\<rparr>"
  have regs1: "memory_regions ?mb1 = tidy_ref (memory_regions mb)"
      "reserved_regions ?mb1 = tidy_ref (reserved_regions mb)"
      "all_memory_regions ?mb1 = tidy_ref (all_memory_regions mb)"
    using raw mem res by (auto simp: mb_defs)
  note mp = tidy_ref_props[OF oks(1)] and rp = tidy_ref_props[OF oks(2)] and ap = tidy_ref_props[OF oks(3)]
  have wf1: "mb_wf ?mb1"
    unfolding mb_wf_def regs1 using raw mem res mp(2) rp(2) ap(2) by simp
  have sub: "out_result [] (normal_pieces mb)
      (subtract_reserved mem mc res sc (replicate MAX_MEMBLOCK_REGIONS region_empty))"
    using subtract_reserved_ok[of mc mem sc res "replicate MAX_MEMBLOCK_REGIONS region_empty"] mem res mp(2)
    by (simp add: normal_pieces_def regions_ok_def)
  have pieces: "regions_ok usable_kind (normal_pieces mb)"
    unfolding normal_pieces_def using subtract_ref_props(3)[OF rp(3,2) mp(2) mp(4)] by simp
  show ?thesis
  proof (cases "length (normal_pieces mb) \<le> MAX_MEMBLOCK_REGIONS")
    case False
    then have "subtract_reserved mem mc res sc (replicate MAX_MEMBLOCK_REGIONS region_empty) = Some (Inl OutOfSlots)"
      using sub by (auto simp: out_result_def)
    then have "normalize mb = Some (Inl OutOfSlots, ?mb1)"
      by (simp add: normalize_def raw mem res Let_def)
    then show ?thesis using slots wf1 False by (auto simp: not_le)
  next
    case True
    with sub obtain out oc where o: "subtract_reserved mem mc res sc (replicate MAX_MEMBLOCK_REGIONS region_empty)
        = Some (Inr (out, oc))" "out_holds (out, oc) (normal_pieces mb)" by (auto simp: out_result_def)
    then have oc: "length out = MAX_MEMBLOCK_REGIONS" "oc = length (normal_pieces mb)" "take oc out = normal_pieces mb"
      by (auto simp: out_holds_def)
    obtain m2 w2 where c: "compact_list out oc = Some (m2, w2)" "length m2 = MAX_MEMBLOCK_REGIONS"
        "w2 \<le> oc" "take w2 m2 = filter nonempty (take oc out)"
      using compact_list_ok[of oc out] oc True by auto
    have f: "take w2 m2 = normal_pieces mb"
      using c(4) oc(3) pieces by (auto simp: regions_ok_def filter_id_conv)
    let ?mb2 = "?mb1\<lparr>mb_memory := m2, mb_mem_cnt := w2\<rparr>"
    have n: "normalize mb = Some (Inr (), ?mb2)"
      by (simp add: normalize_def raw mem res o c Let_def)
    have regs2: "memory_regions ?mb2 = normal_pieces mb" "reserved_regions ?mb2 = tidy_ref (reserved_regions mb)"
        "all_memory_regions ?mb2 = tidy_ref (all_memory_regions mb)"
      using f regs1 by (auto simp: mb_defs)
    have "mb_wf ?mb2"
      unfolding mb_wf_def regs2 using raw mem res c oc True mp(2) rp(2) ap(2) pieces by simp
    then show ?thesis using ok n regs2 True by blast
  qed
qed

lemma normal_pieces_props:
  assumes "mb_wf mb"
  shows "coverage (normal_pieces mb) = coverage (memory_regions mb) - coverage (reserved_regions mb)"
    "gap_sorted (normal_pieces mb)"
proof -
  note mp = tidy_ref_props[of usable_kind "memory_regions mb"]
  note rp = tidy_ref_props[of is_reserved_kind "reserved_regions mb"]
  have ok: "regions_ok usable_kind (memory_regions mb)" "regions_ok is_reserved_kind (reserved_regions mb)"
    using assms by (auto simp: mb_wf_def)
  show "coverage (normal_pieces mb) = coverage (memory_regions mb) - coverage (reserved_regions mb)"
    unfolding normal_pieces_def using subtract_ref_props(1)[OF rp(3,2) mp(2) mp(4)] mp(1) rp(1) ok by simp
  show "gap_sorted (normal_pieces mb)"
    unfolding normal_pieces_def using subtract_ref_props(2)[OF rp(3,2) mp(2) mp(4)] ok by simp
qed

subsection \<open>From the boot loader's map to the memblock\<close>

lemma for_each_budget:
  assumes "\<And>x s. x \<in> set xs \<Longrightarrow> m s + c \<le> B \<Longrightarrow> \<exists>s'. f x s = Some s' \<and> m s' \<le> m s + c"
    and "m s + length xs * c \<le> (B :: nat)"
  shows "\<exists>s'. for_each f xs s = Some s' \<and> m s' \<le> m s + length xs * c"
  using assms
proof (induction xs arbitrary: s)
  case (Cons x xs)
  obtain s1 where s1: "f x s = Some s1" "m s1 \<le> m s + c"
    using Cons.prems(1)[of x s] Cons.prems(2) by auto
  have "\<exists>s'. for_each f xs s1 = Some s' \<and> m s' \<le> m s1 + length xs * c"
    using Cons.prems s1(2) by (intro Cons.IH) auto
  then show ?case using s1 by fastforce
qed simp

definition entry_addrs :: "Entry \<Rightarrow> nat set" where
  "entry_addrs e = {en_base e ..< en_base e + en_length e}"

definition map_addrs :: "(Entry \<Rightarrow> bool) \<Rightarrow> Entry list \<Rightarrow> nat set" where
  "map_addrs P es = (\<Union>e \<in> set (filter P es). entry_addrs e)"

abbreviation usable_addrs :: "Entry list \<Rightarrow> nat set" where
  "usable_addrs \<equiv> map_addrs (\<lambda>e. en_type e = USABLE)"

abbreviation reserved_addrs :: "Entry list \<Rightarrow> nat set" where
  "reserved_addrs \<equiv> map_addrs (\<lambda>e. en_type e \<noteq> USABLE)"

lemma map_addrs_simps [simp]:
  "map_addrs P [] = {}"
  "map_addrs P (e # es) = (if P e then entry_addrs e else {}) \<union> map_addrs P es"
  by (auto simp: map_addrs_def)

definition slots_used :: "Memblock \<Rightarrow> nat" where
  "slots_used mb = length (memory_regions mb) + length (reserved_regions mb)"

text \<open>The errors that adding the entries \<open>es\<close> can raise, \<open>n\<close> slots being asked for.\<close>

definition add_error :: "Entry list \<Rightarrow> nat \<Rightarrow> MemblockError \<Rightarrow> bool" where
  "add_error es n err \<longleftrightarrow>
     err = ZeroSize \<and> (\<exists>e \<in> set es. en_length e = 0)
     \<or> err = Overflow \<and> (\<exists>e \<in> set es. USIZE_MAX < en_base e + en_length e)
     \<or> err = OutOfSlots \<and> MAX_MEMBLOCK_REGIONS < n"

text \<open>What a memblock holds, next to what it held before the entries \<open>es\<close>.\<close>

definition grown :: "Entry list \<Rightarrow> Memblock \<Rightarrow> Memblock \<Rightarrow> bool" where
  "grown es mb mb' \<longleftrightarrow> mb_wf mb'
     \<and> coverage (memory_regions mb') = coverage (memory_regions mb) \<union> usable_addrs es
     \<and> coverage (all_memory_regions mb') = coverage (all_memory_regions mb) \<union> usable_addrs es
     \<and> coverage (reserved_regions mb') = coverage (reserved_regions mb) \<union> reserved_addrs es
     \<and> slots_used mb' = slots_used mb + length es
     \<and> length (all_memory_regions mb') + length (memory_regions mb)
         = length (all_memory_regions mb) + length (memory_regions mb')"

lemma memblock_add_entry_ok:
  assumes "mb_wf mb" and "length (all_memory_regions mb) = length (memory_regions mb)"
  shows "(\<exists>err. memblock_add_entry e mb = Some (Inl err) \<and> add_error [e] (Suc (slots_used mb)) err)
       \<or> (\<exists>mb'. memblock_add_entry e mb = Some (Inr mb') \<and> grown [e] mb mb')"
proof -
  let ?n = "Suc (slots_used mb)"
  have cnt: "mb_mem_cnt mb + mb_res_cnt mb = slots_used mb" "mb_raw_memory_cnt mb = mb_mem_cnt mb"
    using assms by (auto simp: slots_used_def mb_defs mb_wf_def)
  have res: "(\<exists>err. add_reserved mb (en_base e) (en_length e) k = Some (Inl err, mb) \<and> add_error [e] ?n err)
       \<or> (\<exists>mb'. add_reserved mb (en_base e) (en_length e) k = Some (Inr (), mb') \<and> grown [e] mb mb')"
    if "is_reserved_kind k" "en_type e \<noteq> USABLE" for k
    using assms(1) that(1)
  proof (cases rule: add_reserved_cases[of mb k "en_base e" "en_length e"])
    case (err x)
    then show ?thesis using that(1) cnt
      by (auto simp: add_error_def add_reserved_def checked_add_def split: if_splits option.splits bind_splits)
  next
    case (ok mb')
    then show ?thesis using that(2) by (auto simp: grown_def entry_addrs_def slots_used_def)
  qed
  have mem: "(\<exists>err. add_memory mb (en_base e) (en_length e) = Some (Inl err, mb) \<and> add_error [e] ?n err)
       \<or> (\<exists>mb'. add_memory mb (en_base e) (en_length e) = Some (Inr (), mb') \<and> grown [e] mb mb')"
    if "en_type e = USABLE"
    using assms(1)
  proof (cases rule: add_memory_cases[of mb "en_base e" "en_length e"])
    case (err x)
    then show ?thesis using cnt
      by (auto simp: add_error_def add_memory_def checked_add_def split: if_splits option.splits bind_splits)
  next
    case (ok mb')
    then show ?thesis using that by (auto simp: grown_def entry_addrs_def slots_used_def)
  qed
  show ?thesis
    using mem res[of MemblockType.AcpiReclaim] res[of MemblockType.BootloaderReclaimable]
      res[of MemblockType.Reserved]
    by (cases "en_type e") (auto simp: memblock_add_entry_def)
qed

lemma grown_trans: "grown xs a b \<Longrightarrow> grown ys b c \<Longrightarrow> grown (xs @ ys) a c"
  by (auto simp: grown_def map_addrs_def)

lemma add_error_Cons:
  "add_error [e] n err \<Longrightarrow> n \<le> m \<Longrightarrow> add_error (e # es) m err"
  "add_error es n err \<Longrightarrow> n \<le> m \<Longrightarrow> add_error (e # es) m err"
  by (auto simp: add_error_def)

lemma add_entries_ok:
  assumes "mb_wf mb" and "length (all_memory_regions mb) = length (memory_regions mb)"
  shows "(\<exists>err. try_each memblock_add_entry es mb = Some (Inl err) \<and> add_error es (slots_used mb + length es) err)
       \<or> (\<exists>mb'. try_each memblock_add_entry es mb = Some (Inr mb') \<and> grown es mb mb')"
  using assms
proof (induction es arbitrary: mb)
  case Nil
  then show ?case by (simp add: grown_def)
next
  case (Cons e es)
  consider (err) err where "memblock_add_entry e mb = Some (Inl err)" "add_error [e] (Suc (slots_used mb)) err"
    | (ok) mb1 where "memblock_add_entry e mb = Some (Inr mb1)" "grown [e] mb mb1"
    using memblock_add_entry_ok[OF Cons.prems, of e] by blast
  then show ?case
  proof cases
    case err
    then show ?thesis using add_error_Cons(1)[OF err(2)] by simp
  next
    case ok
    then have "mb_wf mb1" "length (all_memory_regions mb1) = length (memory_regions mb1)"
      using Cons.prems(2) by (simp_all add: grown_def)
    note IH = Cons.IH[OF this]
    have used: "slots_used mb1 = Suc (slots_used mb)" using ok(2) by (simp add: grown_def)
    from IH show ?thesis
    proof
      assume "\<exists>err. try_each memblock_add_entry es mb1 = Some (Inl err)
          \<and> add_error es (slots_used mb1 + length es) err"
      then show ?thesis using ok(1) used add_error_Cons(2) by fastforce
    next
      assume "\<exists>mb'. try_each memblock_add_entry es mb1 = Some (Inr mb') \<and> grown es mb1 mb'"
      then show ?thesis using ok(1) grown_trans[OF ok(2)] by fastforce
    qed
  qed
qed

subsection \<open>The boot-time statistics do not overflow\<close>

lemma region_end_le_coverage:
  assumes "regions_ok P rs" "coverage rs \<subseteq> {..<B}" "r \<in> set rs"
  shows "region_end r \<le> B" "mr_size r \<le> B"
proof -
  have r: "region_ok r" "0 < mr_size r" using assms by (auto simp: regions_ok_def)
  then have e: "region_end r = mr_base r + mr_size r" by (simp add: region_end_ok)
  then have "region_end r - 1 \<in> region_addrs r" using r by (auto simp: region_addrs_def)
  then have "region_end r - 1 \<in> coverage rs" using assms(3) by (auto simp: coverage_def)
  then have "region_end r - 1 < B" using assms(2) by auto
  then show "region_end r \<le> B" by simp
  then show "mr_size r \<le> B" using e by simp
qed

lemma collect_memblock_stats_total:
  assumes "mb_wf mb" and "coverage (memory_regions mb) \<subseteq> {..<B}" "coverage (all_memory_regions mb) \<subseteq> {..<B}"
    and "64 * 64 * B \<le> USIZE_MAX"
  shows "\<exists>st. collect_memblock_stats mb = Some st"
proof -
  let ?f = "\<lambda>m st. do {
       ub \<leftarrow> u_add (st_usable_bytes st) (mr_size m);
       Some (st\<lparr>st_usable_bytes := ub,
               st_usable_min_addr := Some (case st_usable_min_addr st of
                  None \<Rightarrow> mr_base m | Some x \<Rightarrow> min x (mr_base m)),
               st_usable_max_addr := Some (case st_usable_max_addr st of
                  None \<Rightarrow> region_end m | Some x \<Rightarrow> max x (region_end m))\<rparr>)}"
  let ?g = "\<lambda>r m st'. let lo = max (mr_base r) (mr_base m); hi = min (region_end r) (region_end m) in
         if lo < hi then do { d \<leftarrow> u_sub hi lo; rb \<leftarrow> u_add (st_reserved_bytes st') d;
           Some (st'\<lparr>st_reserved_bytes := rb\<rparr>) } else Some st'"
  have len: "length (memory_regions mb) \<le> 64" "length (all_memory_regions mb) \<le> 64"
      "length (reserved_regions mb) \<le> 64"
    and ok: "regions_ok usable_kind (memory_regions mb)" "regions_ok usable_kind (all_memory_regions mb)"
    using assms(1) by (auto simp: mb_wf_def mb_defs MAX_MEMBLOCK_REGIONS_def)
  let ?z = "\<lparr>st_usable_region_count = mb_mem_cnt mb, st_usable_bytes = 0, st_reserved_bytes = 0,
                st_usable_min_addr = None, st_usable_max_addr = None\<rparr>"
  have mem: "length (memory_regions mb) * B \<le> USIZE_MAX"
    using mult_le_mono1[OF len(1), of B] assms(4) by linarith
  have "\<exists>st. for_each ?f (memory_regions mb) ?z = Some st \<and> st_usable_bytes st + st_reserved_bytes st * (USIZE_MAX + 1)
      \<le> st_usable_bytes ?z + st_reserved_bytes ?z * (USIZE_MAX + 1) + length (memory_regions mb) * B"
  proof (rule for_each_budget[where B = USIZE_MAX])
    fix m st assume m: "m \<in> set (memory_regions mb)"
      and le: "st_usable_bytes st + st_reserved_bytes st * (USIZE_MAX + 1) + B \<le> USIZE_MAX"
    have "st_usable_bytes st + mr_size m \<le> USIZE_MAX"
      using region_end_le_coverage(2)[OF ok(1) assms(2) m] le by linarith
    then show "\<exists>s'. ?f m st = Some s' \<and> st_usable_bytes s' + st_reserved_bytes s' * (USIZE_MAX + 1)
        \<le> st_usable_bytes st + st_reserved_bytes st * (USIZE_MAX + 1) + B"
      using region_end_le_coverage(2)[OF ok(1) assms(2) m] by (simp add: u_add_def)
  qed (use mem in simp)
  then obtain st1 where st1: "for_each ?f (memory_regions mb) ?z = Some st1"
      "st_reserved_bytes st1 * (USIZE_MAX + 1) \<le> USIZE_MAX"
    using mem by fastforce
  then have r0: "st_reserved_bytes st1 = 0" by (cases "st_reserved_bytes st1") auto
  have inner: "\<exists>s'. for_each (?g r) (all_memory_regions mb) st = Some s'
      \<and> st_reserved_bytes s' \<le> st_reserved_bytes st + 64 * B"
    if "st_reserved_bytes st + 64 * B \<le> USIZE_MAX" for r st
  proof -
    have l: "length (all_memory_regions mb) * B \<le> 64 * B" using len(2) by (rule mult_le_mono1)
    have "\<exists>s'. for_each (?g r) (all_memory_regions mb) st = Some s'
      \<and> st_reserved_bytes s' \<le> st_reserved_bytes st + length (all_memory_regions mb) * B"
    proof (rule for_each_budget[where B = USIZE_MAX])
      fix m st assume m: "m \<in> set (all_memory_regions mb)"
        and le: "st_reserved_bytes st + B \<le> USIZE_MAX"
      have "min (region_end r) (region_end m) \<le> B"
        using region_end_le_coverage(1)[OF ok(2) assms(3) m] by simp
      then show "\<exists>s'. ?g r m st = Some s' \<and> st_reserved_bytes s' \<le> st_reserved_bytes st + B"
        using le by (auto simp: Let_def u_add_def u_sub_def)
    qed (use that l in linarith)
    then obtain s' where "for_each (?g r) (all_memory_regions mb) st = Some s'"
      "st_reserved_bytes s' \<le> st_reserved_bytes st + length (all_memory_regions mb) * B" by blast
    then show ?thesis using l by (intro exI[of _ s'] conjI) linarith+
  qed
  have "\<exists>s'. for_each (\<lambda>r st. for_each (?g r) (all_memory_regions mb) st) (reserved_regions mb) st1 = Some s'
      \<and> st_reserved_bytes s' \<le> st_reserved_bytes st1 + length (reserved_regions mb) * (64 * B)"
  proof (rule for_each_budget[where B = USIZE_MAX])
    show "st_reserved_bytes st1 + length (reserved_regions mb) * (64 * B) \<le> USIZE_MAX"
      using mult_le_mono1[OF len(3), of "64 * B"] assms(4) r0 by linarith
  qed (rule inner)
  then show ?thesis
    using st1(1) by (auto simp: collect_memblock_stats_def Let_def)
qed

subsection \<open>Slots that normalisation needs\<close>

lemma length_merge_ref: "length (merge_ref cur rs) \<le> Suc (length rs)"
  by (induction cur rs rule: merge_ref.induct) (auto intro: le_SucI)

lemma length_tidy_ref: "length (tidy_ref rs) \<le> length rs"
proof (cases "sort_key mr_base rs")
  case (Cons r qs)
  then have "length rs = Suc (length qs)" by (metis length_Cons length_sort)
  then show ?thesis using Cons length_merge_ref[of r qs] by (simp add: tidy_ref_def)
qed (simp add: tidy_ref_def)

text \<open>A reserved region costs a slot only where it lies strictly inside a memory region.\<close>

definition strictly_inside :: "usize \<Rightarrow> usize \<Rightarrow> MemblockRegion \<Rightarrow> bool" where
  "strictly_inside lo hi r \<longleftrightarrow> lo < mr_base r \<and> region_end r < hi"

lemma strictly_inside_mono:
  "lo \<le> lo' \<Longrightarrow> length (filter (strictly_inside lo' hi) rs) \<le> length (filter (strictly_inside lo hi) rs)"
  by (induction rs) (auto simp: strictly_inside_def)

lemma length_carve_ref: "length (carve_ref cur mend rs) \<le> Suc (length (filter (strictly_inside cur mend) rs))"
proof (induction rs arbitrary: cur)
  case Nil
  then show ?case by (simp add: final_piece_def)
next
  case (Cons r rs)
  have "length (carve_ref (max cur (region_end r)) mend rs) \<le> Suc (length (filter (strictly_inside cur mend) rs))"
    using Cons.IH[of "max cur (region_end r)"] strictly_inside_mono[of cur "max cur (region_end r)" mend rs]
    by simp
  then show ?case by (auto simp: final_piece_def strictly_inside_def[of cur mend r])
qed

lemma length_filter_dropWhile: "length (filter P (dropWhile Q xs)) \<le> length (filter P xs)"
  by (induction xs) auto

lemma length_subtract_ref:
  assumes "gap_sorted mem" and "\<forall>r \<in> set rs. region_ok r"
  shows "length (subtract_ref mem rs) \<le> length mem + length rs"
proof -
  let ?in = "\<lambda>m. strictly_inside (mr_base m) (region_end m)"
  have "length (carve_region qs m) \<le> Suc (length (filter (?in m) qs))" for qs m
    unfolding carve_region_def
    using length_carve_ref[of "mr_base m" "region_end m"] length_filter_dropWhile le_trans Suc_le_mono by meson
  then have "length (subtract_ref mem rs) \<le> (\<Sum>m\<leftarrow>mem. Suc (length (filter (?in m) rs)))"
    by (auto simp: subtract_ref_def length_concat o_def intro!: sum_list_mono)
  moreover have "(\<Sum>m\<leftarrow>mem. Suc (length (filter (?in m) rs))) \<le> length mem + length rs"
    using assms
  proof (induction mem arbitrary: rs)
    case (Cons m mem)
    let ?rest = "filter (\<lambda>r. \<not> ?in m r) rs"
    have "filter (?in m') ?rest = filter (?in m') rs" if "m' \<in> set mem" for m'
    proof -
      have "region_end m < mr_base m'" using Cons.prems(1) that by (auto simp: gap_sorted_def)
      then show ?thesis using Cons.prems(2) by (auto simp: strictly_inside_def region_end_ok intro!: filter_cong)
    qed
    then have "(\<Sum>m'\<leftarrow>mem. Suc (length (filter (?in m') rs))) = (\<Sum>m'\<leftarrow>mem. Suc (length (filter (?in m') ?rest)))"
      by (intro arg_cong[where f = sum_list] map_cong) simp_all
    also have "\<dots> \<le> length mem + length ?rest"
      using Cons.prems by (intro Cons.IH) (auto simp: gap_sorted_def)
    finally show ?case using sum_length_filter_compl[of "?in m" rs] by simp
  qed simp
  ultimately show ?thesis by simp
qed

lemma length_normal_pieces:
  assumes "mb_wf mb"
  shows "length (normal_pieces mb) \<le> slots_used mb"
proof -
  have ok: "regions_ok usable_kind (memory_regions mb)" "regions_ok is_reserved_kind (reserved_regions mb)"
    using assms by (auto simp: mb_wf_def)
  have "\<forall>r \<in> set (tidy_ref (reserved_regions mb)). region_ok r"
    using tidy_ref_props(2)[OF ok(2)] by (simp add: regions_ok_def)
  then have "length (normal_pieces mb) \<le> length (tidy_ref (memory_regions mb)) + length (tidy_ref (reserved_regions mb))"
    unfolding normal_pieces_def by (rule length_subtract_ref[OF tidy_ref_props(4)[OF ok(1) refl]])
  then show ?thesis
    using length_tidy_ref[of "memory_regions mb"] length_tidy_ref[of "reserved_regions mb"]
    by (simp add: slots_used_def)
qed

subsection \<open>Properties\<close>

lemma map_addrs_bound:
  "\<forall>e \<in> set es. en_base e + en_length e < B \<Longrightarrow> map_addrs P es \<subseteq> {..<B}"
  by (fastforce simp: map_addrs_def entry_addrs_def)

lemma new_regions [simp]:
  "memory_regions memblock_new = []" "all_memory_regions memblock_new = []" "reserved_regions memblock_new = []"
  by (simp_all add: memblock_new_def mb_defs)

text \<open>
  C1. Boot-time memory detection is exact. For every boot memory map whose entries lie below
  \<open>2^52\<close>, \<open>initialize_memblock_from_mm\<close> does not panic, and when it succeeds the usable regions
  cover exactly the bytes of the USABLE entries that no other entry covers; they are sorted,
  non-empty and separated by gaps. It fails only with \<open>ZeroSize\<close>, because of an empty entry,
  or with \<open>OutOfSlots\<close>, because of more than 64 entries.
\<close>

theorem initialize_memblock_exact:
  assumes "\<forall>e \<in> set mmap. en_base e + en_length e < 2 ^ 52"
  shows "\<exists>r. initialize_memblock_from_mm mmap = Some r \<and>
     (case r of
        Inl err \<Rightarrow> err = ZeroSize \<and> (\<exists>e \<in> set mmap. en_length e = 0) 
               \<or> err = OutOfSlots \<and> length mmap > MAX_MEMBLOCK_REGIONS
      | Inr mb \<Rightarrow> mb_wf mb \<and> gap_sorted (memory_regions mb)
          \<and> coverage (memory_regions mb) = usable_addrs mmap - reserved_addrs mmap
          \<and> coverage (all_memory_regions mb) = usable_addrs mmap
          \<and> coverage (reserved_regions mb) = reserved_addrs mmap)"
proof -
  consider (err) err where "try_each memblock_add_entry mmap memblock_new = Some (Inl err)"
      "add_error mmap (slots_used memblock_new + length mmap) err"
    | (ok) mb where "try_each memblock_add_entry mmap memblock_new = Some (Inr mb)" "grown mmap memblock_new mb"
    using add_entries_ok[OF mb_wf_new, of mmap] by auto
  then show ?thesis
  proof cases
    case err
    have "\<not> (\<exists>e \<in> set mmap. USIZE_MAX < en_base e + en_length e)"
      using assms by (force simp: USIZE_MAX_def)
    then show ?thesis using err by (auto simp: initialize_memblock_from_mm_def add_error_def slots_used_def)
  next
    case ok
    then have wf: "mb_wf mb" and cov: "coverage (memory_regions mb) = usable_addrs mmap"
        "coverage (all_memory_regions mb) = usable_addrs mmap" "coverage (reserved_regions mb) = reserved_addrs mmap"
        and used: "slots_used mb = length mmap"
      by (auto simp: grown_def slots_used_def)
    have "regions_ok usable_kind (all_memory_regions mb)" "regions_ok is_reserved_kind (reserved_regions mb)"
      using wf by (auto simp: mb_wf_def)
    note tp = tidy_ref_props(1)[OF this(1)] tidy_ref_props(1)[OF this(2)]
    from wf show ?thesis
    proof (cases rule: normalize_cases)
      case slots
      then have "MAX_MEMBLOCK_REGIONS < length mmap"
        using length_normal_pieces[OF wf] used by simp
      then show ?thesis using ok(1) slots by (simp add: initialize_memblock_from_mm_def)
    next
      case (ok mb')
      let ?B = "2 ^ 52 - 1 :: nat"
      have all: "coverage (all_memory_regions mb') = usable_addrs mmap" using ok tp cov by simp
      have mem: "coverage (memory_regions mb') = usable_addrs mmap - reserved_addrs mmap"
        using ok normal_pieces_props(1)[OF wf] cov by simp
      have "usable_addrs mmap \<subseteq> {..<?B}"
        using assms by (fastforce simp: map_addrs_def entry_addrs_def)
      then have "\<exists>st. collect_memblock_stats mb' = Some st"
        using all mem ok(2) by (intro collect_memblock_stats_total[where B = ?B]) (auto simp: USIZE_MAX_def)
      then have "initialize_memblock_from_mm mmap = Some (Inr mb')"
        using ok(1) \<open>try_each memblock_add_entry mmap memblock_new = Some (Inr mb)\<close>
        by (auto simp: initialize_memblock_from_mm_def)
      then show ?thesis
        using ok all mem tp cov normal_pieces_props(2)[OF wf] by simp
    qed
  qed
qed

text \<open>
  C2. \<open>normalize\<close> on a well-formed memblock never panics, keeps the invariant, and on success
  leaves the usable memory equal to the memory minus the reserved regions, with the reserved and the
  raw memory unchanged as sets of addresses; it fails exactly when the pieces do not fit the array.
\<close>

theorem normalize_correct:
  assumes "mb_wf mb"
  shows "\<exists>r mb'. normalize mb = Some (r, mb') \<and> mb_wf mb'
     \<and> (r = Inl OutOfSlots \<and> length (normal_pieces mb) > MAX_MEMBLOCK_REGIONS
        \<or> r = Inr () \<and> length (normal_pieces mb) \<le> MAX_MEMBLOCK_REGIONS
          \<and> gap_sorted (memory_regions mb')
          \<and> coverage (memory_regions mb') = coverage (memory_regions mb) - coverage (reserved_regions mb)
          \<and> coverage (reserved_regions mb') = coverage (reserved_regions mb)
          \<and> coverage (all_memory_regions mb') = coverage (all_memory_regions mb))"
proof -
  have "regions_ok usable_kind (all_memory_regions mb)" "regions_ok is_reserved_kind (reserved_regions mb)"
    using assms by (auto simp: mb_wf_def)
  note tp = tidy_ref_props(1)[OF this(1)] tidy_ref_props(1)[OF this(2)]
  from assms show ?thesis
  proof (cases rule: normalize_cases)
    case slots
    then show ?thesis by blast
  next
    case (ok mb')
    then show ?thesis using tp normal_pieces_props[OF assms] by auto
  qed
qed

text \<open>A map of a usable region, a hole in it, and a region that a second one extends.\<close>

abbreviation demo_map :: "Entry list" where
  "demo_map \<equiv> [\<lparr>en_base = 4096, en_length = 40960, en_type = USABLE\<rparr>,
               \<lparr>en_base = 8192, en_length = 4096, en_type = ACPI_RECLAIMABLE\<rparr>,
               \<lparr>en_base = 40960, en_length = 8192, en_type = USABLE\<rparr>]"

theorem initialize_memblock_exact_witness:
  "\<exists>mb. initialize_memblock_from_mm demo_map = Some (Inr mb)
      \<and> coverage (memory_regions mb) = {4096..<49152} - {8192..<12288} \<and> gap_sorted (memory_regions mb)"
proof -
  have h: "\<forall>e \<in> set demo_map. en_base e + en_length e < 2 ^ 52" by simp
  have u: "usable_addrs demo_map = {4096..<49152}" "reserved_addrs demo_map = {8192..<12288}"
    by (auto simp: entry_addrs_def)
  obtain r where r: "initialize_memblock_from_mm demo_map = Some r"
    "case r of
        Inl err \<Rightarrow> err = ZeroSize \<and> (\<exists>e \<in> set demo_map. en_length e = 0)
               \<or> err = OutOfSlots \<and> length demo_map > MAX_MEMBLOCK_REGIONS
      | Inr mb \<Rightarrow> mb_wf mb \<and> gap_sorted (memory_regions mb)
          \<and> coverage (memory_regions mb) = usable_addrs demo_map - reserved_addrs demo_map
          \<and> coverage (all_memory_regions mb) = usable_addrs demo_map
          \<and> coverage (reserved_regions mb) = reserved_addrs demo_map"
    using initialize_memblock_exact[OF h] by blast
  have "\<exists>mb. r = Inr mb \<and> coverage (memory_regions mb) = {4096..<49152} - {8192..<12288} \<and> gap_sorted (memory_regions mb)"
    using r(2) unfolding u by (cases r) (simp_all add: MAX_MEMBLOCK_REGIONS_def)
  then show ?thesis using r(1) by blast
qed

definition demo_memblock :: Memblock where
  "demo_memblock = memblock_new
     \<lparr>mb_memory := mk_region 4096 8192 MemblockType.Usable # replicate 63 region_empty, mb_mem_cnt := 1,
      mb_reserved := mk_region 8192 8192 MemblockType.Reserved # replicate 63 region_empty, mb_res_cnt := 1\<rparr>"

theorem normalize_correct_witness:
  "mb_wf demo_memblock \<and> (\<exists>mb'. normalize demo_memblock = Some (Inr (), mb')
     \<and> coverage (memory_regions mb') = {4096..<8192})"
proof -
  have regs: "memory_regions demo_memblock = [mk_region 4096 8192 MemblockType.Usable]"
      "reserved_regions demo_memblock = [mk_region 8192 8192 MemblockType.Reserved]"
      "all_memory_regions demo_memblock = []"
    by (simp_all add: demo_memblock_def mb_defs memblock_new_def)
  have wf: "mb_wf demo_memblock"
    unfolding mb_wf_def regs
    by (simp add: demo_memblock_def memblock_new_def MAX_MEMBLOCK_REGIONS_def regions_ok_def USIZE_MAX_def)
  have "length (normal_pieces demo_memblock) \<le> MAX_MEMBLOCK_REGIONS"
    using length_normal_pieces[OF wf] by (simp add: slots_used_def regs MAX_MEMBLOCK_REGIONS_def)
  moreover have "coverage (memory_regions demo_memblock) - coverage (reserved_regions demo_memblock) = {4096..<8192}"
    by (auto simp: regs USIZE_MAX_def)
  ultimately show ?thesis using normalize_correct[OF wf] wf by auto
qed

end
