(* ===== verification/Sparsemem.thy ===== *)
theory Sparsemem
  imports Bump_Alloc Memblock
begin

text \<open>
  \<open>memory/pmm/sparsemem.rs\<close>: the page frame metadata, one section of 32768 frames for every
  128 MiB of physical memory that holds usable memory. The tag of a frame (\<open>buddy.rs\<close>) and the
  zone of a frame (\<open>zones_manager.rs\<close>) are declared here because the frame record has them.

  The section table and the frame arrays are blocks of the boot arena that nothing else points
  into, so the model holds their contents in place of the pointers: the null pointer is the empty
  list, and an access outside of an array is \<open>None\<close>.
\<close>

subsection \<open>Data\<close>

definition PAGE_SHIFT :: usize where "PAGE_SHIFT = 12"
definition PAGE_SIZE :: usize where "PAGE_SIZE = 2 ^ PAGE_SHIFT"
definition SECTION_SHIFT :: usize where "SECTION_SHIFT = 27"
definition SECTION_SIZE :: usize where "SECTION_SIZE = 2 ^ SECTION_SHIFT"
definition PAGES_PER_SECTION :: usize where "PAGES_PER_SECTION = 2 ^ (SECTION_SHIFT - PAGE_SHIFT)"
definition SECTION_PFN_SHIFT :: usize where "SECTION_PFN_SHIFT = SECTION_SHIFT - PAGE_SHIFT"

type_synonym Pfn = usize

definition INVALID_PFN :: Pfn where "INVALID_PFN = USIZE_MAX"

datatype BuddyTag = Unused | Free | Allocated

datatype ZoneId = Dma | Normal | High

datatype FrameState = Absent | Usable | Reserved

record Frame =
  f_state :: FrameState
  f_order :: nat
  f_tag :: BuddyTag
  f_zone :: ZoneId
  f_next_free :: Pfn
  f_prev_free :: Pfn

definition frame_absent :: Frame where
  "frame_absent = \<lparr>f_state = Absent, f_order = 0, f_tag = Unused, f_zone = Normal,
     f_next_free = INVALID_PFN, f_prev_free = INVALID_PFN\<rparr>"

record Memsection =
  ms_frames :: "Frame list"
  ms_present :: bool

definition memsection_empty :: Memsection where
  "memsection_empty = \<lparr>ms_frames = [], ms_present = False\<rparr>"

record SparseMem =
  sp_sections :: "Memsection list"
  sp_section_count :: usize
  sp_max_present_sec :: usize
  sp_cached_max_pfn :: Pfn

definition sparse_empty :: SparseMem where
  "sparse_empty = \<lparr>sp_sections = [], sp_section_count = 0, sp_max_present_sec = 0, sp_cached_max_pfn = 0\<rparr>"

text \<open>Sizes and alignments that \<open>repr(C)\<close> gives the two structures on x86-64.\<close>

definition SIZEOF_MEMSECTION :: usize where "SIZEOF_MEMSECTION = 16"
definition SIZEOF_FRAME :: usize where "SIZEOF_FRAME = 24"
definition ALIGNOF_PTR :: usize where "ALIGNOF_PTR = 8"

subsection \<open>Lookup\<close>

definition is_initialized :: "SparseMem \<Rightarrow> bool" where
  "is_initialized sp \<longleftrightarrow> sp_sections sp \<noteq> []"

definition pfn_to_section :: "Pfn \<Rightarrow> usize" where
  "pfn_to_section pfn = pfn div 2 ^ SECTION_PFN_SHIFT"

definition pfn_to_offset :: "Pfn \<Rightarrow> usize" where
  "pfn_to_offset pfn = pfn AND (PAGES_PER_SECTION - 1)"

definition section_base_pfn :: "usize \<Rightarrow> Pfn" where
  "section_base_pfn sec = sec * 2 ^ SECTION_PFN_SHIFT mod 2 ^ 64"

definition pfn_present :: "SparseMem \<Rightarrow> Pfn \<Rightarrow> bool" where
  "pfn_present sp pfn \<longleftrightarrow>
     (let sec = pfn_to_section pfn in sec < sp_section_count sp \<and> ms_present (sp_sections sp ! sec))"

definition max_present_pfn :: "SparseMem \<Rightarrow> Pfn" where
  "max_present_pfn sp = sp_cached_max_pfn sp"

text \<open>A frame pointer is a section and an offset in it.\<close>

definition pfn_to_frame :: "SparseMem \<Rightarrow> Pfn \<Rightarrow> (usize \<times> usize) option" where
  "pfn_to_frame sp pfn =
     (if \<not> pfn_present sp pfn then None else Some (pfn_to_section pfn, pfn_to_offset pfn))"

definition frame_load :: "SparseMem \<Rightarrow> usize \<times> usize \<Rightarrow> Frame option" where
  "frame_load sp = (\<lambda>(sec, off). do {
     s \<leftarrow> arr_get (sp_sections sp) sec;
     arr_get (ms_frames s) off
   })"

definition frame_store :: "usize \<times> usize \<Rightarrow> Frame \<Rightarrow> SparseMem \<Rightarrow> SparseMem option" where
  "frame_store = (\<lambda>(sec, off) f sp. do {
     s \<leftarrow> arr_get (sp_sections sp) sec;
     fs \<leftarrow> arr_set (ms_frames s) off f;
     ss \<leftarrow> arr_set (sp_sections sp) sec (s\<lparr>ms_frames := fs\<rparr>);
     Some (sp\<lparr>sp_sections := ss\<rparr>)
   })"

subsection \<open>Initialisation\<close>

definition ensure_section :: "usize \<Rightarrow> BumpState \<times> SparseMem \<Rightarrow> (BumpState \<times> SparseMem) option" where
  "ensure_section sec = (\<lambda>(bump, sp).
     if sec \<ge> sp_section_count sp then Some (bump, sp)
     else do {
       s \<leftarrow> arr_get (sp_sections sp) sec;
       if ms_present s then Some (bump, sp)
       else do {
         bytes \<leftarrow> u_mul PAGES_PER_SECTION SIZEOF_FRAME;
         (p, bump') \<leftarrow> bump_alloc_zeroed bump bytes ALIGNOF_PTR;
         p;
         let s' = \<lparr>ms_frames = replicate PAGES_PER_SECTION frame_absent, ms_present = True\<rparr>;
         Some (bump', sp\<lparr>sp_sections := (sp_sections sp)[sec := s'],
                         sp_max_present_sec := max sec (sp_max_present_sec sp)\<rparr>)
       }
     })"

text \<open>Writing a state to \<open>len\<close> frames of a section from offset \<open>off\<close> on.\<close>

definition mark_chunk :: "usize \<Rightarrow> usize \<Rightarrow> usize \<Rightarrow> FrameState \<Rightarrow> SparseMem \<Rightarrow> SparseMem option" where
  "mark_chunk sec off len state sp = do {
     s \<leftarrow> arr_get (sp_sections sp) sec;
     rassert (off + len \<le> length (ms_frames s));
     fs \<leftarrow> for_each (\<lambda>i fs. do {
         f \<leftarrow> arr_get fs i;
         arr_set fs i (f\<lparr>f_state := state\<rparr>)
       }) [off..<off + len] (ms_frames s);
     ss \<leftarrow> arr_set (sp_sections sp) sec (s\<lparr>ms_frames := fs\<rparr>);
     Some (sp\<lparr>sp_sections := ss\<rparr>)
   }"

text \<open>The loop of \<open>mark_range\<close>; not returning is \<open>None\<close>.\<close>

partial_function (option) mark_loop ::
  "FrameState \<Rightarrow> bool \<Rightarrow> Pfn \<Rightarrow> Pfn \<Rightarrow> BumpState \<times> SparseMem \<Rightarrow> (BumpState \<times> SparseMem) option" where
  "mark_loop state create end_pfn pfn st =
     (if pfn < end_pfn then
        let sec = pfn_to_section pfn in
        if sec \<ge> sp_section_count (snd st) then Some st
        else do {
          (bump, sp) \<leftarrow> (if create then ensure_section sec st else Some st);
          s \<leftarrow> arr_get (sp_sections sp) sec;
          if \<not> ms_present s then do {
            sec1 \<leftarrow> u_add sec 1;
            let pfn' = min end_pfn (section_base_pfn sec1);
            mark_loop state create end_pfn pfn' (bump, sp)
          } else do {
            let sec_base = section_base_pfn sec;
            sec_end \<leftarrow> u_add sec_base PAGES_PER_SECTION;
            let chunk_end = min end_pfn sec_end;
            off \<leftarrow> u_sub pfn sec_base;
            len \<leftarrow> u_sub chunk_end pfn;
            sp' \<leftarrow> mark_chunk sec off len state sp;
            mark_loop state create end_pfn chunk_end (bump, sp')
          }
        }
      else Some st)"

definition mark_range ::
  "usize \<Rightarrow> usize \<Rightarrow> FrameState \<Rightarrow> bool \<Rightarrow> BumpState \<times> SparseMem \<Rightarrow> (BumpState \<times> SparseMem) option" where
  "mark_range base end_addr state create st =
     (if base \<ge> end_addr then Some st
      else do {
        let start_pfn = base div 2 ^ PAGE_SHIFT;
        e \<leftarrow> u_add end_addr PAGE_SIZE;
        e1 \<leftarrow> u_sub e 1;
        mark_loop state create (e1 div 2 ^ PAGE_SHIFT) start_pfn st
      })"

text \<open>The last frame of a section that is not absent, from the end.\<close>

definition last_present :: "Frame list \<Rightarrow> usize option" where
  "last_present fs = List.find (\<lambda>i. f_state (fs ! i) \<noteq> Absent) (rev [0..<length fs])"

definition compute_max_present_pfn :: "SparseMem \<Rightarrow> Pfn option" where
  "compute_max_present_pfn sp = for_each (\<lambda>sec mx. do {
       s \<leftarrow> arr_get (sp_sections sp) sec;
       if \<not> ms_present s then Some mx
       else do {
         rassert (length (ms_frames s) = PAGES_PER_SECTION);
         (case last_present (ms_frames s) of
            None \<Rightarrow> Some mx
          | Some i \<Rightarrow> do {
              a \<leftarrow> u_add (section_base_pfn sec) i;
              pfn \<leftarrow> u_add a 1;
              Some (if pfn > mx then pfn else mx)
            })
       }
     }) [0..<sp_section_count sp] 0"

definition section_count_from_max_phys :: "usize \<Rightarrow> usize" where
  "section_count_from_max_phys max_phys =
     (if max_phys = 0 then 0 else (max_phys - 1) div 2 ^ SECTION_SHIFT + 1)"

definition init_from_memblock :: "BumpState \<Rightarrow> Memblock \<Rightarrow> SparseMem \<Rightarrow> (BumpState \<times> SparseMem) option" where
  "init_from_memblock bump mb sp = do {
     rassert (\<not> is_initialized sp);
     let max_phys = max_phys_addr mb;
     if max_phys = 0 then Some (bump, sp)
     else do {
       let section_count = section_count_from_max_phys max_phys;
       bytes \<leftarrow> u_mul section_count SIZEOF_MEMSECTION;
       (p, bump1) \<leftarrow> bump_alloc_zeroed bump bytes ALIGNOF_PTR;
       p;
       let sp1 = sp\<lparr>sp_sections := replicate section_count memsection_empty, sp_section_count := section_count\<rparr>;
       st2 \<leftarrow> for_each (\<lambda>r st.
           if mr_kind r \<noteq> MemblockType.Usable \<or> mr_size r = 0 then Some st
           else mark_range (mr_base r) (region_end r) Usable True st) (memory_regions mb) (bump1, sp1);
       (bump3, sp3) \<leftarrow> for_each (\<lambda>r st.
           if mr_size r = 0 then Some st
           else mark_range (mr_base r) (region_end r) Reserved False st) (reserved_regions mb) st2;
       mx \<leftarrow> compute_max_present_pfn sp3;
       Some (bump3, sp3\<lparr>sp_cached_max_pfn := mx\<rparr>)
     }
   }"

subsection \<open>Sizing the metadata\<close>

definition MAX_SECTIONS :: usize where
  "MAX_SECTIONS = 512 * 1024 * 1024 * 1024 div SECTION_SIZE"

definition SECTION_WORDS :: usize where
  "SECTION_WORDS = MAX_SECTIONS div 64"

definition set_section_bit :: "usize \<Rightarrow> u64 list \<Rightarrow> u64 list option" where
  "set_section_bit sec seen =
     (if sec < MAX_SECTIONS then do {
        w \<leftarrow> arr_get seen (sec div 64);
        arr_set seen (sec div 64) (w OR push_bit (sec mod 64) 1)
      } else Some seen)"

definition count_ones :: "u64 \<Rightarrow> usize" where
  "count_ones w = length (filter (bit w) [0..<64])"

definition count_present_sections :: "Memblock \<Rightarrow> usize option" where
  "count_present_sections mb = do {
     seen \<leftarrow> for_each (\<lambda>r seen.
         if mr_size r = 0 then Some seen
         else let start_sec = mr_base r div 2 ^ SECTION_SHIFT;
                  end_sec = saturating_sub (region_end r) 1 div 2 ^ SECTION_SHIFT
              in for_each set_section_bit [start_sec..<Suc end_sec] seen)
       (memory_regions mb) (replicate SECTION_WORDS 0);
     Some (sum_list (map count_ones seen))
   }"

definition sparsemem_required_bytes :: "Memblock \<Rightarrow> usize option" where
  "sparsemem_required_bytes mb = do {
     let section_count = section_count_from_max_phys (max_phys_addr mb);
     present_sections \<leftarrow> count_present_sections mb;
     n \<leftarrow> u_add present_sections 1;
     align_slack \<leftarrow> u_mul ALIGNOF_PTR n;
     a \<leftarrow> u_mul section_count SIZEOF_MEMSECTION;
     b \<leftarrow> u_mul present_sections PAGES_PER_SECTION;
     c \<leftarrow> u_mul b SIZEOF_FRAME;
     d \<leftarrow> u_add a c;
     u_add d align_slack
   }"

fun find_region :: "usize \<Rightarrow> MemblockRegion list \<Rightarrow> (usize \<times> usize) option option" where
  "find_region need_bytes [] = Some None"
| "find_region need_bytes (r # rs) =
     (if mr_size r = 0 then find_region need_bytes rs
      else do {
        aligned_base \<leftarrow> align_up (mr_base r) PAGE_SIZE;
        end_addr \<leftarrow> u_add (mr_base r) (mr_size r);
        if aligned_base \<ge> end_addr then find_region need_bytes rs
        else do {
          available \<leftarrow> u_sub end_addr aligned_base;
          if available \<ge> need_bytes then Some (Some (mr_base r, mr_size r)) else find_region need_bytes rs
        }
      })"

definition find_suitable_region :: "Memblock \<Rightarrow> usize \<Rightarrow> (usize \<times> usize) option option" where
  "find_suitable_region mb need_bytes = find_region need_bytes (memory_regions mb)"

definition reserve_for_sparsemem ::
  "Memblock \<Rightarrow> usize \<Rightarrow> usize \<Rightarrow> ((MemblockError + unit) \<times> Memblock) option" where
  "reserve_for_sparsemem mb base len = do {
     (r, mb1) \<leftarrow> add_reserved mb base len MemblockType.Reserved;
     case r of
       Inl e \<Rightarrow> Some (Inl e, mb1)
     | Inr _ \<Rightarrow> normalize mb1
   }"

text \<open>The layer and the memblock it has reserved its own memory in.\<close>

definition init_sparsemem_layer :: "usize \<Rightarrow> Memblock \<Rightarrow> (SparseMem \<times> Memblock) option" where
  "init_sparsemem_layer hhdm mb = do {
     need_bytes \<leftarrow> sparsemem_required_bytes mb;
     found \<leftarrow> find_suitable_region mb need_bytes;
     (region_base, region_size) \<leftarrow> found;
     bump_start \<leftarrow> align_up region_base PAGE_SIZE;
     bump_end \<leftarrow> u_add bump_start need_bytes;
     (r, mb') \<leftarrow> reserve_for_sparsemem mb bump_start need_bytes;
     (case r of Inl e \<Rightarrow> None | Inr _ \<Rightarrow> Some ());
     bump_virt_start \<leftarrow> phys_to_virt hhdm bump_start;
     bump_virt_end \<leftarrow> phys_to_virt hhdm bump_end;
     bump \<leftarrow> bump_init bump_virt_start bump_virt_end;
     (bump', sp) \<leftarrow> init_from_memblock bump mb' sparse_empty;
     Some (sp, mb')
   }"

subsection \<open>The abstract view of the sections\<close>

lemmas sparse_consts = PAGE_SHIFT_def PAGE_SIZE_def SECTION_SHIFT_def SECTION_SIZE_def
  PAGES_PER_SECTION_def SECTION_PFN_SHIFT_def SIZEOF_MEMSECTION_def SIZEOF_FRAME_def ALIGNOF_PTR_def

lemma PAGES_PER_SECTION_eq [simp]: "PAGES_PER_SECTION = 32768"
  by (simp add: sparse_consts)

lemma SECTION_PFN_SHIFT_pow [simp]: "2 ^ SECTION_PFN_SHIFT = (32768 :: nat)"
  by (simp add: sparse_consts)

lemma PAGE_SIZE_eq [simp]: "PAGE_SIZE = 4096" "2 ^ PAGE_SHIFT = (4096 :: nat)"
  by (simp_all add: sparse_consts)

lemma SECTION_SIZE_eq [simp]: "SECTION_SIZE = 134217728" "2 ^ SECTION_SHIFT = (134217728 :: nat)"
  by (simp_all add: sparse_consts)

lemma pfn_to_section_eq [simp]: "pfn_to_section p = p div 32768"
  by (simp add: pfn_to_section_def)

lemma pfn_to_offset_eq [simp]: "pfn_to_offset p = p mod 32768"
proof -
  have "PAGES_PER_SECTION - 1 = mask 15" by (simp add: mask_eq_exp_minus_1)
  then show ?thesis by (simp only: pfn_to_offset_def flip: take_bit_eq_mask) (simp add: take_bit_eq_mod)
qed

lemma section_base_pfn_eq: "sec \<le> 2 ^ 37 \<Longrightarrow> section_base_pfn sec = sec * 32768"
  by (simp add: section_base_pfn_def)

definition present_secs :: "SparseMem \<Rightarrow> nat set" where
  "present_secs sp = {sec. sec < sp_section_count sp \<and> ms_present (sp_sections sp ! sec)}"

definition frames_of :: "SparseMem \<Rightarrow> Pfn \<Rightarrow> Frame option" where
  "frames_of sp p =
     (if p div 32768 \<in> present_secs sp then Some (ms_frames (sp_sections sp ! (p div 32768)) ! (p mod 32768)) else None)"

definition base_frame :: "SparseMem \<Rightarrow> Pfn \<Rightarrow> Frame" where
  "base_frame sp p = (case frames_of sp p of None \<Rightarrow> frame_absent | Some f \<Rightarrow> f)"

definition sparse_wf :: "SparseMem \<Rightarrow> bool" where
  "sparse_wf sp \<longleftrightarrow> length (sp_sections sp) = sp_section_count sp \<and> sp_section_count sp \<le> 2 ^ 37
     \<and> (\<forall>sec \<in> present_secs sp. length (ms_frames (sp_sections sp ! sec)) = 32768 \<and> sec \<le> sp_max_present_sec sp)
     \<and> (0 < sp_section_count sp \<longrightarrow> sp_max_present_sec sp < sp_section_count sp)"

lemma pfn_present_iff [simp]: "pfn_present sp p \<longleftrightarrow> frames_of sp p \<noteq> None"
  by (auto simp: pfn_present_def frames_of_def present_secs_def Let_def)

lemma pfn_to_frame_eq:
  "pfn_to_frame sp p = (if frames_of sp p = None then None else Some (p div 32768, p mod 32768))"
  by (simp add: pfn_to_frame_def)

lemma frames_of_dom: "frames_of sp p = None \<longleftrightarrow> p div 32768 \<notin> present_secs sp"
  by (simp add: frames_of_def)

lemma frame_load_ok:
  assumes "sparse_wf sp" and "frames_of sp p = Some f"
  shows "frame_load sp (p div 32768, p mod 32768) = Some f"
  using assms by (auto simp: frame_load_def frames_of_def sparse_wf_def present_secs_def split: if_splits)

lemma frame_store_ok:
  assumes "sparse_wf sp" and "frames_of sp p = Some f"
  shows "\<exists>sp'. frame_store (p div 32768, p mod 32768) g sp = Some sp' \<and> sparse_wf sp'
     \<and> frames_of sp' = (frames_of sp)(p \<mapsto> g) \<and> present_secs sp' = present_secs sp
     \<and> sp_section_count sp' = sp_section_count sp \<and> sp_max_present_sec sp' = sp_max_present_sec sp
     \<and> sp_cached_max_pfn sp' = sp_cached_max_pfn sp"
proof -
  let ?s = "p div 32768" and ?o = "p mod 32768"
  have s: "?s \<in> present_secs sp" "?s < length (sp_sections sp)" "length (ms_frames (sp_sections sp ! ?s)) = 32768"
    using assms by (auto simp: frames_of_def sparse_wf_def present_secs_def split: if_splits)
  let ?sec = "sp_sections sp ! ?s"
  let ?sp = "sp\<lparr>sp_sections := (sp_sections sp)[?s := ?sec\<lparr>ms_frames := (ms_frames ?sec)[?o := g]\<rparr>]\<rparr>"
  have st: "frame_store (?s, ?o) g sp = Some ?sp" using s by (simp add: frame_store_def)
  have nth: "sp_sections ?sp ! k = (if k = ?s then ?sec\<lparr>ms_frames := (ms_frames ?sec)[?o := g]\<rparr> else sp_sections sp ! k)" for k
    using s(2) by (simp add: nth_list_update)
  have pres: "present_secs ?sp = present_secs sp"
    unfolding present_secs_def nth using s by (auto simp: present_secs_def)
  have "sparse_wf ?sp"
    using assms(1) s unfolding sparse_wf_def pres nth by auto
  moreover have "frames_of ?sp q = ((frames_of sp)(p \<mapsto> g)) q" for q
  proof (cases "q div 32768 = ?s")
    case True
    have "q = p \<longleftrightarrow> q mod 32768 = ?o" using True by (metis div_mult_mod_eq)
    moreover have "q mod 32768 < 32768" by simp
    ultimately show ?thesis
      unfolding frames_of_def pres nth using True s by (simp add: nth_list_update)
  next
    case False
    then have "q \<noteq> p" by auto
    then show ?thesis unfolding frames_of_def pres nth using False by simp
  qed
  ultimately show ?thesis using st pres by auto
qed

subsection \<open>Marking a range\<close>

text \<open>Marking the pages \<open>P\<close>, where the sections they touch are created or only looked up.\<close>

definition touched :: "nat \<Rightarrow> nat set \<Rightarrow> nat set" where
  "touched n P = {sec. sec < n \<and> (\<exists>p \<in> P. p div 32768 = sec)}"

definition marked :: "FrameState \<Rightarrow> bool \<Rightarrow> nat set \<Rightarrow> SparseMem \<Rightarrow> SparseMem \<Rightarrow> bool" where
  "marked state create P sp sp' \<longleftrightarrow> sparse_wf sp' \<and> sp_section_count sp' = sp_section_count sp
     \<and> sp_cached_max_pfn sp' = sp_cached_max_pfn sp
     \<and> present_secs sp' = present_secs sp \<union> (if create then touched (sp_section_count sp) P else {})
     \<and> (\<forall>p. base_frame sp' p =
          (if p \<in> P \<and> p div 32768 \<in> present_secs sp' then (base_frame sp p)\<lparr>f_state := state\<rparr>
           else base_frame sp p))"

lemma present_secs_lt: "sec \<in> present_secs sp \<Longrightarrow> sec < sp_section_count sp"
  by (simp add: present_secs_def)

lemma touched_Un: "touched n (P \<union> Q) = touched n P \<union> touched n Q"
  by (auto simp: touched_def)

lemma touched_mono: "P \<subseteq> Q \<Longrightarrow> touched n P \<subseteq> touched n Q"
  by (auto simp: touched_def)

lemma marked_trans:
  assumes a: "marked state create P sp sp1" and b: "marked state create Q sp1 sp2"
  shows "marked state create (P \<union> Q) sp sp2"
proof -
  have pres: "present_secs sp2 = present_secs sp \<union> (if create then touched (sp_section_count sp) (P \<union> Q) else {})"
    using a b by (auto simp: marked_def touched_Un)
  have fa: "base_frame sp1 p = (if p \<in> P \<and> p div 32768 \<in> present_secs sp1
        then (base_frame sp p)\<lparr>f_state := state\<rparr> else base_frame sp p)"
    and fb: "base_frame sp2 p = (if p \<in> Q \<and> p div 32768 \<in> present_secs sp2
        then (base_frame sp1 p)\<lparr>f_state := state\<rparr> else base_frame sp1 p)" for p
    using a b by (simp_all add: marked_def)
  have same: "p div 32768 \<in> present_secs sp1 \<longleftrightarrow> p div 32768 \<in> present_secs sp2" if "p \<in> P" for p
  proof
    assume in2: "p div 32768 \<in> present_secs sp2"
    have "p div 32768 < sp_section_count sp"
      using present_secs_lt[OF in2] a b by (simp add: marked_def)
    moreover have "p div 32768 \<in> present_secs sp \<or> create"
      using in2 pres by (simp split: if_splits)
    ultimately show "p div 32768 \<in> present_secs sp1"
      using a that by (auto simp: marked_def touched_def split: if_splits)
  qed (use b in \<open>auto simp: marked_def\<close>)
  have fr: "base_frame sp2 p =
      (if p \<in> P \<union> Q \<and> p div 32768 \<in> present_secs sp2 then (base_frame sp p)\<lparr>f_state := state\<rparr>
       else base_frame sp p)" for p
    using same[of p] unfolding fb fa by (auto split: if_splits)
  show ?thesis using a b pres fr by (simp add: marked_def)
qed

lemma div_eq_sec: "(p :: nat) div 32768 = sec \<longleftrightarrow> sec * 32768 \<le> p \<and> p < Suc sec * 32768"
  by auto

lemma mark_chunk_ok:
  assumes wf: "sparse_wf sp" and sec: "sec \<in> present_secs sp" and le: "off + len \<le> 32768"
  shows "\<exists>sp'. mark_chunk sec off len state sp = Some sp'
     \<and> marked state create {sec * 32768 + off ..< sec * 32768 + off + len} sp sp'"
proof -
  let ?s = "sp_sections sp ! sec"
  have s: "sec < length (sp_sections sp)" "length (ms_frames ?s) = 32768"
    using wf sec by (auto simp: sparse_wf_def present_secs_def)
  let ?I = "\<lambda>i t. length t = 32768 \<and> (\<forall>j < 32768. t ! j =
      (if off \<le> j \<and> j < i then (ms_frames ?s ! j)\<lparr>f_state := state\<rparr> else ms_frames ?s ! j))"
  have "\<exists>t. for_each (\<lambda>i fs. do { f \<leftarrow> arr_get fs i; arr_set fs i (f\<lparr>f_state := state\<rparr>) })
      [off..<off + len] (ms_frames ?s) = Some t \<and> ?I (off + len) t"
  proof (rule for_range_inv[where I = ?I])
    fix i t assume i: "off \<le> i" "i < off + len" and I: "?I i t"
    then have "i < 32768" using le by simp
    then show "\<exists>t'. (do { f \<leftarrow> arr_get t i; arr_set t i (f\<lparr>f_state := state\<rparr>) }) = Some t' \<and> ?I (Suc i) t'"
      using I i by (auto simp: nth_list_update less_Suc_eq)
  qed (use s in auto)
  then obtain fs where fs: "for_each (\<lambda>i fs. do { f \<leftarrow> arr_get fs i; arr_set fs i (f\<lparr>f_state := state\<rparr>) })
      [off..<off + len] (ms_frames ?s) = Some fs" "?I (off + len) fs" by blast
  let ?sp = "sp\<lparr>sp_sections := (sp_sections sp)[sec := ?s\<lparr>ms_frames := fs\<rparr>]\<rparr>"
  have run: "mark_chunk sec off len state sp = Some ?sp"
    using s le fs(1) by (simp add: mark_chunk_def)
  have nth: "sp_sections ?sp ! k = (if k = sec then ?s\<lparr>ms_frames := fs\<rparr> else sp_sections sp ! k)" for k
    using s(1) by (simp add: nth_list_update)
  have pres: "present_secs ?sp = present_secs sp"
    unfolding present_secs_def nth using sec by (auto simp: present_secs_def)
  have wf': "sparse_wf ?sp" using wf sec fs(2) unfolding sparse_wf_def pres nth by auto
  have "base_frame ?sp p = (if sec * 32768 + off \<le> p \<and> p < sec * 32768 + off + len \<and> p div 32768 \<in> present_secs sp
      then (base_frame sp p)\<lparr>f_state := state\<rparr> else base_frame sp p)" for p
  proof (cases "p div 32768 = sec")
    case True
    have p: "p = sec * 32768 + p mod 32768" using True by (metis div_mult_mod_eq)
    have "(sec * 32768 + off \<le> p \<and> p < sec * 32768 + off + len) \<longleftrightarrow> off \<le> p mod 32768 \<and> p mod 32768 < off + len"
      using p by linarith
    moreover have "p mod 32768 < 32768" by simp
    ultimately show ?thesis
      using True sec fs(2) unfolding base_frame_def frames_of_def pres nth by simp
  next
    case False
    then have "\<not> (sec * 32768 + off \<le> p \<and> p < sec * 32768 + off + len)"
      using le by (auto simp: div_eq_sec)
    then show ?thesis unfolding base_frame_def frames_of_def pres nth using False by auto
  qed
  moreover have "touched (sp_section_count sp) {sec * 32768 + off ..< sec * 32768 + off + len} \<subseteq> present_secs sp"
  proof -
    have "p div 32768 = sec" if "sec * 32768 + off \<le> p" "p < sec * 32768 + off + len" for p
      using that le by (auto simp: div_eq_sec)
    then show ?thesis using sec by (auto simp: touched_def)
  qed
  ultimately have "marked state create {sec * 32768 + off ..< sec * 32768 + off + len} sp ?sp"
    using wf' pres by (auto simp: marked_def)
  then show ?thesis using run by blast
qed

subsection \<open>Room in the boot arena\<close>

text \<open>The arena can still serve the frame arrays of \<open>k\<close> sections.\<close>

definition room :: "BumpState \<Rightarrow> nat \<Rightarrow> bool" where
  "room bump k \<longleftrightarrow> 0 < bs_next bump \<and> bs_next bump + k * (786432 + 8) \<le> bs_end bump \<and> bs_end bump + 8 \<le> USIZE_MAX"

lemma room_alloc:
  assumes "room bump (Suc k)"
  shows "\<exists>p bump'. bump_alloc_zeroed bump 786432 8 = Some (Some p, bump') \<and> room bump' k"
proof -
  have "\<exists>p. bump_alloc bump 786432 (2 ^ 3) = Some (Some p, bump\<lparr>bs_next := p + 786432\<rparr>)
      \<and> bs_next bump \<le> p \<and> p < bs_next bump + 2 ^ 3"
    using assms by (intro bump_alloc_room) (auto simp: room_def)
  then obtain p where p: "bump_alloc bump 786432 8 = Some (Some p, bump\<lparr>bs_next := p + 786432\<rparr>)"
      "bs_next bump \<le> p" "p < bs_next bump + 8" by auto
  then have "room (bump\<lparr>bs_next := p + 786432\<rparr>) k" using assms by (auto simp: room_def)
  then show ?thesis using p(1) by (simp add: bump_alloc_zeroed_def)
qed

lemma ensure_section_ok:
  assumes wf: "sparse_wf sp" and sec: "sec < sp_section_count sp" and T: "finite T" "sec \<in> T"
    and room: "room bump (card (T - present_secs sp))"
  shows "\<exists>bump' sp'. ensure_section sec (bump, sp) = Some (bump', sp') \<and> sparse_wf sp'
     \<and> sp_section_count sp' = sp_section_count sp \<and> sp_cached_max_pfn sp' = sp_cached_max_pfn sp
     \<and> present_secs sp' = insert sec (present_secs sp) \<and> base_frame sp' = base_frame sp
     \<and> room bump' (card (T - present_secs sp'))"
proof (cases "sec \<in> present_secs sp")
  case True
  then have "ensure_section sec (bump, sp) = Some (bump, sp)"
    using wf by (auto simp: ensure_section_def present_secs_def sparse_wf_def)
  then show ?thesis using True wf room by (auto simp: insert_absorb)
next
  case False
  have lt: "sec < length (sp_sections sp)" and np: "\<not> ms_present (sp_sections sp ! sec)"
    using wf sec False by (auto simp: sparse_wf_def present_secs_def)
  have "T - present_secs sp = insert sec (T - insert sec (present_secs sp))" using False T by auto
  moreover have "sec \<notin> T - insert sec (present_secs sp)" by simp
  ultimately have "card (T - present_secs sp) = Suc (card (T - insert sec (present_secs sp)))"
    using T by (metis card_insert_disjoint finite_Diff)
  then obtain p bump' where al: "bump_alloc_zeroed bump 786432 8 = Some (Some p, bump')"
      "room bump' (card (T - insert sec (present_secs sp)))"
    using room_alloc room by fastforce
  let ?s = "\<lparr>ms_frames = replicate 32768 frame_absent, ms_present = True\<rparr>"
  let ?sp = "sp\<lparr>sp_sections := (sp_sections sp)[sec := ?s], sp_max_present_sec := max sec (sp_max_present_sec sp)\<rparr>"
  have "u_mul PAGES_PER_SECTION SIZEOF_FRAME = Some 786432" "ALIGNOF_PTR = 8"
    by (simp_all add: u_mul_def SIZEOF_FRAME_def ALIGNOF_PTR_def USIZE_MAX_def)
  then have run: "ensure_section sec (bump, sp) = Some (bump', ?sp)"
    using lt np sec al(1) by (simp add: ensure_section_def Let_def)
  have nth: "sp_sections ?sp ! k = (if k = sec then ?s else sp_sections sp ! k)" for k
    using lt by (simp add: nth_list_update)
  have pres: "present_secs ?sp = insert sec (present_secs sp)"
    unfolding present_secs_def nth using sec by (auto simp: present_secs_def)
  have wf': "sparse_wf ?sp"
    using wf sec unfolding sparse_wf_def pres nth by (auto simp: le_max_iff_disj)
  have "base_frame ?sp p = base_frame sp p" for p
    using False unfolding base_frame_def frames_of_def pres nth by auto
  then show ?thesis using run wf' pres al(2) by auto
qed

lemma marked_skip:
  assumes "sparse_wf sp" and "\<And>p. p \<in> P \<Longrightarrow> p div 32768 \<notin> present_secs sp"
    and "create \<Longrightarrow> touched (sp_section_count sp) P = {}"
  shows "marked state create P sp sp"
  using assms by (auto simp: marked_def)

text \<open>Creating a section first makes no difference to what a marking of it leaves.\<close>

lemma marked_ensure:
  assumes "marked state True P sp1 sp2" and "present_secs sp1 = insert sec (present_secs sp)"
    and "base_frame sp1 = base_frame sp" "sp_section_count sp1 = sp_section_count sp"
    "sp_cached_max_pfn sp1 = sp_cached_max_pfn sp" and "sec \<in> touched (sp_section_count sp) P"
  shows "marked state True P sp sp2"
  using assms by (auto simp: marked_def)

lemma mark_loop_ok:
  assumes "sparse_wf sp" and "end_pfn \<le> 2 ^ 52"
    and "create \<Longrightarrow> finite T \<and> touched (sp_section_count sp) {pfn..<end_pfn} \<subseteq> T \<and> room bump (card (T - present_secs sp))"
  shows "\<exists>bump' sp'. mark_loop state create end_pfn pfn (bump, sp) = Some (bump', sp')
     \<and> marked state create {pfn..<end_pfn} sp sp'
     \<and> (if create then room bump' (card (T - present_secs sp')) else bump' = bump)"
  using assms
proof (induction "end_pfn - pfn" arbitrary: pfn bump sp rule: less_induct)
  case less
  define sec where "sec = pfn div 32768"
  show ?case
  proof (cases "pfn < end_pfn \<and> sec < sp_section_count sp")
    case False
    have ge: "sp_section_count sp \<le> p div 32768" if "pfn \<le> p" "p < end_pfn" for p
      using False that div_le_mono[OF that(1), of 32768] by (simp add: sec_def)
    then have "p div 32768 \<notin> present_secs sp" if "p \<in> {pfn..<end_pfn}" for p
      using that present_secs_lt[of "p div 32768" sp] by fastforce
    moreover have "touched (sp_section_count sp) {pfn..<end_pfn} = {}"
      using ge by (force simp: touched_def)
    ultimately have "marked state create {pfn..<end_pfn} sp sp" using less.prems(1) by (intro marked_skip)
    moreover have "mark_loop state create end_pfn pfn (bump, sp) = Some (bump, sp)"
      using False by (subst mark_loop.simps) (auto simp: Let_def sec_def)
    ultimately show ?thesis using less.prems(3) by auto
  next
    case True
    then have lt: "pfn < end_pfn" "sec < sp_section_count sp" by auto
    have cnt: "sec \<le> 2 ^ 37" using lt less.prems(1) by (simp add: sparse_wf_def)
    have b: "section_base_pfn sec = sec * 32768" "section_base_pfn (Suc sec) = Suc sec * 32768"
      using cnt by (simp_all add: section_base_pfn_def)
    have lo: "sec * 32768 \<le> pfn" and hi: "pfn < Suc sec * 32768"
      using div_eq_sec[of pfn sec] by (auto simp: sec_def)
    define e where "e = min end_pfn (Suc sec * 32768)"
    have split: "{pfn..<end_pfn} = {pfn..<e} \<union> {e..<end_pfn}"
      using lt hi by (auto simp: e_def)
    have e: "pfn < e" "e \<le> end_pfn" "e \<le> Suc sec * 32768" using lt hi by (auto simp: e_def)
    have insec: "p div 32768 = sec" if "pfn \<le> p" "p < e" for p
      using that lo e(3) by (subst div_eq_sec) linarith
    have tsec: "sec \<in> touched (sp_section_count sp) {pfn..<e}" using lt e by (auto simp: touched_def sec_def)
    have tsub: "touched (sp_section_count sp) {pfn..<e} \<subseteq> {sec}"
    proof
      fix k assume "k \<in> touched (sp_section_count sp) {pfn..<e}"
      then obtain p where "pfn \<le> p" "p < e" "p div 32768 = k" by (auto simp: touched_def)
      then show "k \<in> {sec}" using insec by simp
    qed
    obtain bump1 sp1 where en: "(if create then ensure_section sec (bump, sp) else Some (bump, sp)) = Some (bump1, sp1)"
      and wf1: "sparse_wf sp1" and c1: "sp_section_count sp1 = sp_section_count sp"
      and m1: "sp_cached_max_pfn sp1 = sp_cached_max_pfn sp" and bf1: "base_frame sp1 = base_frame sp"
      and p1: "present_secs sp1 = (if create then insert sec (present_secs sp) else present_secs sp)"
      and r1: "if create then room bump1 (card (T - present_secs sp1)) else bump1 = bump"
    proof (cases create)
      case create: True
      have "touched (sp_section_count sp) {pfn..<end_pfn} \<subseteq> T" using less.prems(3)[OF create] by blast
      then have "sec \<in> T" using tsec unfolding split touched_Un by blast
      then show ?thesis
        using that ensure_section_ok[OF less.prems(1) lt(2), of T bump] less.prems(3) create by auto
    qed (use that less.prems(1) in auto)
    have get: "arr_get (sp_sections sp1) sec = Some (sp_sections sp1 ! sec)"
      using lt(2) c1 wf1 by (simp add: sparse_wf_def)
    have rec: "\<exists>bump' sp'. mark_loop state create end_pfn e (bump1, sp2) = Some (bump', sp')
        \<and> marked state create {e..<end_pfn} sp2 sp'
        \<and> (if create then room bump' (card (T - present_secs sp')) else bump' = bump1)"
      if "sparse_wf sp2" "present_secs sp2 = present_secs sp1" "sp_section_count sp2 = sp_section_count sp" for sp2
    proof (rule less.hyps)
      show "end_pfn - e < end_pfn - pfn" using e by linarith
      show "create \<Longrightarrow> finite T \<and> touched (sp_section_count sp2) {e..<end_pfn} \<subseteq> T \<and> room bump1 (card (T - present_secs sp2))"
        using less.prems(3) r1 that touched_mono[of "{e..<end_pfn}" "{pfn..<end_pfn}" "sp_section_count sp"] e by auto
    qed (use that less.prems(2) in auto)
    show ?thesis
    proof (cases "sec \<in> present_secs sp1")
      case False
      then have nc: "\<not> create" using p1 by (cases create) simp_all
      have np: "\<not> ms_present (sp_sections sp1 ! sec)" using False lt(2) c1 by (simp add: present_secs_def)
      have same: "sp1 = sp" "bump1 = bump" using en nc by auto
      have "mark_loop state create end_pfn pfn (bump, sp) = mark_loop state create end_pfn e (bump, sp)"
        using lt nc np get cnt unfolding same
        by (subst mark_loop.simps) (simp add: Let_def b USIZE_MAX_def e_def flip: sec_def)
      moreover have "marked state create {pfn..<e} sp sp"
      proof (rule marked_skip[OF less.prems(1)])
        show "p div 32768 \<notin> present_secs sp" if "p \<in> {pfn..<e}" for p
          using insec[of p] that False same(1) by simp
      qed (simp add: nc)
      ultimately show ?thesis
        using rec[of sp] marked_trans[of state create "{pfn..<e}" sp sp "{e..<end_pfn}"] e less.prems(1) same unfolding split by fastforce
    next
      case present: True
      let ?len = "e - pfn" and ?off = "pfn - sec * 32768"
      obtain sp2 where ch: "mark_chunk sec ?off ?len state sp1 = Some sp2"
          "marked state create {sec * 32768 + ?off ..< sec * 32768 + ?off + ?len} sp1 sp2"
      proof -
        have "?off + ?len \<le> 32768" using lo e by simp
        then show ?thesis using mark_chunk_ok[OF wf1 present] that by blast
      qed
      have mk: "marked state create {pfn..<e} sp1 sp2" using ch(2) lo e by simp
      have mk0: "marked state create {pfn..<e} sp sp2"
      proof (cases create)
        case True
        then show ?thesis using marked_ensure[of state "{pfn..<e}" sp1 sp2 sec sp] mk p1 bf1 c1 m1 tsec by simp
      next
        case False
        then show ?thesis using mk en by auto
      qed
      have p2: "present_secs sp2 = present_secs sp1" "sp_section_count sp2 = sp_section_count sp" "sparse_wf sp2"
        using mk tsub present c1 by (auto simp: marked_def)
      have pm: "ms_present (sp_sections sp1 ! sec)" using present by (simp add: present_secs_def)
      have add: "u_add (sec * 32768) 32768 = Some (Suc sec * 32768)"
        using cnt by (simp add: u_add_def USIZE_MAX_def)
      have step: "mark_loop state create end_pfn pfn (bump, sp) = mark_loop state create end_pfn e (bump1, sp2)"
        using lt en get pm lo e ch(1)
        by (subst mark_loop.simps) (simp add: Let_def b add e_def flip: sec_def)
      show ?thesis
        unfolding step split using rec[OF p2(3,1,2)] marked_trans[OF mk0] e r1 en by (fastforce split: if_splits)
    qed
  qed
qed

subsection \<open>Marking the regions of a memblock\<close>

definition page_addrs :: "Pfn \<Rightarrow> nat set" where
  "page_addrs p = {p * 4096 ..< Suc p * 4096}"

definition pages_of :: "nat set \<Rightarrow> Pfn set" where
  "pages_of A = {p. page_addrs p \<inter> A \<noteq> {}}"

lemma pages_of_iff: "p \<in> pages_of A \<longleftrightarrow> (\<exists>x \<in> A. x div 4096 = p)"
proof -
  have "x \<in> page_addrs p \<longleftrightarrow> x div 4096 = p" for x by (auto simp: page_addrs_def)
  then show ?thesis by (auto simp: pages_of_def)
qed

lemma pages_of_simps [simp]: "pages_of {} = {}" "pages_of (A \<union> B) = pages_of A \<union> pages_of B"
  by (auto simp: pages_of_def)

lemma pages_of_range:
  assumes "b < e"
  shows "pages_of {b..<e} = {b div 4096 ..< (e + 4095) div 4096}"
proof (rule set_eqI)
  fix p
  have "p \<in> pages_of {b..<e} \<longleftrightarrow> (\<exists>x. b \<le> x \<and> x < e \<and> p * 4096 \<le> x \<and> x < Suc p * 4096)"
    unfolding pages_of_def page_addrs_def
    by (simp only: mem_Collect_eq ex_in_conv[symmetric] Int_iff atLeastLessThan_iff) blast
  also have "\<dots> \<longleftrightarrow> b < Suc p * 4096 \<and> p * 4096 < e"
  proof
    assume "b < Suc p * 4096 \<and> p * 4096 < e"
    then show "\<exists>x. b \<le> x \<and> x < e \<and> p * 4096 \<le> x \<and> x < Suc p * 4096"
      using assms by (intro exI[of _ "max b (p * 4096)"]) auto
  qed auto
  also have "\<dots> \<longleftrightarrow> b div 4096 \<le> p \<and> p < (e + 4095) div 4096"
  proof -
    have "b < Suc p * 4096 \<longleftrightarrow> b div 4096 \<le> p"
      using div_less_iff_less_mult[of 4096 b "Suc p"] by (simp only: less_Suc_eq_le)
    moreover have "p < (e + 4095) div 4096 \<longleftrightarrow> Suc p * 4096 \<le> e + 4095"
      using less_eq_div_iff_mult_less_eq[of 4096 "Suc p" "e + 4095"] by (simp only: Suc_le_eq)
    moreover have "Suc p * 4096 \<le> e + 4095 \<longleftrightarrow> p * 4096 < e" by auto
    ultimately show ?thesis by blast
  qed
  finally show "p \<in> pages_of {b..<e} \<longleftrightarrow> p \<in> {b div 4096 ..< (e + 4095) div 4096}" by simp
qed

lemma mark_range_ok:
  assumes "sparse_wf sp" and "b < e" and "e \<le> 2 ^ 52"
    and "create \<Longrightarrow> finite T \<and> touched (sp_section_count sp) (pages_of {b..<e}) \<subseteq> T \<and> room bump (card (T - present_secs sp))"
  shows "\<exists>bump' sp'. mark_range b e state create (bump, sp) = Some (bump', sp')
     \<and> marked state create (pages_of {b..<e}) sp sp'
     \<and> (if create then room bump' (card (T - present_secs sp')) else bump' = bump)"
proof -
  have "(e + 4095) div 4096 \<le> 2 ^ 52" using assms(3) by simp
  moreover have "mark_range b e state create (bump, sp) = mark_loop state create ((e + 4095) div 4096) (b div 4096) (bump, sp)"
    using assms(2,3) by (simp add: mark_range_def u_add_def USIZE_MAX_def add.commute)
  ultimately show ?thesis
    using mark_loop_ok[OF assms(1), of "(e + 4095) div 4096" create T "b div 4096" bump state] assms(4)
    unfolding pages_of_range[OF assms(2)] by auto
qed

lemma mark_regions_ok:
  assumes "sparse_wf sp" and "regions_ok K rs" and "coverage rs \<subseteq> {..<2 ^ 52}"
    and "create \<Longrightarrow> finite T \<and> touched (sp_section_count sp) (pages_of (coverage rs)) \<subseteq> T
           \<and> room bump (card (T - present_secs sp))"
    and skip: "\<And>r. r \<in> set rs \<Longrightarrow> \<not> skip r"
  shows "\<exists>bump' sp'. for_each (\<lambda>r st. if skip r then Some st
             else mark_range (mr_base r) (region_end r) state create st) rs (bump, sp) = Some (bump', sp')
     \<and> marked state create (pages_of (coverage rs)) sp sp'
     \<and> (if create then room bump' (card (T - present_secs sp')) else bump' = bump)"
  using assms
proof (induction rs arbitrary: bump sp)
  case Nil
  then show ?case by (auto intro: marked_skip simp: touched_def)
next
  case (Cons r rs)
  have r: "region_ok r" "0 < mr_size r" using Cons.prems(2) by (auto simp: regions_ok_def)
  have lt: "mr_base r < region_end r" using r by (simp add: region_end_ok)
  have le: "region_end r \<le> 2 ^ 52" using region_end_le_coverage(1)[OF Cons.prems(2,3)] by simp
  have A: "region_addrs r = {mr_base r..<region_end r}" by (simp add: region_addrs_def)
  have cr: "finite T \<and> touched (sp_section_count sp) (pages_of {mr_base r..<region_end r}) \<subseteq> T
      \<and> touched (sp_section_count sp) (pages_of (coverage rs)) \<subseteq> T \<and> room bump (card (T - present_secs sp))"
    if create using Cons.prems(4)[OF that] by (simp add: A touched_Un)
  obtain bump1 sp1 where s1: "mark_range (mr_base r) (region_end r) state create (bump, sp) = Some (bump1, sp1)"
      "marked state create (pages_of {mr_base r..<region_end r}) sp sp1"
      "if create then room bump1 (card (T - present_secs sp1)) else bump1 = bump"
    using mark_range_ok[OF Cons.prems(1) lt le, of create T bump state] cr by auto
  have wf1: "sparse_wf sp1" and c1: "sp_section_count sp1 = sp_section_count sp" using s1(2) by (simp_all add: marked_def)
  have "\<exists>bump' sp'. for_each (\<lambda>r st. if skip r then Some st
             else mark_range (mr_base r) (region_end r) state create st) rs (bump1, sp1) = Some (bump', sp')
     \<and> marked state create (pages_of (coverage rs)) sp1 sp'
     \<and> (if create then room bump' (card (T - present_secs sp')) else bump' = bump1)"
    using Cons.prems(2,3,5) wf1 c1 cr s1(3) by (intro Cons.IH) auto
  then obtain bump2 sp2 where s2: "for_each (\<lambda>r st. if skip r then Some st
             else mark_range (mr_base r) (region_end r) state create st) rs (bump1, sp1) = Some (bump2, sp2)"
      "marked state create (pages_of (coverage rs)) sp1 sp2"
      "if create then room bump2 (card (T - present_secs sp2)) else bump2 = bump1" by blast
  have "marked state create (pages_of (coverage (r # rs))) sp sp2"
    using marked_trans[OF s1(2) s2(2)] by (simp add: A)
  moreover have "\<not> skip r" using Cons.prems(5) by simp
  ultimately show ?case using s1 s2 by (auto split: if_splits)
qed

subsection \<open>The highest present page\<close>

lemma last_present_None: "last_present fs = None \<longleftrightarrow> (\<forall>i < length fs. f_state (fs ! i) = Absent)"
  by (auto simp: last_present_def find_None_iff)

lemma last_present_Some:
  assumes "last_present fs = Some i"
  shows "i < length fs" "f_state (fs ! i) \<noteq> Absent" "\<And>j. i < j \<Longrightarrow> j < length fs \<Longrightarrow> f_state (fs ! j) = Absent"
proof -
  obtain k where k: "k < length fs" "f_state (fs ! i) \<noteq> Absent" "i = rev [0..<length fs] ! k"
      "\<And>j. j < k \<Longrightarrow> f_state (fs ! (rev [0..<length fs] ! j)) = Absent"
    using assms by (auto simp: last_present_def find_Some_iff)
  have i: "i = length fs - Suc k" using k(1,3) by (simp add: rev_nth)
  show "i < length fs" "f_state (fs ! i) \<noteq> Absent" using k(1,2) i by auto
  show "f_state (fs ! j) = Absent" if "i < j" "j < length fs" for j
    using k(4)[of "length fs - Suc j"] that i by (simp add: rev_nth)
qed

lemma frames_of_section:
  assumes "sec \<in> present_secs sp" "i < 32768"
  shows "frames_of sp (sec * 32768 + i) = Some (ms_frames (sp_sections sp ! sec) ! i)"
proof -
  have "(sec * 32768 + i) div 32768 = sec" "(sec * 32768 + i) mod 32768 = i" using assms(2) by auto
  then show ?thesis using assms(1) by (simp add: frames_of_def)
qed

definition nonabsent :: "SparseMem \<Rightarrow> Pfn \<Rightarrow> bool" where
  "nonabsent sp p \<longleftrightarrow> (\<exists>f. frames_of sp p = Some f \<and> f_state f \<noteq> Absent)"

definition max_pfn_ok :: "SparseMem \<Rightarrow> Pfn \<Rightarrow> bool" where
  "max_pfn_ok sp mx \<longleftrightarrow> (\<forall>p. nonabsent sp p \<longrightarrow> p < mx) \<and> (mx = 0 \<or> nonabsent sp (mx - 1))"

lemma compute_max_present_pfn_ok:
  assumes wf: "sparse_wf sp"
  shows "\<exists>mx. compute_max_present_pfn sp = Some mx \<and> max_pfn_ok sp mx \<and> mx \<le> sp_section_count sp * 32768"
proof -
  let ?n = "sp_section_count sp"
  let ?I = "\<lambda>sec mx. (\<forall>p. nonabsent sp p \<longrightarrow> p div 32768 < sec \<longrightarrow> p < mx) \<and> (mx = 0 \<or> nonabsent sp (mx - 1)) \<and> mx \<le> sec * 32768"
  have "\<exists>mx. compute_max_present_pfn sp = Some mx \<and> ?I ?n mx"
    unfolding compute_max_present_pfn_def
  proof (rule for_range_inv[where I = ?I])
    fix sec mx assume sec: "sec < ?n" and I: "?I sec mx"
    let ?s = "sp_sections sp ! sec"
    have get: "arr_get (sp_sections sp) sec = Some ?s" using sec wf by (simp add: sparse_wf_def)
    have bound: "sec \<le> 2 ^ 37" using sec wf by (simp add: sparse_wf_def)
    let ?goal = "\<lambda>r. \<exists>t'. r = Some t' \<and> ?I (Suc sec) t'"
    have base: "p < sec * 32768" if "p < mx" for p using I that by linarith
    show "?goal (do { s \<leftarrow> arr_get (sp_sections sp) sec;
       if \<not> ms_present s then Some mx
       else do {
         rassert (length (ms_frames s) = PAGES_PER_SECTION);
         (case last_present (ms_frames s) of
            None \<Rightarrow> Some mx
          | Some i \<Rightarrow> do {
              a \<leftarrow> u_add (section_base_pfn sec) i;
              pfn \<leftarrow> u_add a 1;
              Some (if pfn > mx then pfn else mx)
            })
       } })"
    proof (cases "sec \<in> present_secs sp")
      case False
      then have "\<not> ms_present ?s" using sec by (simp add: present_secs_def)
      moreover have "p div 32768 < sec" if "nonabsent sp p" "p div 32768 < Suc sec" for p
        using that False by (auto simp: nonabsent_def frames_of_def less_Suc_eq split: if_splits)
      ultimately show ?thesis using get I by auto
    next
      case True
      have pr: "ms_present ?s" "length (ms_frames ?s) = 32768" using True wf by (auto simp: sparse_wf_def present_secs_def)
      have insec: "p = sec * 32768 + p mod 32768" if "p div 32768 = sec" for p using that by (metis div_mult_mod_eq)
      have fr: "f_state (ms_frames ?s ! (p mod 32768)) \<noteq> Absent" if "p div 32768 = sec" "nonabsent sp p" for p
        using that True by (auto simp: nonabsent_def frames_of_def)
      show ?thesis
      proof (cases "last_present (ms_frames ?s)")
        case None
        then have "p div 32768 < sec" if "nonabsent sp p" "p div 32768 < Suc sec" for p
          using that fr[of p] pr(2) by (auto simp: last_present_None less_Suc_eq)
        then show ?thesis using get pr None I by auto
      next
        case (Some i)
        note lp = last_present_Some[OF Some]
        let ?m = "sec * 32768 + i + 1"
        have i: "i < 32768" using lp(1) pr(2) by simp
        have "u_add (section_base_pfn sec) i = Some (sec * 32768 + i)" "u_add (sec * 32768 + i) 1 = Some ?m"
          using bound i by (auto simp: section_base_pfn_eq u_add_def USIZE_MAX_def)
        moreover have "mx < ?m" using I by linarith
        moreover have "nonabsent sp (sec * 32768 + i)"
          using frames_of_section[OF True i] lp(2) by (simp add: nonabsent_def)
        moreover have "p < ?m" if "nonabsent sp p" "p div 32768 < Suc sec" for p
        proof (cases "p div 32768 = sec")
          case True
          have "\<not> i < p mod 32768" using lp(3)[of "p mod 32768"] fr[OF True that(1)] pr(2) by auto
          then show ?thesis using insec[OF True] by linarith
        next
          case False
          then show ?thesis using I that base by fastforce
        qed
        ultimately show ?thesis using get pr Some i by auto
      qed
    qed
  qed auto
  then obtain mx where mx: "compute_max_present_pfn sp = Some mx" "?I ?n mx" by blast
  have "p div 32768 < ?n" if "nonabsent sp p" for p
    using that present_secs_lt by (auto simp: nonabsent_def frames_of_def split: if_splits)
  then show ?thesis using mx by (auto simp: max_pfn_ok_def)
qed

subsection \<open>The section table that boot builds\<close>

definition sections_of :: "nat set \<Rightarrow> nat set" where
  "sections_of A = (\<lambda>x. x div 134217728) ` A"

definition boot_state :: "nat set \<Rightarrow> nat set \<Rightarrow> Pfn \<Rightarrow> FrameState" where
  "boot_state mem res p =
     (if p \<in> pages_of res then Reserved else if p \<in> pages_of mem then Usable else Absent)"

text \<open>The frames that boot leaves for the usable memory \<open>mem\<close> and the reserved memory \<open>res\<close>.\<close>

definition boot_frames :: "nat set \<Rightarrow> nat set \<Rightarrow> SparseMem \<Rightarrow> bool" where
  "boot_frames mem res sp \<longleftrightarrow> present_secs sp = sections_of mem
     \<and> (\<forall>p. frames_of sp p = (if p div 32768 \<in> sections_of mem
            then Some (frame_absent\<lparr>f_state := boot_state mem res p\<rparr>) else None))"

lemma touched_pages:
  assumes "sections_of A \<subseteq> {..<n}"
  shows "touched n (pages_of A) = sections_of A"
proof -
  have "x div 4096 div 32768 = x div 134217728" for x :: nat by (simp add: div_mult2_eq[symmetric])
  moreover have "pages_of A = (\<lambda>x. x div 4096) ` A" by (auto simp: pages_of_iff)
  ultimately show ?thesis using assms by (auto simp: touched_def sections_of_def)
qed

lemma max_phys_addr_eq: "max_phys_addr mb = Max (insert 0 (region_end ` set (all_memory_regions mb)))"
proof -
  have "fold max xs a = Max (insert a (set xs))" for xs and a :: nat
  proof (induction xs arbitrary: a)
    case (Cons x xs)
    have "Max (insert (max x a) (set xs)) = Max (insert a (insert x (set xs)))"
      by (cases "xs = []") (simp_all add: max.assoc max.commute max.left_commute)
    then show ?case using Cons by (simp add: insert_commute)
  qed simp
  then show ?thesis by (simp add: max_phys_addr_def)
qed

lemma max_phys_addr_bounds:
  assumes "regions_ok K (all_memory_regions mb)" and "coverage (all_memory_regions mb) \<subseteq> {..<B}"
  shows "coverage (all_memory_regions mb) \<subseteq> {..<max_phys_addr mb}" "max_phys_addr mb \<le> B"
    "max_phys_addr mb = 0 \<or> max_phys_addr mb - 1 \<in> coverage (all_memory_regions mb)"
proof -
  let ?E = "insert 0 (region_end ` set (all_memory_regions mb))"
  have fin: "finite ?E" "?E \<noteq> {}" by auto
  show "coverage (all_memory_regions mb) \<subseteq> {..<max_phys_addr mb}"
  proof
    fix x assume "x \<in> coverage (all_memory_regions mb)"
    then obtain r where r: "r \<in> set (all_memory_regions mb)" "x < region_end r"
      by (auto simp: coverage_def region_addrs_def)
    then have "region_end r \<le> Max ?E" by (intro Max_ge) auto
    then show "x \<in> {..<max_phys_addr mb}" using r(2) by (simp add: max_phys_addr_eq)
  qed
  show "max_phys_addr mb \<le> B"
    using region_end_le_coverage(1)[OF assms] fin by (auto simp: max_phys_addr_eq)
  have "Max ?E \<in> ?E" using fin by (rule Max_in)
  then consider "Max ?E = 0" | r where "r \<in> set (all_memory_regions mb)" "Max ?E = region_end r" by auto
  then show "max_phys_addr mb = 0 \<or> max_phys_addr mb - 1 \<in> coverage (all_memory_regions mb)"
  proof cases
    case 2
    then have "region_ok r" "0 < mr_size r" using assms(1) by (auto simp: regions_ok_def)
    then have "region_end r - 1 \<in> region_addrs r" by (auto simp: region_addrs_def region_end_ok)
    then show ?thesis using 2 by (auto simp: max_phys_addr_eq coverage_def)
  qed (simp add: max_phys_addr_eq)
qed

lemma replicate_empty_wf:
  assumes "n \<le> 2 ^ 37"
  shows "sparse_wf (sparse_empty\<lparr>sp_sections := replicate n memsection_empty, sp_section_count := n\<rparr>)" (is "sparse_wf ?sp")
    and "present_secs (sparse_empty\<lparr>sp_sections := replicate n memsection_empty, sp_section_count := n\<rparr>) = {}"
    and "base_frame (sparse_empty\<lparr>sp_sections := replicate n memsection_empty, sp_section_count := n\<rparr>) = (\<lambda>_. frame_absent)"
proof -
  show p: "present_secs ?sp = {}" by (auto simp: present_secs_def memsection_empty_def)
  show "sparse_wf ?sp" using assms unfolding sparse_wf_def p by (auto simp: sparse_empty_def)
  show "base_frame ?sp = (\<lambda>_. frame_absent)" unfolding base_frame_def frames_of_def p by auto
qed

lemma bump_sections:
  assumes "0 < bs_next bump" "0 < n" "bs_next bump + (16 * n + 8) + k * (786432 + 8) \<le> bs_end bump" "bs_end bump + 8 \<le> USIZE_MAX"
  shows "\<exists>p bump'. bump_alloc_zeroed bump (n * 16) 8 = Some (Some p, bump') \<and> room bump' k"
proof -
  have "\<exists>p. bump_alloc bump (n * 16) (2 ^ 3) = Some (Some p, bump\<lparr>bs_next := p + n * 16\<rparr>)
      \<and> bs_next bump \<le> p \<and> p < bs_next bump + 2 ^ 3"
    using assms by (intro bump_alloc_room) auto
  then obtain p where p: "bump_alloc bump (n * 16) 8 = Some (Some p, bump\<lparr>bs_next := p + n * 16\<rparr>)"
      "bs_next bump \<le> p" "p < bs_next bump + 8" by auto
  then have "room (bump\<lparr>bs_next := p + n * 16\<rparr>) k" using assms by (auto simp: room_def)
  then show ?thesis using p(1) by (simp add: bump_alloc_zeroed_def)
qed

lemma init_from_memblock_ok:
  assumes wf: "mb_wf mb"
    and cov: "coverage (memory_regions mb) \<subseteq> coverage (all_memory_regions mb)"
      "coverage (all_memory_regions mb) \<subseteq> {..<2 ^ 52}" "coverage (reserved_regions mb) \<subseteq> {..<2 ^ 52}"
    and pos: "0 < max_phys_addr mb" "0 < bs_next bump" "bs_end bump + 8 \<le> USIZE_MAX"
    and fits: "bs_next bump + (16 * section_count_from_max_phys (max_phys_addr mb) + 8)
        + card (sections_of (coverage (memory_regions mb))) * (786432 + 8) \<le> bs_end bump"
  shows "\<exists>bump' sp. init_from_memblock bump mb sparse_empty = Some (bump', sp) \<and> sparse_wf sp
     \<and> sp_section_count sp = section_count_from_max_phys (max_phys_addr mb)
     \<and> boot_frames (coverage (memory_regions mb)) (coverage (reserved_regions mb)) sp
     \<and> max_pfn_ok sp (sp_cached_max_pfn sp)"
proof -
  let ?mem = "coverage (memory_regions mb)" and ?res = "coverage (reserved_regions mb)"
  define n where "n = section_count_from_max_phys (max_phys_addr mb)"
  have ok: "regions_ok usable_kind (memory_regions mb)" "regions_ok is_reserved_kind (reserved_regions mb)"
      "regions_ok usable_kind (all_memory_regions mb)" using wf by (auto simp: mb_wf_def)
  note mp = max_phys_addr_bounds[OF ok(3) cov(2)]
  have n: "n = (max_phys_addr mb - 1) div 134217728 + 1" using pos by (simp add: n_def section_count_from_max_phys_def)
  have n_le: "n \<le> 2 ^ 37" "0 < n" using mp(2) unfolding n by simp_all
  have secs: "sections_of ?mem \<subseteq> {..<n}"
  proof
    fix sec assume "sec \<in> sections_of ?mem"
    then obtain x where x: "x \<in> ?mem" "sec = x div 134217728" by (auto simp: sections_of_def)
    then have "x \<le> max_phys_addr mb - 1" using cov(1) mp(1) by fastforce
    then show "sec \<in> {..<n}" unfolding n x(2) using div_le_mono by (simp add: less_Suc_eq_le)
  qed
  then have fin: "finite (sections_of ?mem)" by (rule finite_subset) simp
  define sp1 where "sp1 = sparse_empty\<lparr>sp_sections := replicate n memsection_empty, sp_section_count := n\<rparr>"
  have s1: "sparse_wf sp1" "present_secs sp1 = {}" "base_frame sp1 = (\<lambda>_. frame_absent)" "sp_section_count sp1 = n"
    using replicate_empty_wf[OF n_le(1)] by (simp_all add: sp1_def)
  obtain p bump1 where b1: "bump_alloc_zeroed bump (n * 16) 8 = Some (Some p, bump1)"
      "room bump1 (card (sections_of ?mem))"
    using bump_sections[OF pos(2) n_le(2) fits[folded n_def] pos(3)] by blast
  have "\<exists>bump' sp'. for_each (\<lambda>r st. if mr_kind r \<noteq> MemblockType.Usable \<or> mr_size r = 0 then Some st
         else mark_range (mr_base r) (region_end r) Usable True st) (memory_regions mb) (bump1, sp1) = Some (bump', sp')
      \<and> marked Usable True (pages_of ?mem) sp1 sp'
      \<and> (if True then room bump' (card (sections_of ?mem - present_secs sp')) else bump' = bump1)"
    using s1 ok(1) cov(1,2) b1 fin touched_pages[OF secs]
    by (intro mark_regions_ok[where K = usable_kind]) (auto simp: regions_ok_def)
  then obtain bump2 sp2 where s2: "for_each (\<lambda>r st. if mr_kind r \<noteq> MemblockType.Usable \<or> mr_size r = 0 then Some st
         else mark_range (mr_base r) (region_end r) Usable True st) (memory_regions mb) (bump1, sp1) = Some (bump2, sp2)"
      "marked Usable True (pages_of ?mem) sp1 sp2" by auto
  have wf2: "sparse_wf sp2" using s2(2) by (simp add: marked_def)
  have "\<exists>bump' sp'. for_each (\<lambda>r st. if mr_size r = 0 then Some st
         else mark_range (mr_base r) (region_end r) Reserved False st) (reserved_regions mb) (bump2, sp2) = Some (bump', sp')
      \<and> marked Reserved False (pages_of ?res) sp2 sp'
      \<and> (if False then room bump' (card ({} - present_secs sp')) else bump' = bump2)"
    using wf2 ok(2) cov(3) by (intro mark_regions_ok[where K = is_reserved_kind]) (auto simp: regions_ok_def)
  then obtain sp3 where s3: "for_each (\<lambda>r st. if mr_size r = 0 then Some st
         else mark_range (mr_base r) (region_end r) Reserved False st) (reserved_regions mb) (bump2, sp2) = Some (bump2, sp3)"
      "marked Reserved False (pages_of ?res) sp2 sp3" by auto
  have wf3: "sparse_wf sp3" using s3(2) by (simp add: marked_def)
  obtain mx where mx: "compute_max_present_pfn sp3 = Some mx" "max_pfn_ok sp3 mx"
    using compute_max_present_pfn_ok[OF wf3] by blast
  let ?sp = "sp3\<lparr>sp_cached_max_pfn := mx\<rparr>"
  have "u_mul n SIZEOF_MEMSECTION = Some (n * 16)" "ALIGNOF_PTR = 8" "\<not> is_initialized sparse_empty"
    using n_le by (simp_all add: u_mul_def sparse_consts USIZE_MAX_def is_initialized_def sparse_empty_def)
  then have run: "init_from_memblock bump mb sparse_empty = Some (bump2, ?sp)"
    using pos b1(1) s2(1) s3(1) mx(1)
    by (simp add: init_from_memblock_def Let_def flip: n_def sp1_def)
  have view: "present_secs ?sp = present_secs sp3" "frames_of ?sp = frames_of sp3"
    by (auto simp: present_secs_def frames_of_def fun_eq_iff)
  have pres: "present_secs sp3 = sections_of ?mem"
    using s2(2) s3(2) s1 touched_pages[OF secs] by (simp add: marked_def)
  have "frames_of sp3 p = (if p div 32768 \<in> sections_of ?mem
            then Some (frame_absent\<lparr>f_state := boot_state ?mem ?res p\<rparr>) else None)" for p
  proof -
    have "base_frame sp3 p = (if p \<in> pages_of ?res \<and> p div 32768 \<in> sections_of ?mem then (base_frame sp2 p)\<lparr>f_state := Reserved\<rparr> else base_frame sp2 p)"
      using s3(2) pres by (simp add: marked_def)
    moreover have "base_frame sp2 p = (if p \<in> pages_of ?mem \<and> p div 32768 \<in> sections_of ?mem then frame_absent\<lparr>f_state := Usable\<rparr> else frame_absent)"
      using s2(2) s1 touched_pages[OF secs] by (simp add: marked_def)
    moreover have "frame_absent\<lparr>f_state := Absent\<rparr> = frame_absent" by (simp add: frame_absent_def)
    ultimately have "base_frame sp3 p = frame_absent\<lparr>f_state := boot_state ?mem ?res p\<rparr>" if "p div 32768 \<in> sections_of ?mem"
      using that by (simp add: boot_state_def)
    then show ?thesis using pres by (auto simp: base_frame_def frames_of_def)
  qed
  then have "boot_frames ?mem ?res ?sp" using pres unfolding boot_frames_def view by simp
  moreover have "sparse_wf ?sp" using wf3 unfolding sparse_wf_def view by simp
  moreover have "max_pfn_ok ?sp (sp_cached_max_pfn ?sp)" using mx(2) by (simp add: max_pfn_ok_def nonabsent_def view)
  moreover have "sp_section_count ?sp = n" using s2(2) s3(2) s1(4) by (simp add: marked_def)
  ultimately show ?thesis using run n_def by blast
qed

subsection \<open>Counting the sections to create\<close>

text \<open>The section numbers that a bit table holds.\<close>

definition bit_table :: "u64 list \<Rightarrow> nat set" where
  "bit_table ws = {sec. sec < 64 * length ws \<and> bit (ws ! (sec div 64)) (sec mod 64)}"

lemma count_ones_card: "count_ones w = card {i. i < 64 \<and> bit w i}"
proof -
  have "count_ones w = card ({i. bit w i} \<inter> set [0..<64])"
    unfolding count_ones_def by (rule distinct_length_filter) simp
  also have "{i. bit w i} \<inter> set [0..<64] = {i. i < 64 \<and> bit w i}" by auto
  finally show ?thesis .
qed

lemma bit_table_snoc:
  "bit_table (ws @ [w]) = bit_table ws \<union> (\<lambda>i. 64 * length ws + i) ` {i. i < 64 \<and> bit w i}"
proof (rule set_eqI)
  fix sec
  show "sec \<in> bit_table (ws @ [w]) \<longleftrightarrow> sec \<in> bit_table ws \<union> (\<lambda>i. 64 * length ws + i) ` {i. i < 64 \<and> bit w i}"
  proof (cases "sec < 64 * length ws")
    case True
    then have "sec div 64 < length ws" by simp
    then show ?thesis using True by (auto simp: bit_table_def nth_append)
  next
    case False
    then obtain i where i: "sec = 64 * length ws + i" by (metis le_add_diff_inverse not_less)
    have "sec \<in> bit_table (ws @ [w]) \<longleftrightarrow> i < 64 \<and> bit w i"
      unfolding i by (auto simp: bit_table_def nth_append)
    then show ?thesis using False i by (auto simp: bit_table_def)
  qed
qed

lemma sum_count_ones: "sum_list (map count_ones ws) = card (bit_table ws)"
proof (induction ws rule: rev_induct)
  case Nil
  then show ?case by (simp add: bit_table_def)
next
  case (snoc w ws)
  let ?new = "(\<lambda>i. 64 * length ws + i) ` {i. i < 64 \<and> bit w i}"
  have "card ?new = count_ones w" by (simp add: card_image count_ones_card)
  moreover have "finite (bit_table ws)" "finite ?new" "bit_table ws \<inter> ?new = {}" by (auto simp: bit_table_def)
  ultimately show ?case using snoc by (simp add: bit_table_snoc card_Un_disjoint)
qed

lemma MAX_SECTIONS_eq [simp]: "MAX_SECTIONS = 4096" "SECTION_WORDS = 64"
  by (simp_all add: MAX_SECTIONS_def SECTION_WORDS_def)

lemma set_section_bit_ok:
  assumes "length ws = 64"
  shows "\<exists>ws'. set_section_bit sec ws = Some ws' \<and> length ws' = 64 \<and> bit_table ws' = bit_table ws \<union> ({sec} \<inter> {..<4096})"
proof (cases "sec < 4096")
  case True
  let ?w = "ws ! (sec div 64) OR push_bit (sec mod 64) 1"
  have lt: "sec div 64 < length ws" using True assms by simp
  have b: "bit ?w i \<longleftrightarrow> bit (ws ! (sec div 64)) i \<or> i = sec mod 64" if "i < 64" for i
    using that by (auto simp: bit_simps)
  have "k \<in> bit_table (ws[sec div 64 := ?w]) \<longleftrightarrow> k \<in> bit_table ws \<union> ({sec} \<inter> {..<4096})" for k
  proof (cases "k div 64 = sec div 64")
    case eq: True
    have "k = sec \<longleftrightarrow> k mod 64 = sec mod 64" using eq by (metis div_mult_mod_eq)
    then show ?thesis using eq lt True assms b[of "k mod 64"] by (auto simp: bit_table_def)
  next
    case False
    then show ?thesis by (auto simp: bit_table_def)
  qed
  then have "bit_table (ws[sec div 64 := ?w]) = bit_table ws \<union> ({sec} \<inter> {..<4096})" by blast
  then show ?thesis using True lt assms by (simp add: set_section_bit_def)
qed (use assms in \<open>simp add: set_section_bit_def\<close>)

lemma for_set_section_bit_ok:
  assumes "length ws = 64"
  shows "\<exists>ws'. for_each set_section_bit secs ws = Some ws' \<and> length ws' = 64
     \<and> bit_table ws' = bit_table ws \<union> (set secs \<inter> {..<4096})"
  using assms
proof (induction secs arbitrary: ws)
  case (Cons sec secs)
  obtain ws1 where w1: "set_section_bit sec ws = Some ws1" "length ws1 = 64" "bit_table ws1 = bit_table ws \<union> ({sec} \<inter> {..<4096})"
    using set_section_bit_ok[OF Cons.prems] by blast
  show ?case using Cons.IH[OF w1(2)] w1 by auto
qed simp

lemma sections_of_range:
  assumes "b < e"
  shows "sections_of {b..<e} = {b div 134217728 .. (e - 1) div 134217728}"
proof (rule set_eqI)
  fix sec
  show "sec \<in> sections_of {b..<e} \<longleftrightarrow> sec \<in> {b div 134217728 .. (e - 1) div 134217728}"
  proof
    assume "sec \<in> sections_of {b..<e}"
    then obtain x where x: "b \<le> x" "x \<le> e - 1" "sec = x div 134217728" by (auto simp: sections_of_def)
    show "sec \<in> {b div 134217728 .. (e - 1) div 134217728}"
      unfolding x(3) using div_le_mono[OF x(1), of 134217728] div_le_mono[OF x(2), of 134217728] by simp
  next
    assume s: "sec \<in> {b div 134217728 .. (e - 1) div 134217728}"
    let ?x = "max b (sec * 134217728)"
    have "sec * 134217728 \<le> e - 1" using s less_eq_div_iff_mult_less_eq[of 134217728 sec "e - 1"] by simp
    then have "?x \<in> {b..<e}" using assms by auto
    moreover have "?x div 134217728 = sec"
      using s by (cases "b \<le> sec * 134217728") (auto simp: max_def intro!: order_antisym div_le_mono dest: div_le_mono[of _ b 134217728])
    ultimately show "sec \<in> sections_of {b..<e}" unfolding sections_of_def by (metis image_eqI)
  qed
qed

lemma sections_of_Un [simp]: "sections_of (A \<union> B) = sections_of A \<union> sections_of B" "sections_of {} = {}"
  by (auto simp: sections_of_def)

lemma count_present_sections_ok:
  assumes ok: "regions_ok K (memory_regions mb)" and cov: "coverage (memory_regions mb) \<subseteq> {..<2 ^ 39}"
  shows "count_present_sections mb = Some (card (sections_of (coverage (memory_regions mb))))"
proof -
  let ?f = "\<lambda>r seen. if mr_size r = 0 then Some seen
         else let start_sec = mr_base r div 2 ^ SECTION_SHIFT;
                  end_sec = saturating_sub (region_end r) 1 div 2 ^ SECTION_SHIFT
              in for_each set_section_bit [start_sec..<Suc end_sec] seen"
  have loop: "\<exists>ws'. for_each ?f rs ws = Some ws' \<and> length ws' = 64
      \<and> bit_table ws' = bit_table ws \<union> (sections_of (coverage rs) \<inter> {..<4096})"
    if "regions_ok K rs" "length ws = 64" for rs ws
    using that
  proof (induction rs arbitrary: ws)
    case (Cons r rs)
    have r: "0 < mr_size r" "mr_base r < region_end r" using Cons.prems(1) by (auto simp: regions_ok_def region_end_ok)
    have set: "set [mr_base r div 134217728 ..< Suc ((region_end r - 1) div 134217728)] = sections_of (region_addrs r)"
      unfolding region_addrs_def sections_of_range[OF r(2)] by auto
    obtain ws1 where w1: "?f r ws = Some ws1" "length ws1 = 64"
        "bit_table ws1 = bit_table ws \<union> (sections_of (region_addrs r) \<inter> {..<4096})"
      using for_set_section_bit_ok[OF Cons.prems(2), of "[mr_base r div 134217728 ..< Suc ((region_end r - 1) div 134217728)]"] r(1)
      unfolding set by (auto simp: saturating_sub_def Let_def simp del: upt_Suc)
    show ?case using Cons.IH[OF _ w1(2)] Cons.prems(1) w1 by auto
  qed simp
  have "bit_table (replicate 64 0) = {}" by (auto simp: bit_table_def)
  moreover have "sections_of (coverage (memory_regions mb)) \<subseteq> {..<4096}"
    using cov by (auto simp: sections_of_def div_less_iff_less_mult)
  ultimately obtain ws' where "for_each ?f (memory_regions mb) (replicate 64 0) = Some ws'"
      "bit_table ws' = sections_of (coverage (memory_regions mb))"
    using loop[OF ok, of "replicate 64 0"] by (auto simp: Int_absorb2)
  then show ?thesis by (simp add: count_present_sections_def sum_count_ones)
qed

subsection \<open>The whole layer\<close>

lemma max_phys_addr_cong:
  assumes "regions_ok K (all_memory_regions a)" "regions_ok K (all_memory_regions b)"
    and "coverage (all_memory_regions a) = coverage (all_memory_regions b)" "coverage (all_memory_regions a) \<subseteq> {..<B}"
  shows "max_phys_addr a = max_phys_addr b"
proof -
  note pa = max_phys_addr_bounds[OF assms(1,4)]
  note pb = max_phys_addr_bounds[OF assms(2) assms(4)[unfolded assms(3)]]
  have "max_phys_addr a - 1 < max_phys_addr b \<or> max_phys_addr a = 0"
    using pa(3) pb(1) assms(3) by auto
  moreover have "max_phys_addr b - 1 < max_phys_addr a \<or> max_phys_addr b = 0"
    using pb(3) pa(1) assms(3) by auto
  moreover have "max_phys_addr a = 0 \<longleftrightarrow> max_phys_addr b = 0"
    using pa(1,3) pb(1,3) assms(3) by auto
  ultimately show ?thesis by arith
qed

lemma find_region_Some:
  assumes "find_region need rs = Some (Some (b, len))" "regions_ok K rs" "coverage rs \<subseteq> {..<2 ^ 52}"
  shows "\<exists>r bs. r \<in> set rs \<and> mr_base r = b \<and> mr_size r = len \<and> align_up b 4096 = Some bs \<and> 4096 dvd bs
     \<and> b \<le> bs \<and> bs < b + len \<and> bs + need \<le> b + len"
  using assms
proof (induction rs)
  case (Cons r rs)
  have r: "region_ok r" "0 < mr_size r" using Cons.prems(2) by (auto simp: regions_ok_def)
  have le: "mr_base r + mr_size r \<le> 2 ^ 52"
    using region_end_le_coverage(1)[OF Cons.prems(2,3), of r] r by (simp add: region_end_ok)
  have "mr_base r + 2 ^ 12 \<le> USIZE_MAX" using le by (simp add: USIZE_MAX_def)
  then obtain bs where bs: "align_up (mr_base r) 4096 = Some bs" "4096 dvd bs" "mr_base r \<le> bs"
    using align_up_ok[of 12 "mr_base r"] by auto
  have add: "u_add (mr_base r) (mr_size r) = Some (mr_base r + mr_size r)" using le by (simp add: u_add_def USIZE_MAX_def)
  show ?case
  proof (cases "bs < mr_base r + mr_size r \<and> need \<le> mr_base r + mr_size r - bs")
    case True
    then have "b = mr_base r" "len = mr_size r" using Cons.prems(1) r(2) bs add by auto
    then show ?thesis using True bs by (intro exI[of _ r] exI[of _ bs]) auto
  next
    case False
    then have "find_region need rs = Some (Some (b, len))" using Cons.prems(1) r(2) bs add by (auto split: if_splits)
    then show ?thesis using Cons by auto
  qed
qed simp

lemma sparsemem_required_bytes_ok:
  assumes wf: "mb_wf mb" and cov: "coverage (memory_regions mb) \<subseteq> coverage (all_memory_regions mb)"
      "coverage (all_memory_regions mb) \<subseteq> {..<2 ^ 39}"
  shows "sparsemem_required_bytes mb = Some (section_count_from_max_phys (max_phys_addr mb) * 16
     + card (sections_of (coverage (memory_regions mb))) * 786432 + 8 * (card (sections_of (coverage (memory_regions mb))) + 1))"
proof -
  have ok: "regions_ok usable_kind (memory_regions mb)" "regions_ok usable_kind (all_memory_regions mb)"
    using wf by (auto simp: mb_wf_def)
  let ?P = "card (sections_of (coverage (memory_regions mb)))"
  have "sections_of (coverage (memory_regions mb)) \<subseteq> {..<4096}"
    using cov by (auto simp: sections_of_def div_less_iff_less_mult)
  then have "?P \<le> card {..<4096 :: nat}" by (intro card_mono) auto
  then have P: "?P \<le> 4096" by simp
  have sc: "section_count_from_max_phys (max_phys_addr mb) \<le> 4097"
    using max_phys_addr_bounds(2)[OF ok(2) cov(2)] div_le_mono[of "max_phys_addr mb - 1" "2 ^ 39" 134217728]
    by (simp add: section_count_from_max_phys_def)
  have "coverage (memory_regions mb) \<subseteq> {..<2 ^ 39}" using cov by blast
  then show ?thesis
    using P sc count_present_sections_ok[OF ok(1)]
    by (simp add: sparsemem_required_bytes_def Let_def u_add_def u_mul_def USIZE_MAX_def sparse_consts)
qed

lemma reserve_for_sparsemem_ok:
  assumes wf: "mb_wf mb" and "slots_used mb < MAX_MEMBLOCK_REGIONS" and "0 < n" "b + n \<le> USIZE_MAX"
  shows "\<exists>mb'. reserve_for_sparsemem mb b n = Some (Inr (), mb') \<and> mb_wf mb'
     \<and> coverage (memory_regions mb') = coverage (memory_regions mb) - (coverage (reserved_regions mb) \<union> {b..<b + n})
     \<and> coverage (reserved_regions mb') = coverage (reserved_regions mb) \<union> {b..<b + n}
     \<and> coverage (all_memory_regions mb') = coverage (all_memory_regions mb)"
proof -
  have "mb_res_cnt mb = length (reserved_regions mb)" using wf by (simp add: mb_wf_def mb_defs)
  then have room: "mb_res_cnt mb < MAX_MEMBLOCK_REGIONS" using assms(2) by (simp add: slots_used_def)
  from wf have "is_reserved_kind MemblockType.Reserved" by simp
  from wf this show ?thesis
  proof (cases rule: add_reserved_cases[of mb MemblockType.Reserved b n])
    case (err e)
    then show ?thesis using assms(3,4) room by auto
  next
    case (ok mb1)
    have used: "slots_used mb1 = Suc (slots_used mb)" using ok by (simp add: slots_used_def)
    have regs: "regions_ok usable_kind (all_memory_regions mb1)" "regions_ok is_reserved_kind (reserved_regions mb1)"
      using ok(4) by (auto simp: mb_wf_def)
    note tp = tidy_ref_props(1)[OF regs(1)] tidy_ref_props(1)[OF regs(2)]
    from ok(4) show ?thesis
    proof (cases rule: normalize_cases)
      case slots
      then show ?thesis using length_normal_pieces[OF ok(4)] used assms(2) by simp
    next
      case norm: (ok mb')
      have "coverage (memory_regions mb') = coverage (memory_regions mb1) - coverage (reserved_regions mb1)"
        using norm(3) normal_pieces_props(1)[OF ok(4)] by simp
      then show ?thesis
        using ok norm tp assms(4) by (auto simp: reserve_for_sparsemem_def)
    qed
  qed
qed

subsection \<open>Properties\<close>


text \<open>A machine with 16 MiB of usable memory at 1 MiB.\<close>

definition small_memblock :: Memblock where
  "small_memblock = memblock_new
     \<lparr>mb_memory := mk_region 1048576 16777216 MemblockType.Usable # replicate 63 region_empty, mb_mem_cnt := 1,
      mb_raw_memory := mk_region 1048576 16777216 MemblockType.Usable # replicate 63 region_empty, mb_raw_memory_cnt := 1\<rparr>"

lemma small_memblock_simps [simp]:
  "memory_regions small_memblock = [mk_region 1048576 16777216 MemblockType.Usable]"
  "all_memory_regions small_memblock = [mk_region 1048576 16777216 MemblockType.Usable]"
  "reserved_regions small_memblock = []"
  "mb_wf small_memblock"
proof -
  show m: "memory_regions small_memblock = [mk_region 1048576 16777216 MemblockType.Usable]"
    "all_memory_regions small_memblock = [mk_region 1048576 16777216 MemblockType.Usable]"
    "reserved_regions small_memblock = []"
    by (simp_all add: small_memblock_def mb_defs memblock_new_def)
  show "mb_wf small_memblock"
    unfolding mb_wf_def m by (simp add: small_memblock_def memblock_new_def MAX_MEMBLOCK_REGIONS_def regions_ok_def USIZE_MAX_def)
qed


end
