(* ===== verification/Link_List.thy ===== *)
theory Link_List
  imports Anvil_Prelude
begin

text \<open>
  Doubly linked lists through a store of nodes. The interface is what a list user needs of a node:
  two link fields that can be read and written independently, and a null link. The page frames of
  the buddy allocator and the headers of the slab allocator provide it.
\<close>

locale link_fields =
  fixes nxt prv :: "'n \<Rightarrow> 'p"
    and set_nxt set_prv :: "'p \<Rightarrow> 'n \<Rightarrow> 'n"
    and null :: 'p
  assumes nxt_set_nxt [simp]: "nxt (set_nxt p n) = p"
    and prv_set_nxt [simp]: "prv (set_nxt p n) = prv n"
    and prv_set_prv [simp]: "prv (set_prv p n) = p"
    and nxt_set_prv [simp]: "nxt (set_prv p n) = nxt n"
begin

text \<open>The first node of a list, or what follows it; the last node, or what precedes it.\<close>

definition head_or :: "'p \<Rightarrow> 'p list \<Rightarrow> 'p" where
  "head_or q xs = (case xs of [] \<Rightarrow> q | x # _ \<Rightarrow> x)"

definition last_or :: "'p \<Rightarrow> 'p list \<Rightarrow> 'p" where
  "last_or p xs = (if xs = [] then p else last xs)"

lemma head_or_simps [simp]: "head_or q [] = q" "head_or q (x # xs) = x"
  by (simp_all add: head_or_def)

lemma last_or_simps [simp]: "last_or p [] = p" "last_or p (x # xs) = last_or x xs"
  by (simp_all add: last_or_def)

lemma head_or_append: "head_or q (xs @ ys) = head_or (head_or q ys) xs"
  by (cases xs) simp_all

text \<open>A segment from \<open>p\<close> before it to \<open>q\<close> after it.\<close>

fun seg :: "('p \<rightharpoonup> 'n) \<Rightarrow> 'p \<Rightarrow> 'p list \<Rightarrow> 'p \<Rightarrow> bool" where
  "seg fr p [] q = True"
| "seg fr p (x # xs) q \<longleftrightarrow>
     x \<noteq> null \<and> (\<exists>n. fr x = Some n \<and> prv n = p \<and> nxt n = head_or q xs) \<and> seg fr x xs q"

definition dll :: "('p \<rightharpoonup> 'n) \<Rightarrow> 'p \<Rightarrow> 'p list \<Rightarrow> bool" where
  "dll fr h xs \<longleftrightarrow> h = head_or null xs \<and> distinct xs \<and> seg fr null xs null"

lemma seg_append: "seg fr p (xs @ ys) q \<longleftrightarrow> seg fr p xs (head_or q ys) \<and> seg fr (last_or p xs) ys q"
  by (induction xs arbitrary: p) (auto simp: head_or_append)

lemma seg_upd_other [simp]: "x \<notin> set xs \<Longrightarrow> seg (fr(x := v)) p xs q = seg fr p xs q"
  by (induction xs arbitrary: p) auto

lemma seg_dom: "seg fr p xs q \<Longrightarrow> x \<in> set xs \<Longrightarrow> x \<noteq> null \<and> (\<exists>n. fr x = Some n)"
  by (induction xs arbitrary: p) auto

lemma seg_cong: "(\<And>x. x \<in> set xs \<Longrightarrow> fr x = fr' x) \<Longrightarrow> seg fr p xs q = seg fr' p xs q"
  by (induction xs arbitrary: p) auto

lemma seg_set_prv:
  assumes "seg fr p (x # xs) q" "x \<notin> set xs" "fr x = Some n"
  shows "seg (fr(x \<mapsto> set_prv p' n)) p' (x # xs) q"
  using assms by auto

lemma seg_set_nxt:
  assumes "seg fr p (xs @ [x]) q" "x \<notin> set xs" "fr x = Some n"
  shows "seg (fr(x \<mapsto> set_nxt q' n)) p (xs @ [x]) q'"
  using assms by (auto simp: seg_append)

lemma dll_Nil [simp]: "dll fr h [] \<longleftrightarrow> h = null"
  by (simp add: dll_def)

lemma dll_dom: "dll fr h xs \<Longrightarrow> x \<in> set xs \<Longrightarrow> x \<noteq> null \<and> (\<exists>n. fr x = Some n)"
  by (auto simp: dll_def dest: seg_dom)

lemma dll_upd_other: "dll fr h xs \<Longrightarrow> x \<notin> set xs \<Longrightarrow> dll (fr(x := v)) h xs"
  by (simp add: dll_def)

lemma dll_cong: "dll fr h xs \<Longrightarrow> (\<And>x. x \<in> set xs \<Longrightarrow> fr' x = fr x) \<Longrightarrow> dll fr' h xs"
  using seg_cong[of xs fr' fr] by (simp add: dll_def)

lemma dll_null_iff: "dll fr h xs \<Longrightarrow> h = null \<longleftrightarrow> xs = []"
  by (cases xs) (auto simp: dll_def)

text \<open>Writing the link back from the old head, if there is one.\<close>

definition relink_prv :: "'p \<Rightarrow> 'p \<Rightarrow> ('p \<rightharpoonup> 'n) \<Rightarrow> ('p \<rightharpoonup> 'n)" where
  "relink_prv x p fr = (if x = null then fr else fr(x \<mapsto> set_prv p (the (fr x))))"

definition relink_nxt :: "'p \<Rightarrow> 'p \<Rightarrow> ('p \<rightharpoonup> 'n) \<Rightarrow> ('p \<rightharpoonup> 'n)" where
  "relink_nxt x q fr = (if x = null then fr else fr(x \<mapsto> set_nxt q (the (fr x))))"

lemma relink_other: "y \<noteq> x \<Longrightarrow> relink_prv x p fr y = fr y" "y \<noteq> x \<Longrightarrow> relink_nxt x p fr y = fr y"
  by (simp_all add: relink_prv_def relink_nxt_def)

lemma dll_push:
  assumes "dll fr h xs" "x \<noteq> null" "x \<notin> set xs" "prv n = null" "nxt n = h"
  shows "dll (relink_prv h x (fr(x \<mapsto> n))) x (x # xs)"
proof (cases xs)
  case Nil
  then show ?thesis using assms by (simp add: dll_def relink_prv_def)
next
  case (Cons y ys)
  then have y: "h = y" "y \<noteq> null" "y \<noteq> x" "y \<notin> set ys" "x \<notin> set ys" "seg fr null (y # ys) null" "distinct ys"
    using assms by (auto simp: dll_def)
  obtain m where m: "fr y = Some m" using y(6) by auto
  have "seg (fr(x \<mapsto> n)) null (y # ys) null" using y by (auto simp del: seg.simps)
  then have "seg ((fr(x \<mapsto> n))(y \<mapsto> set_prv x m)) x (y # ys) null"
    using y m by (intro seg_set_prv) auto
  then show ?thesis using y m assms Cons by (auto simp: dll_def relink_prv_def)
qed

lemma dll_unlink:
  assumes "dll fr h (xs @ x # ys)"
  shows "dll (relink_prv (head_or null ys) (last_or null xs) (relink_nxt (last_or null xs) (head_or null ys) (fr(x := v))))
           (head_or (head_or null ys) xs) (xs @ ys)"
proof -
  let ?p = "last_or null xs" and ?q = "head_or null ys"
  have d: "distinct (xs @ ys)" "x \<notin> set xs" "x \<notin> set ys" and s: "seg fr null xs x" "seg fr x ys null"
    using assms by (auto simp: dll_def seg_append)
  let ?f1 = "relink_nxt ?p ?q (fr(x := v))"
  have left: "seg ?f1 null xs ?q"
  proof (cases xs rule: rev_cases)
    case (snoc zs z)
    then obtain m where m: "fr z = Some m" "z \<noteq> null" "z \<noteq> x" "z \<notin> set zs" "x \<notin> set zs" "seg fr null (zs @ [z]) x"
      using s(1) d by (auto simp: seg_append)
    have "seg (fr(x := v)) null (zs @ [z]) x" using m d snoc by simp
    then show ?thesis using seg_set_nxt[of "fr(x := v)" null zs z x m ?q] m snoc
      by (simp add: relink_nxt_def last_or_def)
  qed simp
  have right: "seg ?f1 x ys null"
  proof -
    have "?p \<notin> set ys \<or> ?p = null" using d by (cases xs rule: rev_cases) (auto simp: last_or_def)
    then show ?thesis using s(2) d by (auto simp: relink_nxt_def)
  qed
  have "seg (relink_prv ?q ?p ?f1) null xs ?q"
  proof -
    have "?q \<notin> set xs \<or> ?q = null" using d by (cases ys) auto
    then show ?thesis using left by (auto simp: relink_prv_def)
  qed
  moreover have "seg (relink_prv ?q ?p ?f1) ?p ys null"
  proof (cases ys)
    case (Cons y zs)
    then obtain m where "?f1 y = Some m" "y \<noteq> null" using right by auto
    then show ?thesis using seg_set_prv[of ?f1 x y zs null m ?p] right d Cons by (auto simp: relink_prv_def simp del: seg.simps)
  qed simp
  ultimately show ?thesis using d(1) by (simp add: dll_def seg_append head_or_append)
qed

lemma dll_pop:
  assumes "dll fr h (x # xs)"
  shows "dll (relink_prv (head_or null xs) null (fr(x := v))) (head_or null xs) xs"
  using dll_unlink[of fr h "[]" x xs v] assms by (simp add: relink_nxt_def)

text \<open>The links of a member of a list name its neighbours.\<close>

lemma dll_links:
  assumes "dll fr h (xs @ x # ys)" "fr x = Some n"
  shows "prv n = last_or null xs" "nxt n = head_or null ys"
  using assms by (auto simp: dll_def seg_append)

end

end
