(* ===== verification/Buddy.thy ===== *)
theory Buddy
  imports Sparsemem Link_List
begin

text \<open>
  \<open>memory/pmm/buddy.rs\<close>: the binary buddy allocator of a zone. The free lists are threaded through
  the page frames of the section table, which the code reaches as a global; the operations here
  take it and return it.
\<close>

subsection \<open>Definitions\<close>

definition MAX_ORDER :: usize where "MAX_ORDER = 11"

definition buddy_floor_log2 :: "usize \<Rightarrow> usize option" where
  "buddy_floor_log2 x = do {
     rassert (x > 0);
     u_sub (64 - 1) (leading_zeros x)
   }"

definition max_block_order_for :: "Pfn \<Rightarrow> usize \<Rightarrow> usize option" where
  "max_block_order_for start remaining =
     (if remaining = 0 then Some 0
      else do {
        max_by_remaining \<leftarrow> buddy_floor_log2 remaining;
        let tz = (if start = 0 then MAX_ORDER else min (trailing_zeros start) MAX_ORDER);
        Some (min max_by_remaining tz)
      })"

record Buddy =
  b_base_pfn :: Pfn
  b_pages :: usize
  b_max_order :: usize
  b_free :: "Pfn list"
  b_free_pages :: usize

definition buddy_new :: "Pfn \<Rightarrow> usize \<Rightarrow> Buddy option" where
  "buddy_new base_pfn pages = do {
     max_order \<leftarrow> (if pages = 0 then Some 0
                  else do { k \<leftarrow> buddy_floor_log2 pages; Some (min k MAX_ORDER) });
     Some \<lparr>b_base_pfn = base_pfn, b_pages = pages, b_max_order = max_order,
           b_free = replicate (MAX_ORDER + 1) INVALID_PFN, b_free_pages = 0\<rparr>
   }"

definition order_pages :: "usize \<Rightarrow> usize option" where
  "order_pages order = u_bit order"

definition in_range :: "Buddy \<Rightarrow> Pfn \<Rightarrow> bool" where
  "in_range b pfn \<longleftrightarrow> pfn \<ge> b_base_pfn b \<and> pfn - b_base_pfn b < b_pages b"

definition local_idx :: "Buddy \<Rightarrow> Pfn \<Rightarrow> usize option" where
  "local_idx b pfn = u_sub pfn (b_base_pfn b)"

definition to_pfn :: "Buddy \<Rightarrow> usize \<Rightarrow> Pfn option" where
  "to_pfn b l = u_add (b_base_pfn b) l"

definition buddy_of :: "Buddy \<Rightarrow> Pfn \<Rightarrow> usize \<Rightarrow> Pfn option option" where
  "buddy_of b head order = do {
     l \<leftarrow> local_idx b head;
     bit \<leftarrow> u_bit order;
     let bud = l XOR bit;
     n \<leftarrow> order_pages order;
     e \<leftarrow> u_add bud n;
     if e > b_pages b then Some None
     else do { p \<leftarrow> to_pfn b bud; Some (Some p) }
   }"

text \<open>Access to the frame of a page, which panics when the page has none.\<close>

definition frame_mut_unchecked :: "SparseMem \<Rightarrow> Pfn \<Rightarrow> (usize \<times> usize) option" where
  "frame_mut_unchecked sp pfn = pfn_to_frame sp pfn"

definition frame_get :: "SparseMem \<Rightarrow> Pfn \<Rightarrow> Frame option" where
  "frame_get sp pfn = Option.bind (frame_mut_unchecked sp pfn) (frame_load sp)"

definition frame_modify :: "Pfn \<Rightarrow> (Frame \<Rightarrow> Frame) \<Rightarrow> SparseMem \<Rightarrow> SparseMem option" where
  "frame_modify pfn g sp = do {
     p \<leftarrow> frame_mut_unchecked sp pfn;
     f \<leftarrow> frame_load sp p;
     frame_store p (g f) sp
   }"

definition is_free_head :: "SparseMem \<Rightarrow> Buddy \<Rightarrow> Pfn \<Rightarrow> usize \<Rightarrow> bool option" where
  "is_free_head sp b pfn order =
     (if \<not> in_range b pfn then Some False
      else case pfn_to_frame sp pfn of
        None \<Rightarrow> Some False
      | Some p \<Rightarrow> do { f \<leftarrow> frame_load sp p; Some (f_tag f = Free \<and> f_order f = order) })"

definition frame_reset :: "Frame \<Rightarrow> Frame" where
  "frame_reset f = f\<lparr>f_tag := Unused, f_order := 0, f_next_free := INVALID_PFN, f_prev_free := INVALID_PFN\<rparr>"

definition buddy_reset :: "Buddy \<Rightarrow> SparseMem \<Rightarrow> (Buddy \<times> SparseMem) option" where
  "buddy_reset b sp = do {
     let b' = b\<lparr>b_free := replicate (MAX_ORDER + 1) INVALID_PFN, b_free_pages := 0\<rparr>;
     sp' \<leftarrow> for_each (\<lambda>i sp. do {
         pfn \<leftarrow> u_add (b_base_pfn b') i;
         case pfn_to_frame sp pfn of
           None \<Rightarrow> Some sp
         | Some p \<Rightarrow> frame_modify pfn frame_reset sp
       }) [0..<b_pages b'] sp;
     Some (b', sp')
   }"

definition push_free :: "Pfn \<Rightarrow> usize \<Rightarrow> Buddy \<times> SparseMem \<Rightarrow> (Buddy \<times> SparseMem) option" where
  "push_free head order = (\<lambda>(b, sp). do {
     old \<leftarrow> arr_get (b_free b) order;
     sp1 \<leftarrow> frame_modify head (\<lambda>f. f\<lparr>f_tag := Free, f_order := order mod 256,
                                f_prev_free := INVALID_PFN, f_next_free := old\<rparr>) sp;
     sp2 \<leftarrow> (if old \<noteq> INVALID_PFN then frame_modify old (\<lambda>f. f\<lparr>f_prev_free := head\<rparr>) sp1 else Some sp1);
     fr \<leftarrow> arr_set (b_free b) order head;
     Some (b\<lparr>b_free := fr\<rparr>, sp2)
   })"

definition pop_free :: "usize \<Rightarrow> Buddy \<times> SparseMem \<Rightarrow> (Pfn option \<times> Buddy \<times> SparseMem) option" where
  "pop_free order = (\<lambda>(b, sp). do {
     head \<leftarrow> arr_get (b_free b) order;
     if head = INVALID_PFN then Some (None, b, sp)
     else do {
       fh \<leftarrow> frame_get sp head;
       let nx = f_next_free fh;
       sp1 \<leftarrow> frame_modify head (\<lambda>f. f\<lparr>f_prev_free := INVALID_PFN, f_next_free := INVALID_PFN\<rparr>) sp;
       fr \<leftarrow> arr_set (b_free b) order nx;
       sp2 \<leftarrow> (if nx \<noteq> INVALID_PFN then frame_modify nx (\<lambda>f. f\<lparr>f_prev_free := INVALID_PFN\<rparr>) sp1 else Some sp1);
       Some (Some head, b\<lparr>b_free := fr\<rparr>, sp2)
     }
   })"

definition remove_free :: "Pfn \<Rightarrow> usize \<Rightarrow> Buddy \<times> SparseMem \<Rightarrow> (Buddy \<times> SparseMem) option" where
  "remove_free head order = (\<lambda>(b, sp). do {
     fh \<leftarrow> frame_get sp head;
     rassert (f_tag fh = Free \<and> f_order fh = order);
     let pv = f_prev_free fh;
     let nx = f_next_free fh;
     sp1 \<leftarrow> frame_modify head (\<lambda>f. f\<lparr>f_prev_free := INVALID_PFN, f_next_free := INVALID_PFN\<rparr>) sp;
     (b2, sp2) \<leftarrow> (if pv \<noteq> INVALID_PFN
        then do { sp2 \<leftarrow> frame_modify pv (\<lambda>f. f\<lparr>f_next_free := nx\<rparr>) sp1; Some (b, sp2) }
        else do { fr \<leftarrow> arr_set (b_free b) order nx; Some (b\<lparr>b_free := fr\<rparr>, sp1) });
     sp3 \<leftarrow> (if nx \<noteq> INVALID_PFN then frame_modify nx (\<lambda>f. f\<lparr>f_prev_free := pv\<rparr>) sp2 else Some sp2);
     Some (b2, sp3)
   })"

definition mark_block_free_head :: "Buddy \<Rightarrow> Pfn \<Rightarrow> usize \<Rightarrow> SparseMem \<Rightarrow> SparseMem option" where
  "mark_block_free_head b head order sp = do {
     sp1 \<leftarrow> frame_modify head (\<lambda>f. f\<lparr>f_tag := Free, f_order := order mod 256,
                                f_prev_free := INVALID_PFN, f_next_free := INVALID_PFN\<rparr>) sp;
     n \<leftarrow> order_pages order;
     for_each (\<lambda>i sp. do {
         p \<leftarrow> u_add head i;
         rassert (in_range b p);
         f \<leftarrow> frame_get sp p;
         rassert (f_state f = Usable);
         frame_modify p frame_reset sp
       }) [1..<n] sp1
   }"

definition mark_block_allocated :: "Pfn \<Rightarrow> usize \<Rightarrow> SparseMem \<Rightarrow> SparseMem option" where
  "mark_block_allocated head order sp =
     frame_modify head (\<lambda>f. f\<lparr>f_tag := Allocated, f_order := order mod 256,
       f_prev_free := INVALID_PFN, f_next_free := INVALID_PFN\<rparr>) sp"

text \<open>The merging loop; not returning is \<open>None\<close>.\<close>

partial_function (option) coalesce_up :: "Pfn \<Rightarrow> usize \<Rightarrow> Buddy \<times> SparseMem \<Rightarrow> (Buddy \<times> SparseMem) option" where
  "coalesce_up head order st =
     (if order < b_max_order (fst st) then do {
        bud \<leftarrow> buddy_of (fst st) head order;
        case bud of
          None \<Rightarrow> Some st
        | Some bd \<Rightarrow> do {
            ok \<leftarrow> is_free_head (snd st) (fst st) bd order;
            if \<not> ok then Some st
            else do {
              st1 \<leftarrow> remove_free head order st;
              st2 \<leftarrow> remove_free bd order st1;
              lh \<leftarrow> local_idx (fst st2) head;
              lb \<leftarrow> local_idx (fst st2) bd;
              let head' = (if lh < lb then head else bd);
              order' \<leftarrow> u_add order 1;
              sp3 \<leftarrow> mark_block_free_head (fst st2) head' order' (snd st2);
              st4 \<leftarrow> push_free head' order' (fst st2, sp3);
              coalesce_up head' order' st4
            }
          }
      } else Some st)"

declare coalesce_up.simps [simp del]

definition insert_block_boot :: "Pfn \<Rightarrow> usize \<Rightarrow> Buddy \<times> SparseMem \<Rightarrow> (Buddy \<times> SparseMem) option" where
  "insert_block_boot head order = (\<lambda>(b, sp). do {
     rassert (order \<le> b_max_order b);
     rassert (in_range b head);
     sp1 \<leftarrow> mark_block_free_head b head order sp;
     n \<leftarrow> order_pages order;
     fp \<leftarrow> u_add (b_free_pages b) n;
     st2 \<leftarrow> push_free head order (b\<lparr>b_free_pages := fp\<rparr>, sp1);
     coalesce_up head order st2
   })"

text \<open>The loop that cuts a run into blocks; not returning is \<open>None\<close>.\<close>

partial_function (option) add_run_loop :: "Pfn \<Rightarrow> usize \<Rightarrow> Buddy \<times> SparseMem \<Rightarrow> (Buddy \<times> SparseMem) option" where
  "add_run_loop p remaining st =
     (if remaining > 0 then do {
        k \<leftarrow> max_block_order_for p remaining;
        let order = min k (b_max_order (fst st));
        st' \<leftarrow> insert_block_boot p order st;
        step \<leftarrow> order_pages order;
        p' \<leftarrow> u_add p step;
        r' \<leftarrow> u_sub remaining step;
        add_run_loop p' r' st'
      } else Some st)"

declare add_run_loop.simps [simp del]

definition add_usable_run :: "Pfn \<Rightarrow> usize \<Rightarrow> Buddy \<times> SparseMem \<Rightarrow> (Buddy \<times> SparseMem) option" where
  "add_usable_run start len = (\<lambda>(b, sp).
     if len = 0 \<or> b_pages b = 0 then Some (b, sp)
     else do {
       zone_end \<leftarrow> u_add (b_base_pfn b) (b_pages b);
       e \<leftarrow> u_add start len;
       let p_start = max start (b_base_pfn b);
       let p_end = min e zone_end;
       if p_start \<ge> p_end then Some (b, sp)
       else do {
         remaining \<leftarrow> u_sub p_end p_start;
         add_run_loop p_start remaining (b, sp)
       }
     })"

text \<open>The splitting loop of \<open>alloc\<close>.\<close>

fun split_down :: "Pfn \<Rightarrow> usize \<Rightarrow> usize \<Rightarrow> Buddy \<times> SparseMem \<Rightarrow> (Buddy \<times> SparseMem) option" where
  "split_down head order 0 st = Some st"
| "split_down head order (Suc cur) st =
     (if Suc cur > order then do {
        bud \<leftarrow> buddy_of (fst st) head cur;
        bd \<leftarrow> bud;
        sp1 \<leftarrow> mark_block_free_head (fst st) bd cur (snd st);
        st2 \<leftarrow> push_free bd cur (fst st, sp1);
        n \<leftarrow> order_pages cur;
        fp \<leftarrow> u_add (b_free_pages (fst st2)) n;
        split_down head order cur ((fst st2)\<lparr>b_free_pages := fp\<rparr>, snd st2)
      } else Some st)"

text \<open>The first order with a free block, over the range \<open>order..=max_order\<close>.\<close>

fun find_order :: "Pfn list \<Rightarrow> usize list \<Rightarrow> usize option option" where
  "find_order heads [] = Some None"
| "find_order heads (k # ks) = do {
     h \<leftarrow> arr_get heads k;
     if h \<noteq> INVALID_PFN then Some (Some k) else find_order heads ks
   }"

definition buddy_alloc :: "usize \<Rightarrow> Buddy \<times> SparseMem \<Rightarrow> (Pfn option \<times> Buddy \<times> SparseMem) option" where
  "buddy_alloc order = (\<lambda>(b, sp).
     if order > b_max_order b then Some (None, b, sp)
     else do {
       found \<leftarrow> find_order (b_free b) [order..<Suc (b_max_order b)];
       case found of
         None \<Rightarrow> Some (None, b, sp)
       | Some found_order \<Rightarrow> do {
           (h, b1, sp1) \<leftarrow> pop_free found_order (b, sp);
           case h of
             None \<Rightarrow> Some (None, b1, sp1)
           | Some head \<Rightarrow> do {
               n \<leftarrow> order_pages found_order;
               fp \<leftarrow> u_sub (b_free_pages b1) n;
               (b2, sp2) \<leftarrow> split_down head order found_order (b1\<lparr>b_free_pages := fp\<rparr>, sp1);
               sp3 \<leftarrow> mark_block_allocated head order sp2;
               Some (Some head, b2, sp3)
             }
         }
     })"

definition buddy_free :: "Pfn \<Rightarrow> Buddy \<times> SparseMem \<Rightarrow> (Buddy \<times> SparseMem) option" where
  "buddy_free head = (\<lambda>(b, sp). do {
     rassert (in_range b head);
     fh \<leftarrow> frame_get sp head;
     rassert (f_tag fh = Allocated);
     sp1 \<leftarrow> frame_modify head (\<lambda>f. f\<lparr>f_tag := Free, f_prev_free := INVALID_PFN, f_next_free := INVALID_PFN\<rparr>) sp;
     let order = f_order fh;
     n \<leftarrow> order_pages order;
     for_each (\<lambda>i _. do {
         p \<leftarrow> u_add head i;
         f \<leftarrow> frame_get sp1 p;
         rassert (f_tag f = Unused)
       }) [1..<n] ();
     fp \<leftarrow> u_add (b_free_pages b) n;
     st2 \<leftarrow> push_free head order (b\<lparr>b_free_pages := fp\<rparr>, sp1);
     coalesce_up head order st2
   })"

subsection \<open>The frame store\<close>

text \<open>
  What the buddy allocator needs of the section table: a partial map from pages to frames, and an
  update of one frame that leaves the rest of the table alone.
\<close>

locale node_store =
  fixes view :: "'s \<Rightarrow> 'k \<Rightarrow> 'v option"
    and modify :: "'k \<Rightarrow> ('v \<Rightarrow> 'v) \<Rightarrow> 's \<Rightarrow> 's option"
    and wf :: "'s \<Rightarrow> bool"
    and geom :: "'s \<Rightarrow> 'g"
  assumes modify_ok: "wf s \<Longrightarrow> view s k = Some v \<Longrightarrow>
    \<exists>s'. modify k g s = Some s' \<and> wf s' \<and> geom s' = geom s \<and> view s' = (view s)(k \<mapsto> g v)"
begin

text \<open>A loop that updates the nodes of a list of keys, and skips the keys without a node.\<close>

lemma for_modify:
  assumes "wf s" and "inj_on key (set xs)"
    and "\<And>x t. x \<in> set xs \<Longrightarrow> wf t \<Longrightarrow> view t (key x) = view s (key x) \<Longrightarrow>
           body x t = (case view s (key x) of None \<Rightarrow> Some t | Some v \<Rightarrow> modify (key x) g t)"
  shows "distinct xs \<Longrightarrow> \<exists>s'. for_each body xs s = Some s' \<and> wf s' \<and> geom s' = geom s
     \<and> view s' = (\<lambda>k. if k \<in> key ` set xs then map_option g (view s k) else view s k)"
  using assms
proof (induction xs arbitrary: s)
  case (Cons x xs)
  have body: "body x s = (case view s (key x) of None \<Rightarrow> Some s | Some v \<Rightarrow> modify (key x) g s)"
    using Cons.prems(4)[of x s] Cons.prems(2) by simp
  obtain s1 where s1: "body x s = Some s1" "wf s1" "geom s1 = geom s"
      "view s1 = (\<lambda>k. if k = key x then map_option g (view s k) else view s k)"
  proof (cases "view s (key x)")
    case None
    then have "view s = (\<lambda>k. if k = key x then map_option g (view s k) else view s k)" by (auto simp: fun_eq_iff)
    then show ?thesis using that[of s] body None Cons.prems(2) by simp
  next
    case (Some v)
    then obtain t where t: "modify (key x) g s = Some t" "wf t" "geom t = geom s" "view t = (view s)(key x \<mapsto> g v)"
      using modify_ok[OF Cons.prems(2)] by blast
    then have "view t = (\<lambda>k. if k = key x then map_option g (view s k) else view s k)" using Some by (auto simp: fun_eq_iff)
    then show ?thesis using that[of t] body Some t by simp
  qed
  have new: "key y \<noteq> key x" if "y \<in> set xs" for y
    using Cons.prems(1,3) that by (auto simp: inj_on_def)
  have "\<exists>s'. for_each body xs s1 = Some s' \<and> wf s' \<and> geom s' = geom s1
     \<and> view s' = (\<lambda>k. if k \<in> key ` set xs then map_option g (view s1 k) else view s1 k)"
  proof (rule Cons.IH)
    show "body y t = (case view s1 (key y) of None \<Rightarrow> Some t | Some v \<Rightarrow> modify (key y) g t)"
      if "y \<in> set xs" "wf t" "view t (key y) = view s1 (key y)" for y t
      using Cons.prems(4)[of y t] that new[OF that(1)] s1(4) by simp
  qed (use Cons.prems s1 in auto)
  then obtain s2 where s2: "for_each body xs s1 = Some s2" "wf s2" "geom s2 = geom s1"
      "view s2 = (\<lambda>k. if k \<in> key ` set xs then map_option g (view s1 k) else view s1 k)" by blast
  have "view s2 = (\<lambda>k. if k \<in> key ` set (x # xs) then map_option g (view s k) else view s k)"
  proof (rule ext)
    fix k
    have "key x \<notin> key ` set xs" using new by (metis imageE)
    then show "view s2 k = (if k \<in> key ` set (x # xs) then map_option g (view s k) else view s k)"
      unfolding s2(4) s1(4) by auto
  qed
  then show ?case using s1 s2 by auto
qed simp

end

definition sparse_geom :: "SparseMem \<Rightarrow> nat set \<times> nat \<times> nat \<times> nat" where
  "sparse_geom sp = (present_secs sp, sp_section_count sp, sp_max_present_sec sp, sp_cached_max_pfn sp)"

lemma frame_modify_ok:
  assumes "sparse_wf sp" "frames_of sp p = Some f"
  shows "\<exists>sp'. frame_modify p g sp = Some sp' \<and> sparse_wf sp' \<and> sparse_geom sp' = sparse_geom sp
     \<and> frames_of sp' = (frames_of sp)(p \<mapsto> g f)"
  using frame_store_ok[OF assms, of "g f"] frame_load_ok[OF assms] assms(2)
  by (auto simp: frame_modify_def frame_mut_unchecked_def pfn_to_frame_eq sparse_geom_def)

interpretation fstore: node_store frames_of frame_modify sparse_wf sparse_geom
  by unfold_locales (rule frame_modify_ok)

lemma frame_get_eq: "sparse_wf sp \<Longrightarrow> frame_get sp p = frames_of sp p"
  by (cases "frames_of sp p")
    (simp_all add: frame_get_def frame_mut_unchecked_def pfn_to_frame_eq frame_load_ok)

interpretation flinks: link_fields f_next_free f_prev_free
  "\<lambda>p f. f\<lparr>f_next_free := p\<rparr>" "\<lambda>p f. f\<lparr>f_prev_free := p\<rparr>" INVALID_PFN
  by unfold_locales simp_all

text \<open>A step of the table that leaves alone every frame outside of \<open>X\<close>.\<close>

definition within :: "nat set \<Rightarrow> SparseMem \<Rightarrow> SparseMem \<Rightarrow> bool" where
  "within X sp sp' \<longleftrightarrow> sparse_wf sp' \<and> sparse_geom sp' = sparse_geom sp \<and> (\<forall>p. p \<notin> X \<longrightarrow> frames_of sp' p = frames_of sp p)"

lemma within_trans: "within X a b \<Longrightarrow> within X b c \<Longrightarrow> within X a c"
  by (simp add: within_def)

lemma within_refl: "sparse_wf sp \<Longrightarrow> within X sp sp"
  by (simp add: within_def)

lemma within_wf: "within X sp sp' \<Longrightarrow> sparse_wf sp'"
  by (simp add: within_def)

text \<open>A frame without its links.\<close>

definition core :: "Frame \<Rightarrow> Frame" where
  "core f = f\<lparr>f_next_free := INVALID_PFN, f_prev_free := INVALID_PFN\<rparr>"

definition cores :: "SparseMem \<Rightarrow> Pfn \<Rightarrow> Frame option" where
  "cores sp p = map_option core (frames_of sp p)"

lemma core_simps [simp]:
  "f_state (core f) = f_state f" "f_tag (core f) = f_tag f" "f_order (core f) = f_order f" "f_zone (core f) = f_zone f"
  "core (f\<lparr>f_next_free := p\<rparr>) = core f" "core (f\<lparr>f_prev_free := p\<rparr>) = core f"
  "core (f\<lparr>f_tag := t\<rparr>) = (core f)\<lparr>f_tag := t\<rparr>" "core (f\<lparr>f_order := k\<rparr>) = (core f)\<lparr>f_order := k\<rparr>"
  by (simp_all add: core_def)

subsection \<open>The free lists\<close>

definition zone_pages :: "Buddy \<Rightarrow> nat set" where
  "zone_pages b = {p. in_range b p}"

definition listed :: "(nat \<Rightarrow> Pfn list) \<Rightarrow> nat set" where
  "listed fl = (\<Union>k < 12. set (fl k))"

definition lists_ok :: "Buddy \<Rightarrow> SparseMem \<Rightarrow> (nat \<Rightarrow> Pfn list) \<Rightarrow> bool" where
  "lists_ok b sp fl \<longleftrightarrow> length (b_free b) = 12
     \<and> (\<forall>k < 12. flinks.dll (frames_of sp) (b_free b ! k) (fl k))
     \<and> (\<forall>k < 12. \<forall>j < 12. k \<noteq> j \<longrightarrow> set (fl k) \<inter> set (fl j) = {})
     \<and> listed fl \<subseteq> zone_pages b"

lemma lists_okD:
  assumes "lists_ok b sp fl" "k < 12"
  shows "flinks.dll (frames_of sp) (b_free b ! k) (fl k)" "set (fl k) \<subseteq> zone_pages b" "k < length (b_free b)"
    "\<And>j. j < 12 \<Longrightarrow> j \<noteq> k \<Longrightarrow> set (fl j) \<inter> set (fl k) = {}"
  using assms by (auto simp: lists_ok_def listed_def)

text \<open>A change of one list that leaves the frames of the others alone.\<close>

lemma lists_ok_upd:
  assumes ok: "lists_ok b sp fl" and k: "k < 12"
    and new: "flinks.dll (frames_of sp') h xs" "set xs \<subseteq> zone_pages b"
      "\<And>j. j < 12 \<Longrightarrow> j \<noteq> k \<Longrightarrow> set (fl j) \<inter> set xs = {}"
    and other: "\<And>j p. j < 12 \<Longrightarrow> j \<noteq> k \<Longrightarrow> p \<in> set (fl j) \<Longrightarrow> frames_of sp' p = frames_of sp p"
  shows "lists_ok (b\<lparr>b_free := (b_free b)[k := h]\<rparr>) sp' (fl(k := xs))"
proof -
  have len: "length (b_free b) = 12" using ok by (simp add: lists_ok_def)
  have "flinks.dll (frames_of sp') ((b_free b)[k := h] ! j) ((fl(k := xs)) j)" if j: "j < 12" for j
  proof (cases "j = k")
    case True
    then show ?thesis using new(1) len k by simp
  next
    case False
    then show ?thesis using flinks.dll_cong[OF lists_okD(1)[OF ok j]] other[OF j] by simp
  qed
  moreover have "listed (fl(k := xs)) \<subseteq> zone_pages b"
  proof -
    have "listed (fl(k := xs)) \<subseteq> listed fl \<union> set xs" by (auto simp: listed_def split: if_splits)
    then show ?thesis using ok new(2) unfolding lists_ok_def by blast
  qed
  moreover have "set ((fl(k := xs)) i) \<inter> set ((fl(k := xs)) j) = {}" if "i < 12" "j < 12" "i \<noteq> j" for i j
    using that new(3)[of i] new(3)[of j] ok by (auto simp: lists_ok_def)
  ultimately show ?thesis using len by (auto simp: lists_ok_def zone_pages_def in_range_def)
qed

text \<open>The guarded writes to a neighbour are the relinking steps of the list theory.\<close>

lemma relink_prv_run:
  assumes "sparse_wf sp" "m = INVALID_PFN \<or> frames_of sp m \<noteq> None"
  shows "\<exists>sp'. (if m \<noteq> INVALID_PFN then frame_modify m (\<lambda>f. f\<lparr>f_prev_free := p\<rparr>) sp else Some sp) = Some sp'
     \<and> sparse_wf sp' \<and> sparse_geom sp' = sparse_geom sp \<and> frames_of sp' = flinks.relink_prv m p (frames_of sp)"
proof (cases "m = INVALID_PFN")
  case False
  then obtain f where f: "frames_of sp m = Some f" using assms(2) by auto
  show ?thesis
    using frame_modify_ok[OF assms(1) f, of "\<lambda>f. f\<lparr>f_prev_free := p\<rparr>"] False f by (simp add: flinks.relink_prv_def)
qed (use assms in \<open>simp add: flinks.relink_prv_def\<close>)

lemma relink_nxt_run:
  assumes "sparse_wf sp" "m \<noteq> INVALID_PFN" "frames_of sp m \<noteq> None"
  shows "\<exists>sp'. frame_modify m (\<lambda>f. f\<lparr>f_next_free := p\<rparr>) sp = Some sp'
     \<and> sparse_wf sp' \<and> sparse_geom sp' = sparse_geom sp \<and> frames_of sp' = flinks.relink_nxt m p (frames_of sp)"
proof -
  obtain f where f: "frames_of sp m = Some f" using assms(3) by auto
  show ?thesis
    using frame_modify_ok[OF assms(1) f, of "\<lambda>f. f\<lparr>f_next_free := p\<rparr>"] assms(2) f by (simp add: flinks.relink_nxt_def)
qed

lemma cores_relink:
  "m = INVALID_PFN \<or> fr m \<noteq> None \<Longrightarrow> map_option core (flinks.relink_prv m p fr q) = map_option core (fr q)"
  "m = INVALID_PFN \<or> fr m \<noteq> None \<Longrightarrow> map_option core (flinks.relink_nxt m p fr q) = map_option core (fr q)"
  by (auto simp: flinks.relink_prv_def flinks.relink_nxt_def)

lemma push_free_ok:
  assumes wf: "sparse_wf sp" and ok: "lists_ok b sp fl" and k: "k < 12"
    and f: "frames_of sp head = Some f" and z: "head \<in> zone_pages b" "head \<noteq> INVALID_PFN" and fresh: "head \<notin> listed fl"
  shows "\<exists>sp'. push_free head k (b, sp) = Some (b\<lparr>b_free := (b_free b)[k := head]\<rparr>, sp')
     \<and> within (zone_pages b) sp sp' \<and> lists_ok (b\<lparr>b_free := (b_free b)[k := head]\<rparr>) sp' (fl(k := head # fl k))
     \<and> cores sp' = (cores sp)(head \<mapsto> (core f)\<lparr>f_tag := Free, f_order := k\<rparr>)"
proof -
  define old where "old = b_free b ! k"
  note L = lists_okD[OF ok k]
  have fr: "head \<notin> set (fl j)" if "j < 12" for j using fresh that by (auto simp: listed_def)
  let ?g = "\<lambda>f. f\<lparr>f_tag := Free, f_order := k mod 256, f_prev_free := INVALID_PFN, f_next_free := old\<rparr>"
  obtain sp1 where s1: "frame_modify head ?g sp = Some sp1" "sparse_wf sp1" "sparse_geom sp1 = sparse_geom sp"
      "frames_of sp1 = (frames_of sp)(head \<mapsto> ?g f)"
    using frame_modify_ok[OF wf f] by blast
  have dl: "flinks.dll (flinks.relink_prv old head (frames_of sp1)) head (head # fl k)"
    unfolding s1(4) using flinks.dll_push[OF L(1), of head "?g f"] z(2) fr[OF k] by (simp add: old_def)
  have old_in: "old = INVALID_PFN \<or> old \<in> set (fl k) \<and> old \<noteq> head \<and> (\<exists>m. frames_of sp1 old = Some m)"
  proof (cases "fl k")
    case Nil
    then show ?thesis using L(1) by (simp add: old_def)
  next
    case (Cons y ys)
    then have "old = y" using L(1) by (simp add: flinks.dll_def old_def)
    then show ?thesis using flinks.dll_dom[OF L(1), of y] Cons fr[OF k] s1(4) by auto
  qed
  obtain sp2 where s2: "(if old \<noteq> INVALID_PFN then frame_modify old (\<lambda>f. f\<lparr>f_prev_free := head\<rparr>) sp1 else Some sp1) = Some sp2"
      "sparse_wf sp2" "sparse_geom sp2 = sparse_geom sp1" "frames_of sp2 = flinks.relink_prv old head (frames_of sp1)"
    using relink_prv_run[OF s1(2), of old head] old_in by auto
  have run: "push_free head k (b, sp) = Some (b\<lparr>b_free := (b_free b)[k := head]\<rparr>, sp2)"
    using L(3) s1(1) s2(1) by (simp add: push_free_def old_def split: if_splits)
  have same: "frames_of sp2 p = frames_of sp p" if "p \<noteq> head" "p \<noteq> old" for p
    using that s2(4) s1(4) by (simp add: flinks.relink_other)
  have "within (zone_pages b) sp sp2"
    using s1 s2 same z(1) old_in L(2) by (auto simp: within_def flinks.relink_prv_def)
  moreover have "lists_ok (b\<lparr>b_free := (b_free b)[k := head]\<rparr>) sp2 (fl(k := head # fl k))"
  proof (rule lists_ok_upd[OF ok k])
    show "frames_of sp2 p = frames_of sp p" if "j < 12" "j \<noteq> k" "p \<in> set (fl j)" for j p
      using that same[of p] fr[OF that(1)] old_in L(4)[OF that(1,2)] s2(4) s1(4) by (auto simp: flinks.relink_prv_def)
  qed (use dl s2(4) L z fr in auto)
  moreover have "cores sp2 = (cores sp)(head \<mapsto> (core f)\<lparr>f_tag := Free, f_order := k\<rparr>)"
    using s2(4) s1(4) old_in k by (auto simp: cores_def fun_eq_iff flinks.relink_prv_def)
  ultimately show ?thesis using run by blast
qed

lemma unlink_ok:
  assumes wf: "sparse_wf sp" and ok: "lists_ok b sp fl" and k: "k < 12" and fl: "fl k = xs @ head # ys"
    and s1: "sparse_wf sp1" "sparse_geom sp1 = sparse_geom sp" "frames_of sp1 = (frames_of sp)(head \<mapsto> g)"
    and f: "frames_of sp head = Some f" "core g = core f"
  defines "pv \<equiv> flinks.last_or INVALID_PFN xs" and "nx \<equiv> flinks.head_or INVALID_PFN ys"
  shows "\<exists>sp2 sp3. (if pv \<noteq> INVALID_PFN then frame_modify pv (\<lambda>f. f\<lparr>f_next_free := nx\<rparr>) sp1 else Some sp1) = Some sp2
     \<and> (if nx \<noteq> INVALID_PFN then frame_modify nx (\<lambda>f. f\<lparr>f_prev_free := pv\<rparr>) sp2 else Some sp2) = Some sp3
     \<and> within (zone_pages b) sp sp3 \<and> cores sp3 = cores sp
     \<and> lists_ok (b\<lparr>b_free := (b_free b)[k := flinks.head_or nx xs]\<rparr>) sp3 (fl(k := xs @ ys))"
proof -
  note L = lists_okD[OF ok k]
  have dist: "distinct (xs @ head # ys)" using L(1) fl by (simp add: flinks.dll_def)
  have dom: "frames_of sp p \<noteq> None" "p \<noteq> INVALID_PFN" if "p \<in> set (fl k)" for p
    using flinks.dll_dom[OF L(1) that] by auto
  have pv: "pv = INVALID_PFN \<or> pv \<in> set xs"
    by (cases xs rule: rev_cases) (auto simp: pv_def flinks.last_or_def)
  have nx: "nx = INVALID_PFN \<or> nx \<in> set ys" by (cases ys) (auto simp: nx_def)
  have dom1: "frames_of sp1 p \<noteq> None" if "p \<in> set (fl k)" for p using dom(1)[OF that] s1(3) by simp
  obtain sp2 where s2: "(if pv \<noteq> INVALID_PFN then frame_modify pv (\<lambda>f. f\<lparr>f_next_free := nx\<rparr>) sp1 else Some sp1) = Some sp2"
      "sparse_wf sp2" "sparse_geom sp2 = sparse_geom sp1" "frames_of sp2 = flinks.relink_nxt pv nx (frames_of sp1)"
  proof (cases "pv = INVALID_PFN")
    case True
    then show ?thesis using that s1 by (simp add: flinks.relink_nxt_def)
  next
    case False
    then have "frames_of sp1 pv \<noteq> None" using pv dom1 fl by auto
    then show ?thesis using that relink_nxt_run[OF s1(1) False] False by auto
  qed
  have dom2: "frames_of sp2 p \<noteq> None" if "p \<in> set (fl k)" for p
    using dom1[OF that] s2(4) by (simp add: flinks.relink_nxt_def)
  obtain sp3 where s3: "(if nx \<noteq> INVALID_PFN then frame_modify nx (\<lambda>f. f\<lparr>f_prev_free := pv\<rparr>) sp2 else Some sp2) = Some sp3"
      "sparse_wf sp3" "sparse_geom sp3 = sparse_geom sp2" "frames_of sp3 = flinks.relink_prv nx pv (frames_of sp2)"
    using relink_prv_run[OF s2(2), of nx pv] nx dom2 fl by auto
  have same: "frames_of sp3 p = frames_of sp p" if "p \<noteq> INVALID_PFN" "p \<notin> set (fl k)" for p
  proof -
    have "p \<noteq> pv" "p \<noteq> nx" "p \<noteq> head" using that pv nx fl by auto
    then show ?thesis using s3(4) s2(4) s1(3) by (simp add: flinks.relink_other)
  qed
  have inv: "frames_of sp3 INVALID_PFN = frames_of sp INVALID_PFN"
  proof -
    have "head \<noteq> INVALID_PFN" using dom(2) fl by auto
    then show ?thesis using s3(4) s2(4) s1(3) by (auto simp: flinks.relink_prv_def flinks.relink_nxt_def)
  qed
  have "within (zone_pages b) sp sp3"
    unfolding within_def
  proof (intro conjI allI impI)
    fix p assume "p \<notin> zone_pages b"
    then show "frames_of sp3 p = frames_of sp p" using same[of p] inv L(2) by (cases "p = INVALID_PFN") auto
  qed (use s1 s2 s3 in simp_all)
  moreover have "cores sp3 = cores sp"
  proof (rule ext)
    fix q
    have "cores sp3 q = cores sp1 q"
      using cores_relink(1)[of nx "frames_of sp2" pv q] cores_relink(2)[of pv "frames_of sp1" nx q] nx pv dom1 dom2 fl
      by (auto simp: cores_def s3(4) s2(4))
    also have "\<dots> = cores sp q" using s1(3) f by (simp add: cores_def)
    finally show "cores sp3 q = cores sp q" .
  qed
  moreover have "lists_ok (b\<lparr>b_free := (b_free b)[k := flinks.head_or nx xs]\<rparr>) sp3 (fl(k := xs @ ys))"
  proof (rule lists_ok_upd[OF ok k])
    show "flinks.dll (frames_of sp3) (flinks.head_or nx xs) (xs @ ys)"
      using flinks.dll_unlink[OF L(1)[unfolded fl], of "Some g"] s3(4) s2(4) s1(3) by (simp add: pv_def nx_def)
    show "frames_of sp3 p = frames_of sp p" if "j < 12" "j \<noteq> k" "p \<in> set (fl j)" for j p
    proof -
      have "p \<notin> set (fl k)" using L(4)[OF that(1,2)] that(3) by auto
      then show ?thesis using same[of p] inv by (cases "p = INVALID_PFN") auto
    qed
    show "set (fl j) \<inter> set (xs @ ys) = {}" if "j < 12" "j \<noteq> k" for j using L(4)[OF that] fl by auto
    show "set (xs @ ys) \<subseteq> zone_pages b" using L(2) fl by auto
  qed
  ultimately show ?thesis using s2(1) s3(1) by blast
qed

lemma remove_free_ok:
  assumes wf: "sparse_wf sp" and ok: "lists_ok b sp fl" and k: "k < 12" and head: "head \<in> set (fl k)"
    and f: "frames_of sp head = Some f" "f_tag f = Free" "f_order f = k"
  shows "\<exists>h sp'. remove_free head k (b, sp) = Some (b\<lparr>b_free := (b_free b)[k := h]\<rparr>, sp')
     \<and> within (zone_pages b) sp sp' \<and> cores sp' = cores sp
     \<and> lists_ok (b\<lparr>b_free := (b_free b)[k := h]\<rparr>) sp' (fl(k := remove1 head (fl k)))"
proof -
  note L = lists_okD[OF ok k]
  obtain xs ys where fl: "fl k = xs @ head # ys" using split_list[OF head] by blast
  have dist: "distinct (xs @ head # ys)" using L(1) fl by (simp add: flinks.dll_def)
  let ?pv = "flinks.last_or INVALID_PFN xs" and ?nx = "flinks.head_or INVALID_PFN ys"
  have links: "f_prev_free f = ?pv" "f_next_free f = ?nx"
    using flinks.dll_links[OF L(1)[unfolded fl] f(1)] by simp_all
  let ?g = "\<lambda>f. f\<lparr>f_prev_free := INVALID_PFN, f_next_free := INVALID_PFN\<rparr>"
  obtain sp1 where s1: "frame_modify head ?g sp = Some sp1" "sparse_wf sp1" "sparse_geom sp1 = sparse_geom sp"
      "frames_of sp1 = (frames_of sp)(head \<mapsto> ?g f)"
    using frame_modify_ok[OF wf f(1)] by blast
  obtain sp2 sp3 where s2: "(if ?pv \<noteq> INVALID_PFN then frame_modify ?pv (\<lambda>f. f\<lparr>f_next_free := ?nx\<rparr>) sp1 else Some sp1) = Some sp2"
     "(if ?nx \<noteq> INVALID_PFN then frame_modify ?nx (\<lambda>f. f\<lparr>f_prev_free := ?pv\<rparr>) sp2 else Some sp2) = Some sp3"
     "within (zone_pages b) sp sp3" "cores sp3 = cores sp"
     "lists_ok (b\<lparr>b_free := (b_free b)[k := flinks.head_or ?nx xs]\<rparr>) sp3 (fl(k := xs @ ys))"
    using unlink_ok[OF wf ok k fl s1(2-4) f(1)] by auto
  have get: "frame_get sp head = Some f" using f(1) by (simp add: frame_get_eq[OF wf])
  have "remove_free head k (b, sp) = Some (b\<lparr>b_free := (b_free b)[k := flinks.head_or ?nx xs]\<rparr>, sp3)"
  proof (cases "?pv = INVALID_PFN")
    case True
    have "xs = []"
      using True flinks.dll_dom[OF L(1)] fl by (cases xs rule: rev_cases) (auto simp: flinks.last_or_def)
    then show ?thesis
      using get f s1(1) s2(1,2)[unfolded True] links[unfolded True] L(3)
      by (simp add: remove_free_def Let_def split: if_splits)
  next
    case False
    then have "xs \<noteq> []" by auto
    then have "(b_free b)[k := flinks.head_or ?nx xs] = b_free b"
      using L(1) fl by (cases xs) (auto simp: flinks.dll_def)
    then show ?thesis using False get f s1(1) s2(1,2) links by (simp add: remove_free_def Let_def split: if_splits)
  qed
  moreover have "remove1 head (fl k) = xs @ ys" using fl dist by (simp add: remove1_append)
  ultimately show ?thesis using s2 by auto
qed

lemma pop_free_ok:
  assumes wf: "sparse_wf sp" and ok: "lists_ok b sp fl" and k: "k < 12"
  shows "case fl k of
      [] \<Rightarrow> pop_free k (b, sp) = Some (None, b, sp)
    | head # xs \<Rightarrow> \<exists>h sp'. pop_free k (b, sp) = Some (Some head, b\<lparr>b_free := (b_free b)[k := h]\<rparr>, sp')
        \<and> within (zone_pages b) sp sp' \<and> cores sp' = cores sp
        \<and> lists_ok (b\<lparr>b_free := (b_free b)[k := h]\<rparr>) sp' (fl(k := xs))"
proof (cases "fl k")
  case Nil
  then show ?thesis using lists_okD[OF ok k] by (simp add: pop_free_def)
next
  case (Cons head xs)
  note L = lists_okD[OF ok k]
  have hd: "b_free b ! k = head" "head \<noteq> INVALID_PFN" using L(1) Cons by (auto simp: flinks.dll_def)
  obtain f where f: "frames_of sp head = Some f" using flinks.dll_dom[OF L(1), of head] Cons by auto
  let ?nx = "flinks.head_or INVALID_PFN xs"
  have nx: "f_next_free f = ?nx" using flinks.dll_links(2)[of "frames_of sp" head "[]" head xs f] L(1) Cons hd f by simp
  let ?g = "\<lambda>f. f\<lparr>f_prev_free := INVALID_PFN, f_next_free := INVALID_PFN\<rparr>"
  obtain sp1 where s1: "frame_modify head ?g sp = Some sp1" "sparse_wf sp1" "sparse_geom sp1 = sparse_geom sp"
      "frames_of sp1 = (frames_of sp)(head \<mapsto> ?g f)"
    using frame_modify_ok[OF wf f] by blast
  obtain sp3 where s3: "(if ?nx \<noteq> INVALID_PFN then frame_modify ?nx (\<lambda>f. f\<lparr>f_prev_free := INVALID_PFN\<rparr>) sp1 else Some sp1) = Some sp3"
     "within (zone_pages b) sp sp3" "cores sp3 = cores sp"
     "lists_ok (b\<lparr>b_free := (b_free b)[k := ?nx]\<rparr>) sp3 (fl(k := xs))"
    using unlink_ok[OF wf ok k, of "[]" head xs, OF _ s1(2-4) f] Cons
    unfolding flinks.last_or_simps flinks.head_or_simps append_Nil by auto
  have get: "frame_get sp head = Some f" using f by (simp add: frame_get_eq[OF wf])
  have "pop_free k (b, sp) = Some (Some head, b\<lparr>b_free := (b_free b)[k := ?nx]\<rparr>, sp3)"
    using L(3) hd get nx s1(1) s3(1) by (simp add: pop_free_def Let_def split: if_splits)
  then show ?thesis using Cons s3 by auto
qed

subsection \<open>Marking blocks\<close>

abbreviation block :: "Pfn \<Rightarrow> nat \<Rightarrow> nat set" where
  "block p k \<equiv> {p ..< p + 2 ^ k}"

definition mark_cores :: "Pfn \<Rightarrow> nat \<Rightarrow> (Pfn \<Rightarrow> Frame option) \<Rightarrow> Pfn \<Rightarrow> Frame option" where
  "mark_cores head k c q =
     (if q = head then map_option (\<lambda>f. f\<lparr>f_tag := Free, f_order := k\<rparr>) (c q)
      else if q \<in> block head k then map_option (\<lambda>f. f\<lparr>f_tag := Unused, f_order := 0\<rparr>) (c q) else c q)"

lemma order_pages_ok [simp]: "k < 12 \<Longrightarrow> order_pages k = Some (2 ^ k)"
  by (simp add: order_pages_def)

lemma mark_block_free_head_ok:
  assumes wf: "sparse_wf sp" and k: "k < 12" and le: "head + 2 ^ k \<le> USIZE_MAX"
    and blk: "\<And>q. q \<in> block head k \<Longrightarrow> in_range b q \<and> (\<exists>f. frames_of sp q = Some f \<and> f_state f = Usable)"
  shows "\<exists>sp'. mark_block_free_head b head k sp = Some sp' \<and> within (block head k) sp sp'
     \<and> cores sp' = mark_cores head k (cores sp)"
proof -
  have hin: "head \<in> block head k" by simp
  obtain f where f: "frames_of sp head = Some f" using blk[OF hin] by blast
  let ?g = "\<lambda>f. f\<lparr>f_tag := Free, f_order := k mod 256, f_prev_free := INVALID_PFN, f_next_free := INVALID_PFN\<rparr>"
  obtain sp1 where s1: "frame_modify head ?g sp = Some sp1" "sparse_wf sp1" "sparse_geom sp1 = sparse_geom sp"
      "frames_of sp1 = (frames_of sp)(head \<mapsto> ?g f)"
    using frame_modify_ok[OF wf f] by blast
  let ?body = "\<lambda>i sp. do { p \<leftarrow> u_add head i; rassert (in_range b p); f \<leftarrow> frame_get sp p;
         rassert (f_state f = Usable); frame_modify p frame_reset sp }"
  have loop: "\<exists>s'. for_each ?body [1..<2 ^ k] sp1 = Some s' \<and> sparse_wf s' \<and> sparse_geom s' = sparse_geom sp1
     \<and> frames_of s' = (\<lambda>q. if q \<in> (\<lambda>i. head + i) ` set [1..<2 ^ k] then map_option frame_reset (frames_of sp1 q) else frames_of sp1 q)"
  proof (rule fstore.for_modify[where key = "\<lambda>i. head + i", OF s1(2)])
    show "inj_on (\<lambda>i. head + i) (set [1..<2 ^ k])" by (rule inj_onI) (rule add_left_imp_eq)
    show "distinct [1..<2 ^ k]" by (rule distinct_upt)
    show "?body i t = (case frames_of sp1 (head + i) of None \<Rightarrow> Some t | Some v \<Rightarrow> frame_modify (head + i) frame_reset t)"
      if i: "i \<in> set [1..<2 ^ k]" and t: "sparse_wf t" "frames_of t (head + i) = frames_of sp1 (head + i)" for i t
    proof -
      have "head + i \<in> block head k" "head + i \<noteq> head" using i by auto
      then obtain v where v: "in_range b (head + i)" "frames_of sp1 (head + i) = Some v" "f_state v = Usable"
        using blk[of "head + i"] s1(4) by auto
      have "head + i \<le> USIZE_MAX" using i le by simp
      then show ?thesis using v t by (simp add: frame_get_eq)
    qed
  qed
  have im: "(\<lambda>i. head + i) ` set [1..<2 ^ k] = block head k - {head}"
  proof -
    have "q \<in> (\<lambda>i. head + i) ` set [1..<2 ^ k]" if "q \<in> block head k - {head}" for q
      using that by (intro image_eqI[of _ _ "q - head"]) auto
    then show ?thesis by auto
  qed
  obtain sp2 where s2: "for_each ?body [1..<2 ^ k] sp1 = Some sp2" "sparse_wf sp2" "sparse_geom sp2 = sparse_geom sp1"
      "frames_of sp2 = (\<lambda>q. if q \<in> block head k - {head} then map_option frame_reset (frames_of sp1 q) else frames_of sp1 q)"
    using loop[unfolded im] by blast
  have run: "mark_block_free_head b head k sp = Some sp2"
    using s1(1) s2(1) k by (simp add: mark_block_free_head_def)
  have "within (block head k) sp sp2" using s1 s2 by (auto simp: within_def)
  moreover have "cores sp2 = mark_cores head k (cores sp)"
  proof (rule ext)
    fix q
    have "core (frame_reset x) = (core x)\<lparr>f_tag := Unused, f_order := 0\<rparr>" for x
      by (simp add: frame_reset_def core_def)
    then show "cores sp2 q = mark_cores head k (cores sp) q"
      using s1(4) s2(4) f k by (auto simp: cores_def mark_cores_def option.map_comp o_def)
  qed
  ultimately show ?thesis using run by blast
qed

lemma mark_block_allocated_ok:
  assumes "sparse_wf sp" "k < 12" "frames_of sp head = Some f"
  shows "\<exists>sp'. mark_block_allocated head k sp = Some sp' \<and> within {head} sp sp'
     \<and> cores sp' = (cores sp)(head \<mapsto> (core f)\<lparr>f_tag := Allocated, f_order := k\<rparr>)"
proof -
  let ?g = "\<lambda>f. f\<lparr>f_tag := Allocated, f_order := k mod 256, f_prev_free := INVALID_PFN, f_next_free := INVALID_PFN\<rparr>"
  obtain sp1 where s1: "frame_modify head ?g sp = Some sp1" "sparse_wf sp1" "sparse_geom sp1 = sparse_geom sp"
      "frames_of sp1 = (frames_of sp)(head \<mapsto> ?g f)"
    using frame_modify_ok[OF assms(1,3)] by blast
  then show ?thesis using assms(2)
    by (auto simp: mark_block_allocated_def within_def cores_def fun_eq_iff)
qed

text \<open>Changing frames that no list holds leaves the lists as they are.\<close>

lemma lists_ok_within:
  assumes "lists_ok b sp fl" "within X sp sp'" "X \<inter> listed fl = {}"
  shows "lists_ok b sp' fl"
proof -
  have "flinks.dll (frames_of sp') (b_free b ! k) (fl k)" if k: "k < 12" for k
  proof (rule flinks.dll_cong[OF lists_okD(1)[OF assms(1) k]])
    fix x assume "x \<in> set (fl k)"
    then have "x \<in> listed fl" using k by (auto simp: listed_def)
    then show "frames_of sp' x = frames_of sp x" using assms(2,3) by (auto simp: within_def)
  qed
  then show ?thesis using assms(1) by (simp add: lists_ok_def)
qed

end
