(* ===== verification/Buddy_Blocks.thy ===== *)
theory Buddy_Blocks
  imports Buddy
begin

text \<open>
  The blocks of the buddy allocator: the invariant of a zone (heads, interiors, alignment, the free
  lists, the page counter and that no two free buddies stay apart), kept by splitting, merging,
  allocation, release and the hand-over of boot memory, and what each operation does to the free
  pages and the allocated blocks.
\<close>

subsection \<open>Blocks and buddies\<close>

definition geo :: "Buddy \<Rightarrow> bool" where
  "geo b \<longleftrightarrow> b_max_order b \<le> 11 \<and> 2 ^ b_max_order b dvd b_base_pfn b \<and> b_base_pfn b + b_pages b \<le> 2 ^ 52"

text \<open>The buddy of an aligned block, as an address.\<close>

definition bud :: "Buddy \<Rightarrow> Pfn \<Rightarrow> nat \<Rightarrow> Pfn" where
  "bud b p k = (if even ((p - b_base_pfn b) div 2 ^ k) then p + 2 ^ k else p - 2 ^ k)"

definition aligned :: "Buddy \<Rightarrow> Pfn \<Rightarrow> nat \<Rightarrow> bool" where
  "aligned b p k \<longleftrightarrow> b_base_pfn b \<le> p \<and> 2 ^ k dvd p - b_base_pfn b"

lemma alignedE:
  assumes "aligned b p k"
  obtains m where "p = b_base_pfn b + m * 2 ^ k"
proof -
  obtain m where "p - b_base_pfn b = 2 ^ k * m" using assms by (auto simp: aligned_def dvd_def)
  then have "p = b_base_pfn b + m * 2 ^ k" using assms by (simp add: aligned_def mult.commute)
  then show ?thesis by (rule that)
qed

lemma aligned_mult [simp]: "aligned b (b_base_pfn b + m * 2 ^ k) k"
  by (simp add: aligned_def)

lemma bud_mult: "bud b (b_base_pfn b + m * 2 ^ k) k = b_base_pfn b + (if even m then m + 1 else m - 1) * 2 ^ k"
  by (cases "even m") (auto simp: bud_def diff_mult_distrib elim!: oddE)

lemma bud_props:
  assumes "aligned b p k"
  shows "aligned b (bud b p k) k" "bud b (bud b p k) k = p" "bud b p k \<noteq> p"
    "aligned b (min p (bud b p k)) (Suc k)" "block (min p (bud b p k)) (Suc k) = block p k \<union> block (bud b p k) k"
    "block p k \<inter> block (bud b p k) k = {}"
proof -
  obtain m where m: "p = b_base_pfn b + m * 2 ^ k" using alignedE[OF assms] by blast
  note bm = m bud_mult
  show "aligned b (bud b p k) k" unfolding bm by simp
  show "bud b (bud b p k) k = p" unfolding bm by (cases "even m") (auto elim: oddE)
  show "bud b p k \<noteq> p" unfolding bm by (cases "even m") (auto elim: oddE)
  have mn: "min p (bud b p k) = b_base_pfn b + (m div 2) * 2 ^ Suc k"
    unfolding bm by (cases "even m") (auto elim!: evenE oddE simp: min_def)
  show "aligned b (min p (bud b p k)) (Suc k)" unfolding mn by (rule aligned_mult)
  show "block (min p (bud b p k)) (Suc k) = block p k \<union> block (bud b p k) k"
    unfolding mn unfolding bm by (cases "even m") (auto elim!: evenE oddE)
  show "block p k \<inter> block (bud b p k) k = {}"
    unfolding bm by (cases "even m") (auto elim!: evenE oddE)
qed

lemma xor_pow:
  assumes "2 ^ k dvd (l :: nat)"
  shows "l XOR 2 ^ k = (if even (l div 2 ^ k) then l + 2 ^ k else l - 2 ^ k)"
proof -
  have ev: "n XOR 2 ^ k = n + 2 ^ k" if "even (n div 2 ^ k)" for n :: nat
  proof -
    have "n XOR 2 ^ k = flip_bit k n" by (simp add: flip_bit_eq_xor)
    then show ?thesis using that by (simp add: flip_bit_eq_if set_bit_eq bit_iff_odd)
  qed
  show ?thesis
  proof (cases "even (l div 2 ^ k)")
    case False
    obtain m where m: "l = 2 ^ k * m" using assms by (auto simp: dvd_def)
    then have "odd m" using False by simp
    then obtain n where n: "m = Suc (2 * n)" by (auto elim: oddE)
    let ?l = "2 ^ k * (2 * n)"
    have l: "l = ?l + 2 ^ k" unfolding m n by simp
    have "?l XOR 2 ^ k = l" unfolding l by (rule ev) simp
    then have "l XOR 2 ^ k = ?l" by (metis xor.assoc xor_self_eq xor.right_neutral)
    then show ?thesis using False l by simp
  qed (simp add: ev)
qed

lemma buddy_of_ok:
  assumes g: "geo b" and k: "k < 12" and a: "aligned b p k" and le: "p \<le> b_base_pfn b + b_pages b"
  shows "buddy_of b p k = Some (if bud b p k + 2 ^ k \<le> b_base_pfn b + b_pages b then Some (bud b p k) else None)"
proof -
  let ?l = "p - b_base_pfn b"
  have l: "2 ^ k dvd ?l" "b_base_pfn b \<le> p" using a by (auto simp: aligned_def)
  have ab: "b_base_pfn b \<le> bud b p k" using bud_props(1)[OF a] by (simp add: aligned_def)
  have x: "?l XOR 2 ^ k = bud b p k - b_base_pfn b"
  proof (cases "even (?l div 2 ^ k)")
    case True
    then show ?thesis using l by (simp add: xor_pow bud_def)
  next
    case False
    then show ?thesis using l by (simp add: xor_pow bud_def)
  qed
  have pw: "(2::nat) ^ k \<le> 2 ^ 11" using k by (intro power_increasing) auto
  have top: "b_base_pfn b + b_pages b \<le> 2 ^ 52" using g by (simp add: geo_def)
  have bl: "bud b p k \<le> p + 2 ^ k" by (auto simp: bud_def intro: le_trans[OF diff_le_self])
  have "u_add (bud b p k - b_base_pfn b) (2 ^ k) = Some (bud b p k - b_base_pfn b + 2 ^ k)"
    "u_add (b_base_pfn b) (bud b p k - b_base_pfn b) = Some (bud b p k)"
    using bl le top pw ab by (auto simp: u_add_def USIZE_MAX_def)
  then show ?thesis
    using k l ab by (auto simp: buddy_of_def local_idx_def to_pfn_def x)
qed

subsection \<open>The block structure\<close>

definition block_ok :: "Buddy \<Rightarrow> (Pfn \<Rightarrow> Frame option) \<Rightarrow> Pfn \<Rightarrow> nat \<Rightarrow> bool" where
  "block_ok b c p k \<longleftrightarrow> k \<le> b_max_order b \<and> aligned b p k \<and> p + 2 ^ k \<le> b_base_pfn b + b_pages b
     \<and> (\<forall>q \<in> block p k. \<exists>g. c q = Some g \<and> f_state g = Usable \<and> (q \<noteq> p \<longrightarrow> f_tag g = Unused))"

definition heads_ok :: "Buddy \<Rightarrow> (Pfn \<Rightarrow> Frame option) \<Rightarrow> bool" where
  "heads_ok b c \<longleftrightarrow> (\<forall>p f. in_range b p \<longrightarrow> c p = Some f \<longrightarrow> f_tag f \<noteq> Unused \<longrightarrow> block_ok b c p (f_order f))"

definition blocks :: "Buddy \<Rightarrow> (Pfn \<Rightarrow> Frame option) \<Rightarrow> BuddyTag \<Rightarrow> (Pfn \<times> nat) set" where
  "blocks b c t = {(p, k). in_range b p \<and> (\<exists>f. c p = Some f \<and> f_tag f = t \<and> f_order f = k)}"

definition pages_in :: "(Pfn \<times> nat) set \<Rightarrow> Pfn set" where
  "pages_in B = (\<Union>(p, k) \<in> B. block p k)"

lemma in_range_iff: "in_range b p \<longleftrightarrow> b_base_pfn b \<le> p \<and> p < b_base_pfn b + b_pages b"
  by (auto simp: in_range_def)

lemma blocks_ok: "heads_ok b c \<Longrightarrow> (p, k) \<in> blocks b c t \<Longrightarrow> t \<noteq> Unused \<Longrightarrow> block_ok b c p k"
  by (auto simp: heads_ok_def blocks_def)

lemma block_ok_range: "block_ok b c p k \<Longrightarrow> q \<in> block p k \<Longrightarrow> in_range b q"
  by (auto simp: block_ok_def aligned_def in_range_iff)

lemma block_okD: "block_ok b c p k \<Longrightarrow> q \<in> block p k \<Longrightarrow> \<exists>g. c q = Some g \<and> f_state g = Usable \<and> (q \<noteq> p \<longrightarrow> f_tag g = Unused)"
  by (simp add: block_ok_def)

lemma blocks_disjoint:
  assumes "heads_ok b c" "(p, k) \<in> blocks b c t" "(q, j) \<in> blocks b c u" "t \<noteq> Unused" "u \<noteq> Unused" "p \<noteq> q"
  shows "block p k \<inter> block q j = {}"
proof -
  have bp: "block_ok b c p k" and bq: "block_ok b c q j" using assms blocks_ok by blast+
  have "q \<notin> block p k"
  proof
    assume "q \<in> block p k"
    then obtain g where "c q = Some g" "f_tag g = Unused" using block_okD[OF bp, of q] assms(6) by auto
    then show False using assms(3,5) by (auto simp: blocks_def)
  qed
  moreover have "p \<notin> block q j"
  proof
    assume "p \<in> block q j"
    then obtain g where "c p = Some g" "f_tag g = Unused" using block_okD[OF bq, of p] assms(6) by auto
    then show False using assms(2,4) by (auto simp: blocks_def)
  qed
  ultimately show ?thesis using assms(6) by auto
qed

text \<open>
  Replacing what lies in a set of pages that no outside block enters keeps the structure.
\<close>

lemma heads_ok_replace:
  assumes ok: "heads_ok b c" and same: "\<And>p. p \<notin> S \<Longrightarrow> c' p = c p"
    and inside: "\<And>p f. p \<in> S \<Longrightarrow> in_range b p \<Longrightarrow> c' p = Some f \<Longrightarrow> f_tag f \<noteq> Unused \<Longrightarrow> block_ok b c' p (f_order f)"
    and outside: "\<And>p k t. (p, k) \<in> blocks b c t \<Longrightarrow> t \<noteq> Unused \<Longrightarrow> p \<notin> S \<Longrightarrow> block p k \<inter> S = {}"
  shows "heads_ok b c'"
  unfolding heads_ok_def
proof (intro allI impI)
  fix p f assume p: "in_range b p" "c' p = Some f" "f_tag f \<noteq> Unused"
  show "block_ok b c' p (f_order f)"
  proof (cases "p \<in> S")
    case True
    then show ?thesis using inside p by blast
  next
    case False
    then have "(p, f_order f) \<in> blocks b c (f_tag f)" using p same[of p] by (simp add: blocks_def)
    then have "block p (f_order f) \<inter> S = {}" "block_ok b c p (f_order f)"
      using outside p(3) False blocks_ok[OF ok] by blast+
    moreover from this have "c' q = c q" if "q \<in> block p (f_order f)" for q using same[of q] that by blast
    ultimately show ?thesis unfolding block_ok_def by metis
  qed
qed

lemma blocks_replace:
  assumes "\<And>p. p \<notin> S \<Longrightarrow> c' p = c p"
  shows "blocks b c' t = {x \<in> blocks b c t. fst x \<notin> S} \<union> {x \<in> blocks b c' t. fst x \<in> S}"
  using assms by (auto simp: blocks_def)

definition st_zone :: "(Pfn \<Rightarrow> Frame option) \<Rightarrow> Pfn \<Rightarrow> (FrameState \<times> ZoneId) option" where
  "st_zone c p = map_option (\<lambda>f. (f_state f, f_zone f)) (c p)"

lemma mark_cores_st_zone [simp]: "st_zone (mark_cores h k c) = st_zone c"
  by (auto simp: st_zone_def mark_cores_def fun_eq_iff option.map_comp o_def)

text \<open>A block marked free has one head.\<close>

lemma mark_cores_block_ok:
  assumes "k \<le> b_max_order b" "aligned b h k" "h + 2 ^ k \<le> b_base_pfn b + b_pages b"
    and us: "\<forall>q \<in> block h k. \<exists>g. c q = Some g \<and> f_state g = Usable"
  shows "block_ok b (mark_cores h k c) h k"
    "\<And>p f. p \<in> block h k \<Longrightarrow> mark_cores h k c p = Some f \<Longrightarrow> f_tag f \<noteq> Unused \<Longrightarrow> p = h \<and> f_order f = k \<and> f_tag f = Free"
proof -
  have "\<exists>g. mark_cores h k c q = Some g \<and> f_state g = Usable \<and> (q \<noteq> h \<longrightarrow> f_tag g = Unused)" if "q \<in> block h k" for q
  proof -
    obtain g where "c q = Some g" "f_state g = Usable" using us \<open>q \<in> block h k\<close> by blast
    then show ?thesis using that by (auto simp: mark_cores_def)
  qed
  then show "block_ok b (mark_cores h k c) h k"
    unfolding block_ok_def using assms by blast
qed (auto simp: mark_cores_def split: if_splits)

lemma mark_cores_heads_ok:
  assumes ok: "heads_ok b c" and blk: "k \<le> b_max_order b" "aligned b h k" "h + 2 ^ k \<le> b_base_pfn b + b_pages b"
      "\<forall>q \<in> block h k. \<exists>g. c q = Some g \<and> f_state g = Usable"
    and outside: "\<And>p j t. (p, j) \<in> blocks b c t \<Longrightarrow> t \<noteq> Unused \<Longrightarrow> p \<notin> block h k \<Longrightarrow> block p j \<inter> block h k = {}"
  shows "heads_ok b (mark_cores h k c)"
    "blocks b (mark_cores h k c) Free = {x \<in> blocks b c Free. fst x \<notin> block h k} \<union> {(h, k)}"
    "blocks b (mark_cores h k c) Allocated = {x \<in> blocks b c Allocated. fst x \<notin> block h k}"
proof -
  note mc = mark_cores_block_ok[OF blk]
  have same: "mark_cores h k c p = c p" if "p \<notin> block h k" for p using that by (auto simp: mark_cores_def)
  show "heads_ok b (mark_cores h k c)"
  proof (rule heads_ok_replace[OF ok same _ outside])
    show "block_ok b (mark_cores h k c) p (f_order f)"
      if "p \<in> block h k" "mark_cores h k c p = Some f" "f_tag f \<noteq> Unused" for p f
      using mc(2)[OF that] mc(1) by simp
  qed
  have h: "in_range b h" using block_ok_range[OF mc(1), of h] by simp
  have ins: "{x \<in> blocks b (mark_cores h k c) t. fst x \<in> block h k} = (if t = Free then {(h, k)} else {})" if "t \<noteq> Unused" for t
  proof (rule set_eqI)
    fix x :: "Pfn \<times> nat"
    obtain p j where x: "x = (p, j)" by (cases x)
    obtain g where g: "c h = Some g" using blk(4) by force
    show "x \<in> {x \<in> blocks b (mark_cores h k c) t. fst x \<in> block h k} \<longleftrightarrow> x \<in> (if t = Free then {(h, k)} else {})"
    proof
      assume "x \<in> {x \<in> blocks b (mark_cores h k c) t. fst x \<in> block h k}"
      then obtain f where "p \<in> block h k" "mark_cores h k c p = Some f" "f_tag f = t" "f_order f = j"
        by (auto simp: blocks_def x)
      then show "x \<in> (if t = Free then {(h, k)} else {})" using mc(2)[of p f] that x by auto
    next
      assume "x \<in> (if t = Free then {(h, k)} else {})"
      then have "x = (h, k)" "t = Free" by (auto split: if_splits)
      then show "x \<in> {x \<in> blocks b (mark_cores h k c) t. fst x \<in> block h k}"
        using h g by (auto simp: blocks_def mark_cores_def)
    qed
  qed
  have eq: "blocks b (mark_cores h k c) t = {x \<in> blocks b c t. fst x \<notin> block h k}
      \<union> {x \<in> blocks b (mark_cores h k c) t. fst x \<in> block h k}" for t
    by (rule blocks_replace[OF same])
  show "blocks b (mark_cores h k c) Free = {x \<in> blocks b c Free. fst x \<notin> block h k} \<union> {(h, k)}"
    by (rule trans[OF eq]) (subst ins, simp_all)
  show "blocks b (mark_cores h k c) Allocated = {x \<in> blocks b c Allocated. fst x \<notin> block h k}"
    by (rule trans[OF eq]) (subst ins, simp_all)
qed

subsection \<open>Merging two buddies\<close>

lemma blocks_unique: "(p, k) \<in> blocks b c t \<Longrightarrow> (p, j) \<in> blocks b c u \<Longrightarrow> t = u \<and> k = j"
  by (auto simp: blocks_def)

text \<open>A head inside a block is the head of that block.\<close>

lemma head_in_block:
  assumes "heads_ok b c" "(p, k) \<in> blocks b c t" "(q, j) \<in> blocks b c u" "t \<noteq> Unused" "u \<noteq> Unused" "q \<in> block p k"
  shows "q = p"
  using blocks_disjoint[OF assms(1-5)] assms(6) by auto

lemma merge_blocks:
  assumes ok: "heads_ok b c" and p: "(p, k) \<in> blocks b c Free" and q: "(bud b p k, k) \<in> blocks b c Free"
    and k: "k < b_max_order b"
  defines "q \<equiv> bud b p k" and "h \<equiv> min p (bud b p k)"
  shows "heads_ok b (mark_cores h (Suc k) c)"
    "blocks b (mark_cores h (Suc k) c) Free = blocks b c Free - {(p, k), (q, k)} \<union> {(h, Suc k)}"
    "blocks b (mark_cores h (Suc k) c) Allocated = blocks b c Allocated"
    "block h (Suc k) = block p k \<union> block q k"
    "\<forall>r \<in> block h (Suc k). in_range b r \<and> (\<exists>g. c r = Some g \<and> f_state g = Usable)"
    "h + 2 ^ Suc k \<le> b_base_pfn b + b_pages b"
proof -
  have bp: "block_ok b c p k" and bq: "block_ok b c q k" using blocks_ok[OF ok] p q by (auto simp: q_def)
  have al: "aligned b p k" using bp by (simp add: block_ok_def)
  note bd = bud_props[OF al]
  show S: "block h (Suc k) = block p k \<union> block q k" using bd(5) by (simp only: h_def q_def)
  show us: "\<forall>r \<in> block h (Suc k). in_range b r \<and> (\<exists>g. c r = Some g \<and> f_state g = Usable)"
    unfolding S using block_ok_range[OF bp] block_ok_range[OF bq] block_okD[OF bp] block_okD[OF bq] by blast
  show fits: "h + 2 ^ Suc k \<le> b_base_pfn b + b_pages b"
  proof -
    have "(1::nat) \<le> 2 ^ Suc k" by (rule one_le_power) simp
    then have "h + 2 ^ Suc k - 1 \<in> block h (Suc k)" unfolding atLeastLessThan_iff by linarith
    then have "in_range b (h + 2 ^ Suc k - 1)" using us by blast
    then show ?thesis by (auto simp: in_range_iff)
  qed
  have heads: "r = p \<or> r = q" if "(r, j) \<in> blocks b c t" "t \<noteq> Unused" "r \<in> block h (Suc k)" for r j t
    using that head_in_block[OF ok p that(1)] head_in_block[OF ok q that(1)] unfolding S q_def[symmetric] by auto
  have inS: "p \<in> block h (Suc k)" "q \<in> block h (Suc k)" unfolding S by auto
  have outside: "block r j \<inter> block h (Suc k) = {}"
    if "(r, j) \<in> blocks b c t" "t \<noteq> Unused" "r \<notin> block h (Suc k)" for r j t
  proof -
    have "r \<noteq> p" "r \<noteq> q" using that(3) inS by auto
    then show ?thesis
      using blocks_disjoint[OF ok that(1) p] blocks_disjoint[OF ok that(1) q] that(2) unfolding S q_def by auto
  qed
  have "aligned b h (Suc k)" using bd(4) by (simp only: h_def)
  note mc = mark_cores_heads_ok[OF ok _ this fits _ outside]
  have us': "\<forall>r \<in> block h (Suc k). \<exists>g. c r = Some g \<and> f_state g = Usable" using us by blast
  show "heads_ok b (mark_cores h (Suc k) c)" using mc(1)[OF _ us'] k by simp
  have "{x \<in> blocks b c Free. fst x \<notin> block h (Suc k)} = blocks b c Free - {(p, k), (q, k)}"
  proof (rule set_eqI)
    fix x :: "Pfn \<times> nat"
    obtain r j where x: "x = (r, j)" by (cases x)
    show "x \<in> {x \<in> blocks b c Free. fst x \<notin> block h (Suc k)} \<longleftrightarrow> x \<in> blocks b c Free - {(p, k), (q, k)}"
    proof
      assume "x \<in> {x \<in> blocks b c Free. fst x \<notin> block h (Suc k)}"
      then show "x \<in> blocks b c Free - {(p, k), (q, k)}" using inS x by auto
    next
      assume a: "x \<in> blocks b c Free - {(p, k), (q, k)}"
      have "r \<notin> block h (Suc k)"
      proof
        assume "r \<in> block h (Suc k)"
        then have "r = p \<or> r = q" using heads[of r j Free] a x by auto
        moreover have "j = k" if "r = p \<or> r = q" using that blocks_unique[OF _ p] blocks_unique[OF _ q] a x q_def by blast
        ultimately show False using a x by auto
      qed
      then show "x \<in> {x \<in> blocks b c Free. fst x \<notin> block h (Suc k)}" using a x by simp
    qed
  qed
  then show "blocks b (mark_cores h (Suc k) c) Free = blocks b c Free - {(p, k), (q, k)} \<union> {(h, Suc k)}"
    using mc(2)[OF _ us'] k by simp
  have "r \<notin> block h (Suc k)" if "(r, j) \<in> blocks b c Allocated" for r j
  proof
    assume "r \<in> block h (Suc k)"
    then have "r = p \<or> r = q" using heads[OF that] by auto
    then show False using blocks_unique[OF that, of _ Free] p q q_def by auto
  qed
  then have "{x \<in> blocks b c Allocated. fst x \<notin> block h (Suc k)} = blocks b c Allocated" by auto
  then show "blocks b (mark_cores h (Suc k) c) Allocated = blocks b c Allocated"
    using mc(3)[OF _ us'] k by simp
qed

subsection \<open>The invariant of the allocator's structure\<close>

definition listed_ok :: "Buddy \<Rightarrow> (Pfn \<Rightarrow> Frame option) \<Rightarrow> (nat \<Rightarrow> Pfn list) \<Rightarrow> bool" where
  "listed_ok b c fl \<longleftrightarrow> (\<forall>k < 12. \<forall>p. p \<in> set (fl k) \<longleftrightarrow> (p, k) \<in> blocks b c Free)"

definition struct_inv :: "Buddy \<Rightarrow> SparseMem \<Rightarrow> (nat \<Rightarrow> Pfn list) \<Rightarrow> bool" where
  "struct_inv b sp fl \<longleftrightarrow> geo b \<and> sparse_wf sp \<and> lists_ok b sp fl \<and> heads_ok b (cores sp) \<and> listed_ok b (cores sp) fl"

text \<open>No two free buddies below the largest order, other than through a page of \<open>H\<close>.\<close>

definition coalesced :: "Buddy \<Rightarrow> (Pfn \<Rightarrow> Frame option) \<Rightarrow> Pfn set \<Rightarrow> bool" where
  "coalesced b c H \<longleftrightarrow> (\<forall>p k. (p, k) \<in> blocks b c Free \<longrightarrow> (bud b p k, k) \<in> blocks b c Free \<longrightarrow> k < b_max_order b
     \<longrightarrow> p \<in> H \<or> bud b p k \<in> H)"

definition same_zone :: "Buddy \<Rightarrow> Buddy \<Rightarrow> bool" where
  "same_zone b b' \<longleftrightarrow> b_base_pfn b' = b_base_pfn b \<and> b_pages b' = b_pages b \<and> b_max_order b' = b_max_order b"

lemma same_zone_cong:
  assumes "same_zone b b'"
  shows "in_range b' = in_range b" "zone_pages b' = zone_pages b" "blocks b' = blocks b" "block_ok b' = block_ok b"
    "heads_ok b' = heads_ok b" "listed_ok b' = listed_ok b" "geo b' = geo b" "bud b' = bud b" "coalesced b' = coalesced b"
    "b_max_order b' = b_max_order b"
proof -
  note z = assms[unfolded same_zone_def]
  show r: "in_range b' = in_range b" using z by (simp add: in_range_def fun_eq_iff)
  show "zone_pages b' = zone_pages b" using r by (simp add: zone_pages_def)
  show bl: "blocks b' = blocks b" using r by (simp add: blocks_def fun_eq_iff)
  show bk: "block_ok b' = block_ok b" using z by (simp add: block_ok_def aligned_def fun_eq_iff)
  show "heads_ok b' = heads_ok b" using r bk by (simp add: heads_ok_def fun_eq_iff)
  show "listed_ok b' = listed_ok b" using bl by (simp add: listed_ok_def fun_eq_iff)
  show "geo b' = geo b" using z by (simp add: geo_def)
  show bu: "bud b' = bud b" using z by (simp add: bud_def fun_eq_iff)
  show "coalesced b' = coalesced b" using z bl bu by (simp add: coalesced_def fun_eq_iff)
qed (use assms in \<open>simp add: same_zone_def\<close>)

lemma same_zone_refl [simp]: "same_zone b b" "same_zone b (b\<lparr>b_free := f\<rparr>)" "same_zone b (b\<lparr>b_free_pages := n\<rparr>)"
  by (simp_all add: same_zone_def)

lemma same_zone_trans: "same_zone a b \<Longrightarrow> same_zone b c \<Longrightarrow> same_zone a c"
  by (simp add: same_zone_def)

lemma frames_of_cores: "cores sp p = Some g \<Longrightarrow> \<exists>f. frames_of sp p = Some f \<and> core f = g"
  by (auto simp: cores_def)

lemma struct_frame:
  assumes "struct_inv b sp fl" "(p, k) \<in> blocks b (cores sp) t"
  shows "\<exists>f. frames_of sp p = Some f \<and> f_tag f = t \<and> f_order f = k"
  using assms(2) by (auto simp: blocks_def dest!: frames_of_cores)

lemma struct_order: "struct_inv b sp fl \<Longrightarrow> (p, k) \<in> blocks b (cores sp) t \<Longrightarrow> t \<noteq> Unused \<Longrightarrow> k < 12 \<and> k \<le> b_max_order b"
  using blocks_ok[of b "cores sp" p k t] by (auto simp: struct_inv_def block_ok_def geo_def)

lemma listed_iff:
  assumes "struct_inv b sp fl"
  shows "p \<in> listed fl \<longleftrightarrow> (\<exists>k. (p, k) \<in> blocks b (cores sp) Free)"
proof -
  have "p \<in> set (fl k) \<longleftrightarrow> (p, k) \<in> blocks b (cores sp) Free" if "k < 12" for k
    using assms that by (simp add: struct_inv_def listed_ok_def)
  then show ?thesis using struct_order[OF assms, of p _ Free] unfolding listed_def by blast
qed

lemma is_free_head_eq:
  assumes "sparse_wf sp"
  shows "is_free_head sp b p k = Some ((p, k) \<in> blocks b (cores sp) Free)"
proof (cases "in_range b p \<and> frames_of sp p \<noteq> None")
  case True
  then obtain f where "frames_of sp p = Some f" by auto
  then show ?thesis using True frame_load_ok[OF assms] by (auto simp: is_free_head_def pfn_to_frame_eq blocks_def cores_def)
next
  case False
  then show ?thesis by (auto simp: is_free_head_def pfn_to_frame_eq blocks_def cores_def)
qed

lemma INVALID_PFN_big: "geo b \<Longrightarrow> in_range b p \<Longrightarrow> p \<noteq> INVALID_PFN"
  by (auto simp: geo_def in_range_iff INVALID_PFN_def USIZE_MAX_def)

subsection \<open>Coalescing\<close>

lemma within_mono: "within X sp sp' \<Longrightarrow> X \<subseteq> Y \<Longrightarrow> within Y sp sp'"
  by (auto simp: within_def)

lemma mark_push_ok:
  assumes geo: "geo b" and wf: "sparse_wf sp" and lists: "lists_ok b sp fl" and k: "k < 12"
    and le: "h + 2 ^ k \<le> b_base_pfn b + b_pages b"
    and blk: "\<forall>r \<in> block h k. in_range b r \<and> (\<exists>g. cores sp r = Some g \<and> f_state g = Usable)"
    and fresh: "block h k \<inter> listed fl = {}"
  shows "\<exists>sp1 b' sp'. mark_block_free_head b h k sp = Some sp1 \<and> push_free h k (b, sp1) = Some (b', sp')
     \<and> b' = b\<lparr>b_free := (b_free b)[k := h]\<rparr> \<and> within (zone_pages b) sp sp' \<and> lists_ok b' sp' (fl(k := h # fl k))
     \<and> cores sp' = mark_cores h k (cores sp)"
proof -
  have hin: "h \<in> block h k" by simp
  have sub: "block h k \<subseteq> zone_pages b" using blk by (auto simp: zone_pages_def)
  have fr: "\<exists>f. frames_of sp r = Some f \<and> f_state f = Usable" if "r \<in> block h k" for r
    using blk that frames_of_cores[of sp r] by fastforce
  have "b_base_pfn b + b_pages b \<le> USIZE_MAX" using geo by (simp add: geo_def USIZE_MAX_def)
  then have "h + 2 ^ k \<le> USIZE_MAX" using le by linarith
  then obtain sp1 where s1: "mark_block_free_head b h k sp = Some sp1" "within (block h k) sp sp1" "cores sp1 = mark_cores h k (cores sp)"
    using mark_block_free_head_ok[OF wf k] blk fr by blast
  have l1: "lists_ok b sp1 fl" by (rule lists_ok_within[OF lists s1(2) fresh])
  obtain g where g: "cores sp h = Some g" using blk hin by blast
  then have "cores sp1 h = Some (g\<lparr>f_tag := Free, f_order := k\<rparr>)" using s1(3) by (simp add: mark_cores_def)
  then obtain f where f: "frames_of sp1 h = Some f" "core f = g\<lparr>f_tag := Free, f_order := k\<rparr>"
    using frames_of_cores by blast
  have "in_range b h" using blk hin by blast
  then have nh: "h \<noteq> INVALID_PFN" "h \<in> zone_pages b" using INVALID_PFN_big[OF geo] by (auto simp: zone_pages_def)
  have nl: "h \<notin> listed fl" using fresh hin by blast
  obtain sp2 where s2: "push_free h k (b, sp1) = Some (b\<lparr>b_free := (b_free b)[k := h]\<rparr>, sp2)"
      "within (zone_pages b) sp1 sp2" "lists_ok (b\<lparr>b_free := (b_free b)[k := h]\<rparr>) sp2 (fl(k := h # fl k))"
      "cores sp2 = (cores sp1)(h \<mapsto> (core f)\<lparr>f_tag := Free, f_order := k\<rparr>)"
    using push_free_ok[OF within_wf[OF s1(2)] l1 k f(1) nh(2,1) nl] by blast
  have "cores sp2 = cores sp1" using s2(4) f by (auto simp: cores_def fun_eq_iff)
  then show ?thesis
    using s1 s2 within_trans[OF within_mono[OF s1(2) sub] s2(2)] by auto
qed

lemma merge_step:
  assumes inv: "struct_inv b sp fl" and p: "(p, k) \<in> blocks b (cores sp) Free" and q: "(bud b p k, k) \<in> blocks b (cores sp) Free"
    and k: "k < b_max_order b"
  defines "h \<equiv> min p (bud b p k)"
  shows "\<exists>st1 b2 sp2 sp3 b4 sp4 fl4. remove_free p k (b, sp) = Some st1 \<and> remove_free (bud b p k) k st1 = Some (b2, sp2)
     \<and> local_idx b2 p = Some (p - b_base_pfn b) \<and> local_idx b2 (bud b p k) = Some (bud b p k - b_base_pfn b)
     \<and> mark_block_free_head b2 h (Suc k) sp2 = Some sp3 \<and> push_free h (Suc k) (b2, sp3) = Some (b4, sp4)
     \<and> struct_inv b4 sp4 fl4 \<and> same_zone b b4 \<and> b_free_pages b4 = b_free_pages b
     \<and> within (zone_pages b) sp sp4 \<and> cores sp4 = mark_cores h (Suc k) (cores sp)"
proof -
  define q where "q = bud b p k"
  note q' = q[folded q_def]
  have geo: "geo b" and wf: "sparse_wf sp" and lists: "lists_ok b sp fl" and heads: "heads_ok b (cores sp)"
    and lo: "listed_ok b (cores sp) fl" using inv by (auto simp: struct_inv_def)
  have k12: "k < 12" "Suc k < 12" using k geo by (auto simp: geo_def)
  note mb = merge_blocks[OF heads p q k, folded q_def h_def]
  have bp: "block_ok b (cores sp) p k" and bq: "block_ok b (cores sp) q k" using blocks_ok[OF heads] p q' by auto
  have base: "b_base_pfn b \<le> p" "b_base_pfn b \<le> q" using bp bq by (auto simp: block_ok_def aligned_def)
  have pq: "p \<noteq> q" using bud_props(3)[of b p k] bp by (auto simp: q_def block_ok_def)
  have inl: "p \<in> set (fl k)" "q \<in> set (fl k)" using lo k12 p q' by (auto simp: listed_ok_def)
  obtain f where f: "frames_of sp p = Some f" "f_tag f = Free" "f_order f = k" using struct_frame[OF inv p] by blast
  obtain h1 sp1 where s1: "remove_free p k (b, sp) = Some (b\<lparr>b_free := (b_free b)[k := h1]\<rparr>, sp1)"
      "within (zone_pages b) sp sp1" "cores sp1 = cores sp"
      "lists_ok (b\<lparr>b_free := (b_free b)[k := h1]\<rparr>) sp1 (fl(k := remove1 p (fl k)))"
    using remove_free_ok[OF wf lists k12(1) inl(1) f] by blast
  let ?b1 = "b\<lparr>b_free := (b_free b)[k := h1]\<rparr>" and ?fl1 = "fl(k := remove1 p (fl k))"
  obtain g where g: "frames_of sp q = Some g" "f_tag g = Free" "f_order g = k" using struct_frame[OF inv q'] by blast
  have "cores sp1 q = Some (core g)" using s1(3) g(1) by (simp add: cores_def)
  then obtain g' where g': "frames_of sp1 q = Some g'" "core g' = core g" using frames_of_cores by blast
  then have gt: "f_tag g' = Free" "f_order g' = k" using g core_simps(2,3)[of g'] core_simps(2,3)[of g] by auto
  have "q \<in> set (?fl1 k)" using inl(2) pq by simp
  then obtain h2 sp2 where s2: "remove_free q k (?b1, sp1) = Some (?b1\<lparr>b_free := (b_free ?b1)[k := h2]\<rparr>, sp2)"
      "within (zone_pages ?b1) sp1 sp2" "cores sp2 = cores sp1"
      "lists_ok (?b1\<lparr>b_free := (b_free ?b1)[k := h2]\<rparr>) sp2 (?fl1(k := remove1 q (?fl1 k)))"
    using remove_free_ok[OF within_wf[OF s1(2)] s1(4) k12(1) _ g'(1) gt] by blast
  define b2 where "b2 = ?b1\<lparr>b_free := (b_free ?b1)[k := h2]\<rparr>"
  define fl2 where "fl2 = ?fl1(k := remove1 q (?fl1 k))"
  have z2: "same_zone b b2" "b_free_pages b2 = b_free_pages b" by (simp_all add: b2_def same_zone_def)
  note zc = same_zone_cong[OF z2(1)]
  have w2: "within (zone_pages b) sp sp2" "cores sp2 = cores sp"
    using within_trans[OF s1(2)] s2(2) s1(3) s2(3) same_zone_cong(2)[OF same_zone_refl(2)] by auto
  have dist: "distinct (fl k)" using lists_okD(1)[OF lists k12(1)] by (simp add: flinks.dll_def)
  have set2: "set (fl2 j) = (if j = k then set (fl k) - {p, q} else set (fl j))" for j
    using dist by (auto simp: fl2_def)
  have listed2: "(r, j) \<in> blocks b (cores sp) Free - {(p, k), (q, k)}" if "j < 12" "r \<in> set (fl2 j)" for r j
    using that lo by (auto simp: set2 listed_ok_def split: if_splits)
  have fresh: "block h (Suc k) \<inter> listed fl2 = {}"
  proof -
    have "r \<notin> block h (Suc k)" if "j < 12" "r \<in> set (fl2 j)" for r j
    proof
      assume "r \<in> block h (Suc k)"
      then have "r = p \<or> r = q"
        using head_in_block[OF heads p, of r j Free] head_in_block[OF heads q', of r j Free] listed2[OF that]
        unfolding mb(4) by auto
      then show False
        using listed2[OF that] blocks_unique[OF _ p, of j Free] blocks_unique[OF _ q', of j Free] by auto
    qed
    then show ?thesis by (auto simp: listed_def)
  qed
  have "\<exists>sp3 b' sp'. mark_block_free_head b2 h (Suc k) sp2 = Some sp3 \<and> push_free h (Suc k) (b2, sp3) = Some (b', sp')
     \<and> b' = b2\<lparr>b_free := (b_free b2)[Suc k := h]\<rparr> \<and> within (zone_pages b2) sp2 sp'
     \<and> lists_ok b' sp' (fl2(Suc k := h # fl2 (Suc k))) \<and> cores sp' = mark_cores h (Suc k) (cores sp2)"
  proof (rule mark_push_ok[OF _ within_wf[OF w2(1)] _ k12(2) _ _ fresh])
    show "geo b2" using geo zc by simp
    show "lists_ok b2 sp2 fl2" using s2(4) by (simp add: b2_def fl2_def)
    show "h + 2 ^ Suc k \<le> b_base_pfn b2 + b_pages b2" using mb(6) by (simp add: b2_def)
    show "\<forall>r \<in> block h (Suc k). in_range b2 r \<and> (\<exists>g. cores sp2 r = Some g \<and> f_state g = Usable)"
      using mb(5) zc(1) w2(2) by simp
  qed
  then obtain sp3 b4 sp4 where s4: "mark_block_free_head b2 h (Suc k) sp2 = Some sp3" "push_free h (Suc k) (b2, sp3) = Some (b4, sp4)"
     "b4 = b2\<lparr>b_free := (b_free b2)[Suc k := h]\<rparr>" "within (zone_pages b2) sp2 sp4"
     "lists_ok b4 sp4 (fl2(Suc k := h # fl2 (Suc k)))" "cores sp4 = mark_cores h (Suc k) (cores sp2)" by blast
  have z4: "same_zone b b4" "b_free_pages b4 = b_free_pages b"
    using z2 by (simp_all add: s4(3) same_zone_def)
  have w4: "within (zone_pages b) sp sp4" using within_trans[OF w2(1)] s4(4) zc(2) by simp
  have c4: "cores sp4 = mark_cores h (Suc k) (cores sp)" using s4(6) w2(2) by simp
  have "listed_ok b (cores sp4) (fl2(Suc k := h # fl2 (Suc k)))"
    unfolding listed_ok_def c4 mb(2)
    using lo by (auto simp: listed_ok_def set2 split: if_splits)
  then have "struct_inv b4 sp4 (fl2(Suc k := h # fl2 (Suc k)))"
    using geo s4(5) within_wf[OF w4] mb(1) same_zone_cong[OF z4(1)] by (simp add: struct_inv_def c4)
  moreover have "local_idx b2 p = Some (p - b_base_pfn b)" "local_idx b2 q = Some (q - b_base_pfn b)"
    using base by (simp_all add: local_idx_def b2_def)
  ultimately show ?thesis
    using s1(1) s2(1)[folded b2_def] s4(1,2) z4 w4 c4 unfolding q_def by blast
qed

text \<open>What every step of the allocator keeps, next to the structure.\<close>

definition keeps :: "Buddy \<Rightarrow> SparseMem \<Rightarrow> Buddy \<Rightarrow> SparseMem \<Rightarrow> bool" where
  "keeps b sp b' sp' \<longleftrightarrow> same_zone b b' \<and> within (zone_pages b) sp sp' \<and> st_zone (cores sp') = st_zone (cores sp)"

lemma keeps_trans: "keeps a s b t \<Longrightarrow> keeps b t c u \<Longrightarrow> keeps a s c u"
  using same_zone_cong(2)[of a b] same_zone_trans within_trans by (simp add: keeps_def) blast

lemma pages_in_simps [simp]:
  "pages_in {} = {}" "pages_in (insert (p, k) B) = block p k \<union> pages_in B" "pages_in (A \<union> B) = pages_in A \<union> pages_in B"
  by (auto simp: pages_in_def)

lemma pages_in_remove: "(p, k) \<in> B \<Longrightarrow> pages_in B = block p k \<union> pages_in (B - {(p, k)})"
  by (auto simp: pages_in_def)

lemma coalesce_up_ok:
  assumes "struct_inv b sp fl" "(head, k) \<in> blocks b (cores sp) Free" "coalesced b (cores sp) {head}"
  shows "\<exists>b' sp' fl'. coalesce_up head k (b, sp) = Some (b', sp') \<and> struct_inv b' sp' fl' \<and> coalesced b (cores sp') {}
     \<and> keeps b sp b' sp' \<and> b_free_pages b' = b_free_pages b
     \<and> pages_in (blocks b (cores sp') Free) = pages_in (blocks b (cores sp) Free)
     \<and> blocks b (cores sp') Allocated = blocks b (cores sp) Allocated"
  using assms
proof (induction "b_max_order b - k" arbitrary: b sp fl head k rule: less_induct)
  case less
  let ?q = "bud b head k" and ?c = "cores sp"
  have geo: "geo b" and wf: "sparse_wf sp" and heads: "heads_ok b ?c" using less.prems(1) by (auto simp: struct_inv_def)
  have bh: "block_ok b ?c head k" using blocks_ok[OF heads less.prems(2)] by simp
  have k12: "k < 12" using struct_order[OF less.prems(1,2)] by simp
  have bo: "buddy_of b head k = Some (if ?q + 2 ^ k \<le> b_base_pfn b + b_pages b then Some ?q else None)"
    using bh by (intro buddy_of_ok[OF geo k12]) (auto simp: block_ok_def)
  have stay: "\<exists>b' sp' fl'. coalesce_up head k (b, sp) = Some (b', sp') \<and> struct_inv b' sp' fl' \<and> coalesced b (cores sp') {}
     \<and> keeps b sp b' sp' \<and> b_free_pages b' = b_free_pages b
     \<and> pages_in (blocks b (cores sp') Free) = pages_in (blocks b ?c Free)
     \<and> blocks b (cores sp') Allocated = blocks b ?c Allocated"
    if run: "coalesce_up head k (b, sp) = Some (b, sp)" and no: "k < b_max_order b \<longrightarrow> (?q, k) \<notin> blocks b ?c Free"
  proof -
    have "coalesced b ?c {}"
      unfolding coalesced_def
    proof (intro allI impI)
      fix p j assume a: "(p, j) \<in> blocks b ?c Free" "(bud b p j, j) \<in> blocks b ?c Free" "j < b_max_order b"
      then have "p = head \<or> bud b p j = head" using less.prems(3) by (auto simp: coalesced_def)
      then show "p \<in> {} \<or> bud b p j \<in> {}"
      proof
        assume "p = head"
        moreover from this have "j = k" using blocks_unique[OF a(1)] less.prems(2) by blast
        ultimately show ?thesis using a no by simp
      next
        assume e: "bud b p j = head"
        then have j: "j = k" using blocks_unique[OF a(2)] less.prems(2) by blast
        have "aligned b p j" using blocks_ok[OF heads a(1)] by (simp add: block_ok_def)
        then have "?q = p" using bud_props(2)[of b p j] e j by simp
        then show ?thesis using a no j by simp
      qed
    qed
    then show ?thesis using run less.prems(1) within_refl[OF wf] by (auto simp: keeps_def)
  qed
  show ?case
  proof (cases "k < b_max_order b \<and> (?q, k) \<in> blocks b ?c Free")
    case False
    have "coalesce_up head k (b, sp) = Some (b, sp)"
      using False bo by (subst coalesce_up.simps) (auto simp: is_free_head_eq[OF wf])
    then show ?thesis using stay False by blast
  next
    case True
    let ?h = "min head ?q"
    obtain st1 b2 sp2 sp3 b4 sp4 fl4 where s: "remove_free head k (b, sp) = Some st1" "remove_free ?q k st1 = Some (b2, sp2)"
      "local_idx b2 head = Some (head - b_base_pfn b)" "local_idx b2 ?q = Some (?q - b_base_pfn b)"
      "mark_block_free_head b2 ?h (Suc k) sp2 = Some sp3" "push_free ?h (Suc k) (b2, sp3) = Some (b4, sp4)"
      "struct_inv b4 sp4 fl4" "same_zone b b4" "b_free_pages b4 = b_free_pages b"
      "within (zone_pages b) sp sp4" "cores sp4 = mark_cores ?h (Suc k) ?c"
      using merge_step[OF less.prems(1,2)] True by blast
    note mb = merge_blocks[OF heads less.prems(2)] and zc = same_zone_cong[OF s(8)]
    have bq: "block_ok b ?c ?q k" using blocks_ok[OF heads] True by auto
    have base: "b_base_pfn b \<le> head" "b_base_pfn b \<le> ?q" using bh bq by (auto simp: block_ok_def aligned_def)
    have hd: "(if head - b_base_pfn b < ?q - b_base_pfn b then head else ?q) = ?h"
      using base by (auto simp: min_def)
    have add: "u_add k 1 = Some (Suc k)" using k12 by (simp add: u_add_def USIZE_MAX_def)
    have step: "coalesce_up head k (b, sp) = coalesce_up ?h (Suc k) (b4, sp4)"
      using True bo bq s(1-6) hd add
      by (subst coalesce_up.simps) (simp add: is_free_head_eq[OF wf] block_ok_def Let_def)
    have new: "blocks b (cores sp4) Free = blocks b ?c Free - {(head, k), (?q, k)} \<union> {(?h, Suc k)}"
      "blocks b (cores sp4) Allocated = blocks b ?c Allocated" "block ?h (Suc k) = block head k \<union> block ?q k"
      using mb(2-4) True s(11) by auto
    have co: "coalesced b (cores sp4) {?h}"
      unfolding coalesced_def new(1)
    proof (intro allI impI)
      fix p j assume a: "(p, j) \<in> blocks b ?c Free - {(head, k), (?q, k)} \<union> {(?h, Suc k)}"
        "(bud b p j, j) \<in> blocks b ?c Free - {(head, k), (?q, k)} \<union> {(?h, Suc k)}" "j < b_max_order b"
      show "p \<in> {?h} \<or> bud b p j \<in> {?h}"
      proof (rule ccontr)
        assume n: "\<not> (p \<in> {?h} \<or> bud b p j \<in> {?h})"
        then have "(p, j) \<in> blocks b ?c Free" "(bud b p j, j) \<in> blocks b ?c Free"
          "(p, j) \<noteq> (head, k)" "(bud b p j, j) \<noteq> (head, k)" using a by auto
        moreover from this have "p = head \<or> bud b p j = head" using less.prems(3) a(3) by (auto simp: coalesced_def)
        ultimately show False using blocks_unique[OF _ less.prems(2)] by blast
      qed
    qed
    have "b_max_order b4 - Suc k < b_max_order b - k" using True zc(10) by auto
    moreover have "(?h, Suc k) \<in> blocks b4 (cores sp4) Free" using new(1) zc(3) by auto
    ultimately obtain b' sp' fl' where r: "coalesce_up ?h (Suc k) (b4, sp4) = Some (b', sp')" "struct_inv b' sp' fl'"
        "coalesced b4 (cores sp') {}" "keeps b4 sp4 b' sp'" "b_free_pages b' = b_free_pages b4"
        "pages_in (blocks b4 (cores sp') Free) = pages_in (blocks b4 (cores sp4) Free)"
        "blocks b4 (cores sp') Allocated = blocks b4 (cores sp4) Allocated"
      using less.hyps[OF _ s(7), of "Suc k" ?h] co zc by auto
    have k4: "keeps b sp b4 sp4" using s(8,10,11) by (simp add: keeps_def)
    have "pages_in (blocks b (cores sp4) Free) = pages_in (blocks b ?c Free)"
    proof -
      have "?q \<noteq> head" using bud_props(3) bh by (simp add: block_ok_def)
      then have "pages_in (blocks b ?c Free) = block head k \<union> (block ?q k \<union> pages_in (blocks b ?c Free - {(head, k)} - {(?q, k)}))"
        using pages_in_remove[OF less.prems(2)] pages_in_remove[of ?q k "blocks b ?c Free - {(head, k)}"] True by simp
      then show ?thesis using new(1,3) by (auto simp: set_diff_eq pages_in_def)
    qed
    then show ?thesis
      using step r keeps_trans[OF k4 r(4)] s(9) new(2) zc by auto
  qed
qed

subsection \<open>Retagging, shrinking and splitting a block\<close>

lemma retag_block:
  assumes ok: "heads_ok b c" and h: "(h, k) \<in> blocks b c t" "c h = Some g" and t: "t \<noteq> Unused" "u \<noteq> Unused" "t \<noteq> u"
  defines "c' \<equiv> c(h \<mapsto> g\<lparr>f_tag := u\<rparr>)"
  shows "heads_ok b c'" "blocks b c' u = insert (h, k) (blocks b c u)" "blocks b c' t = blocks b c t - {(h, k)}"
    "st_zone c' = st_zone c"
proof -
  have g: "f_tag g = t" "f_order g = k" "in_range b h" using h by (auto simp: blocks_def)
  have bo: "block_ok b c p j \<Longrightarrow> p = h \<or> h \<notin> block p j \<Longrightarrow> block_ok b c' p j" for p j
    using h(2) unfolding block_ok_def c'_def by fastforce
  show "heads_ok b c'"
    unfolding heads_ok_def
  proof (intro allI impI)
    fix p f assume p: "in_range b p" "c' p = Some f" "f_tag f \<noteq> Unused"
    show "block_ok b c' p (f_order f)"
    proof (cases "p = h")
      case True
      then show ?thesis using p(2) g blocks_ok[OF ok h(1) t(1)] by (intro bo) (auto simp: c'_def)
    next
      case False
      then have "(p, f_order f) \<in> blocks b c (f_tag f)" using p by (auto simp: blocks_def c'_def)
      then show ?thesis
        using blocks_ok[OF ok _ p(3)] head_in_block[OF ok _ h(1) p(3) t(1)] False by (intro bo) blast+
    qed
  qed
  have "(p, j) \<in> blocks b c' v \<longleftrightarrow> (if p = h then v = u \<and> j = k else (p, j) \<in> blocks b c v)" for p j v
    using g by (auto simp: blocks_def c'_def)
  moreover have "(h, j) \<in> blocks b c v \<longleftrightarrow> v = t \<and> j = k" for j v
    using g h(2) by (auto simp: blocks_def)
  ultimately show "blocks b c' u = insert (h, k) (blocks b c u)" "blocks b c' t = blocks b c t - {(h, k)}"
    using t(3) by (auto split: if_splits)
  show "st_zone c' = st_zone c" using h(2) by (auto simp: st_zone_def c'_def fun_eq_iff)
qed

text \<open>A free block gives up its upper half.\<close>

lemma shrink_block:
  assumes ok: "heads_ok b c" and h: "(h, Suc k) \<in> blocks b c Free" "c h = Some g"
  defines "c' \<equiv> c(h \<mapsto> g\<lparr>f_order := k\<rparr>)"
  shows "heads_ok b c'" "blocks b c' Free = insert (h, k) (blocks b c Free - {(h, Suc k)})" "blocks b c' Allocated = blocks b c Allocated"
proof -
  have g: "f_tag g = Free" "f_order g = Suc k" "in_range b h" using h by (auto simp: blocks_def)
  have bh: "block_ok b c h (Suc k)" using blocks_ok[OF ok h(1)] by simp
  have "aligned b h k" using bh by (auto simp: block_ok_def aligned_def intro: power_le_dvd)
  then have bh': "block_ok b c h k" using bh unfolding block_ok_def by auto
  have bo: "block_ok b c p j \<Longrightarrow> p = h \<or> h \<notin> block p j \<Longrightarrow> block_ok b c' p j" for p j
    using h(2) unfolding block_ok_def c'_def by fastforce
  show "heads_ok b c'"
    unfolding heads_ok_def
  proof (intro allI impI)
    fix p f assume p: "in_range b p" "c' p = Some f" "f_tag f \<noteq> Unused"
    show "block_ok b c' p (f_order f)"
    proof (cases "p = h")
      case True
      then show ?thesis using p(2) bh' by (intro bo) (auto simp: c'_def)
    next
      case False
      then have "(p, f_order f) \<in> blocks b c (f_tag f)" using p by (auto simp: blocks_def c'_def)
      then show ?thesis
        using blocks_ok[OF ok _ p(3)] head_in_block[OF ok _ h(1) p(3)] False by (intro bo) blast+
    qed
  qed
  show "blocks b c' Free = insert (h, k) (blocks b c Free - {(h, Suc k)})" "blocks b c' Allocated = blocks b c Allocated"
    using g h by (auto simp: blocks_def c'_def split: if_splits)
qed

lemma split_blocks:
  assumes ok: "heads_ok b c" and h: "(h, Suc k) \<in> blocks b c Free" "c h = Some g"
  defines "c' \<equiv> mark_cores (h + 2 ^ k) k (c(h \<mapsto> g\<lparr>f_order := k\<rparr>))"
  shows "heads_ok b c'" "blocks b c' Free = insert (h + 2 ^ k, k) (insert (h, k) (blocks b c Free - {(h, Suc k)}))"
    "blocks b c' Allocated = blocks b c Allocated" "st_zone c' = st_zone c"
    "bud b h k = h + 2 ^ k" "aligned b h k" "aligned b (h + 2 ^ k) k"
    "\<forall>q \<in> block (h + 2 ^ k) k. in_range b q \<and> (\<exists>f. c q = Some f \<and> f_state f = Usable)"
    "\<And>p j t. (p, j) \<in> blocks b c t \<Longrightarrow> t \<noteq> Unused \<Longrightarrow> p \<notin> block (h + 2 ^ k) k"
proof -
  let ?d = "h + 2 ^ k" and ?c0 = "c(h \<mapsto> g\<lparr>f_order := k\<rparr>)"
  note sh = shrink_block[OF ok h]
  have bh: "block_ok b c h (Suc k)" using blocks_ok[OF ok h(1)] by simp
  have al: "aligned b h (Suc k)" using bh by (simp add: block_ok_def)
  then obtain m where m: "h = b_base_pfn b + m * 2 ^ Suc k" using alignedE by blast
  then have m': "h = b_base_pfn b + (2 * m) * 2 ^ k" "?d = b_base_pfn b + (2 * m + 1) * 2 ^ k" by simp_all
  show "aligned b h k" "aligned b ?d k" using m' aligned_mult by metis+
  show bd: "bud b h k = ?d" unfolding m'(2) unfolding m'(1) bud_mult by simp
  have sub: "block ?d k \<subseteq> block h (Suc k)" by auto
  have us: "\<forall>q \<in> block ?d k. in_range b q \<and> (\<exists>f. c q = Some f \<and> f_state f = Usable)"
    using block_ok_range[OF bh] block_okD[OF bh] sub by blast
  then show "\<forall>q \<in> block ?d k. in_range b q \<and> (\<exists>f. c q = Some f \<and> f_state f = Usable)" .
  have nh: "h \<notin> block ?d k" by auto
  have noheads: "p \<notin> block ?d k" if "(p, j) \<in> blocks b c t" "t \<noteq> Unused" for p j t
    using head_in_block[OF ok h(1) that(1)] that(2) sub nh by blast
  then show "\<And>p j t. (p, j) \<in> blocks b c t \<Longrightarrow> t \<noteq> Unused \<Longrightarrow> p \<notin> block ?d k" .
  have old: "(p, j) \<in> blocks b c t \<and> (p, j) \<noteq> (h, Suc k) \<or> (p, j) = (h, k) \<and> t = Free"
    if "(p, j) \<in> blocks b ?c0 t" "t \<noteq> Unused" for p j t
    using that h by (auto simp: blocks_def split: if_splits)
  have outside: "block p j \<inter> block ?d k = {}"
    if "(p, j) \<in> blocks b ?c0 t" "t \<noteq> Unused" "p \<notin> block ?d k" for p j t
  proof (cases "p = h")
    case True
    then have "j = k" using old[OF that(1,2)] blocks_unique[OF _ h(1)] that(2) by blast
    then show ?thesis using True by auto
  next
    case False
    then have "(p, j) \<in> blocks b c t" using old[OF that(1,2)] by auto
    then have "block p j \<inter> block h (Suc k) = {}" using blocks_disjoint[OF ok _ h(1)] that(2) False by blast
    then show ?thesis using sub by blast
  qed
  have us0: "\<forall>q \<in> block ?d k. \<exists>f. ?c0 q = Some f \<and> f_state f = Usable"
  proof
    fix q assume q: "q \<in> block ?d k"
    then have "q \<noteq> h" using nh by auto
    then show "\<exists>f. ?c0 q = Some f \<and> f_state f = Usable" using us q by simp
  qed
  have kk: "k \<le> b_max_order b" "?d + 2 ^ k \<le> b_base_pfn b + b_pages b" using bh by (auto simp: block_ok_def)
  note mc0 = mark_cores_heads_ok[OF sh(1) kk(1) \<open>aligned b ?d k\<close> kk(2) us0]
  have mc: "heads_ok b (mark_cores ?d k ?c0)"
      "blocks b (mark_cores ?d k ?c0) Free = {x \<in> blocks b ?c0 Free. fst x \<notin> block ?d k} \<union> {(?d, k)}"
      "blocks b (mark_cores ?d k ?c0) Allocated = {x \<in> blocks b ?c0 Allocated. fst x \<notin> block ?d k}"
    by (rule mc0(1) mc0(2) mc0(3), rule outside, assumption+)+
  show "heads_ok b c'" using mc(1) by (simp add: c'_def)
  have "{x \<in> blocks b ?c0 Free. fst x \<notin> block ?d k} = blocks b ?c0 Free"
    using noheads[of _ _ Free] sh(2) nh by auto
  then show "blocks b c' Free = insert (?d, k) (insert (h, k) (blocks b c Free - {(h, Suc k)}))"
    using mc(2) sh(2) by (simp add: c'_def)
  have "{x \<in> blocks b ?c0 Allocated. fst x \<notin> block ?d k} = blocks b ?c0 Allocated"
    using noheads[of _ _ Allocated] sh(3) by auto
  then show "blocks b c' Allocated = blocks b c Allocated" using mc(3) sh(3) by (simp add: c'_def)
  show "st_zone c' = st_zone c" using h(2) by (auto simp: c'_def st_zone_def fun_eq_iff)
qed

subsection \<open>The invariant\<close>

definition free_pages_of :: "Buddy \<Rightarrow> SparseMem \<Rightarrow> Pfn set" where
  "free_pages_of b sp = pages_in (blocks b (cores sp) Free)"

definition alloc_blocks :: "Buddy \<Rightarrow> SparseMem \<Rightarrow> (Pfn \<times> nat) set" where
  "alloc_blocks b sp = blocks b (cores sp) Allocated"

definition buddy_inv :: "Buddy \<Rightarrow> SparseMem \<Rightarrow> bool" where
  "buddy_inv b sp \<longleftrightarrow> (\<exists>fl. struct_inv b sp fl) \<and> coalesced b (cores sp) {} \<and> b_free_pages b = card (free_pages_of b sp)"

lemma pages_in_zone:
  assumes "heads_ok b c" "t \<noteq> Unused"
  shows "pages_in (blocks b c t) \<subseteq> {b_base_pfn b..<b_base_pfn b + b_pages b}" "finite (pages_in (blocks b c t))"
    "card (pages_in (blocks b c t)) \<le> b_pages b"
proof -
  show z: "pages_in (blocks b c t) \<subseteq> {b_base_pfn b..<b_base_pfn b + b_pages b}"
    using blocks_ok[OF assms(1) _ assms(2)] block_ok_range by (fastforce simp: pages_in_def in_range_iff)
  then show "finite (pages_in (blocks b c t))" by (rule finite_subset) simp
  have "card (pages_in (blocks b c t)) \<le> card {b_base_pfn b..<b_base_pfn b + b_pages b}" using z by (intro card_mono) auto
  then show "card (pages_in (blocks b c t)) \<le> b_pages b" by simp
qed

lemma block_disjoint_pages:
  assumes "heads_ok b c" "(h, k) \<in> blocks b c t" "t \<noteq> Unused" "u \<noteq> Unused"
  shows "block h k \<inter> pages_in (blocks b c u - {(h, k)}) = {}"
proof -
  have "block h k \<inter> block p j = {}" if "(p, j) \<in> blocks b c u - {(h, k)}" for p j
  proof (cases "p = h")
    case True
    then show ?thesis using blocks_unique[OF assms(2), of j u] that by auto
  next
    case False
    then show ?thesis using blocks_disjoint[OF assms(1,2) _ assms(3,4)] that by blast
  qed
  then show ?thesis unfolding pages_in_def by blast
qed

lemma block_disjoint_other:
  assumes "heads_ok b c" "(h, k) \<in> blocks b c t" "t \<noteq> Unused" "u \<noteq> Unused" "t \<noteq> u"
  shows "block h k \<inter> pages_in (blocks b c u) = {}"
proof -
  have "(h, k) \<notin> blocks b c u" using blocks_unique[OF assms(2)] assms(5) by blast
  then show ?thesis using block_disjoint_pages[OF assms(1-4)] by simp
qed

subsection \<open>Adding a block\<close>

lemma coalesced_insert:
  "coalesced b c {} \<Longrightarrow> blocks b c' Free = insert (h, k) (blocks b c Free) \<Longrightarrow> coalesced b c' {h}"
  unfolding coalesced_def by auto

lemma push_coalesce:
  assumes geo: "geo b" and wf: "sparse_wf sp" and lists: "lists_ok b sp fl" and heads: "heads_ok b (cores sp)"
    and hk: "(h, k) \<in> blocks b (cores sp) Free"
    and lo: "\<And>j p. j < 12 \<Longrightarrow> p \<in> set (fl j) \<longleftrightarrow> (p, j) \<in> blocks b (cores sp) Free - {(h, k)}"
    and co: "coalesced b (cores sp) {h}" and n: "b_free_pages b = card (free_pages_of b sp)"
  shows "\<exists>st2 b' sp'. push_free h k (b, sp) = Some st2 \<and> coalesce_up h k st2 = Some (b', sp') \<and> buddy_inv b' sp'
     \<and> keeps b sp b' sp' \<and> free_pages_of b' sp' = free_pages_of b sp \<and> alloc_blocks b' sp' = alloc_blocks b sp"
proof -
  have bo: "block_ok b (cores sp) h k" using blocks_ok[OF heads hk] by simp
  have k: "k < 12" using bo geo by (auto simp: block_ok_def geo_def)
  have hr: "in_range b h" using hk by (auto simp: blocks_def)
  have nh: "h \<notin> listed fl"
    using lo blocks_unique[OF hk] by (auto simp: listed_def)
  obtain g where g: "cores sp h = Some g" "f_tag g = Free" "f_order g = k" using hk by (auto simp: blocks_def)
  obtain f where f: "frames_of sp h = Some f" "core f = g" using frames_of_cores[OF g(1)] by blast
  let ?b1 = "b\<lparr>b_free := (b_free b)[k := h]\<rparr>"
  obtain sp1 where s1: "push_free h k (b, sp) = Some (?b1, sp1)" "within (zone_pages b) sp sp1"
      "lists_ok ?b1 sp1 (fl(k := h # fl k))" "cores sp1 = (cores sp)(h \<mapsto> (core f)\<lparr>f_tag := Free, f_order := k\<rparr>)"
    using push_free_ok[OF wf lists k f(1) _ INVALID_PFN_big[OF geo hr] nh] hr by (auto simp: zone_pages_def)
  have c1: "cores sp1 = cores sp" using s1(4) g f by auto
  have z1: "same_zone b ?b1" by simp
  note zc = same_zone_cong[OF z1]
  have "listed_ok b (cores sp) (fl(k := h # fl k))"
    unfolding listed_ok_def using lo k hk by auto
  then have "struct_inv ?b1 sp1 (fl(k := h # fl k))"
    using geo s1(3) within_wf[OF s1(2)] heads zc c1 by (simp add: struct_inv_def)
  then obtain b' sp' fl' where s2: "coalesce_up h k (?b1, sp1) = Some (b', sp')" "struct_inv b' sp' fl'"
      "coalesced ?b1 (cores sp') {}" "keeps ?b1 sp1 b' sp'" "b_free_pages b' = b_free_pages ?b1"
      "pages_in (blocks ?b1 (cores sp') Free) = pages_in (blocks ?b1 (cores sp1) Free)"
      "blocks ?b1 (cores sp') Allocated = blocks ?b1 (cores sp1) Allocated"
    using coalesce_up_ok[of ?b1 sp1 "fl(k := h # fl k)" h k] hk co zc c1 by auto
  have kp: "keeps b sp b' sp'"
    by (rule keeps_trans[OF _ s2(4)]) (use s1(2) c1 in \<open>simp add: keeps_def\<close>)
  then have "same_zone b b'" by (simp add: keeps_def)
  note zc' = same_zone_cong[OF this]
  have fp: "free_pages_of b' sp' = free_pages_of b sp" using s2(6) zc zc' c1 by (simp add: free_pages_of_def)
  then have "buddy_inv b' sp'" using s2(2,3,5) zc zc' n unfolding buddy_inv_def by auto
  moreover have "alloc_blocks b' sp' = alloc_blocks b sp" using s2(7) zc zc' c1 by (simp add: alloc_blocks_def)
  ultimately show ?thesis using s1(1) s2(1) kp fp by blast
qed

lemma for_each_check:
  assumes "\<And>x. x \<in> set xs \<Longrightarrow> body x () = Some ()"
  shows "for_each body xs () = Some ()"
  using assms by (induction xs) auto

lemma struct_lists:
  assumes "struct_inv b sp fl"
  shows "geo b" "sparse_wf sp" "lists_ok b sp fl" "heads_ok b (cores sp)" "\<And>j p. j < 12 \<Longrightarrow> p \<in> set (fl j) \<longleftrightarrow> (p, j) \<in> blocks b (cores sp) Free"
  using assms by (auto simp: struct_inv_def listed_ok_def)

text \<open>An update of the links and the tag of an unlisted page.\<close>

lemma frame_modify_unlisted:
  assumes "sparse_wf sp" "lists_ok b sp fl" "frames_of sp h = Some f" "h \<notin> listed fl"
  shows "\<exists>sp'. frame_modify h g sp = Some sp' \<and> within {h} sp sp' \<and> lists_ok b sp' fl \<and> cores sp' = (cores sp)(h \<mapsto> core (g f))"
proof -
  obtain sp' where s: "frame_modify h g sp = Some sp'" "sparse_wf sp'" "sparse_geom sp' = sparse_geom sp" "frames_of sp' = (frames_of sp)(h \<mapsto> g f)"
    using frame_modify_ok[OF assms(1,3)] by blast
  have w: "within {h} sp sp'" using s by (simp add: within_def)
  then have "lists_ok b sp' fl" using lists_ok_within[OF assms(2)] assms(4) by simp
  then show ?thesis using s w by (auto simp: cores_def)
qed

lemma buddy_free_ok:
  assumes inv: "buddy_inv b sp" and hk: "(h, k) \<in> alloc_blocks b sp"
  shows "\<exists>b' sp'. buddy_free h (b, sp) = Some (b', sp') \<and> buddy_inv b' sp' \<and> keeps b sp b' sp'
     \<and> free_pages_of b' sp' = free_pages_of b sp \<union> block h k \<and> free_pages_of b sp \<inter> block h k = {}
     \<and> alloc_blocks b' sp' = alloc_blocks b sp - {(h, k)}"
proof -
  obtain fl where st: "struct_inv b sp fl" and co: "coalesced b (cores sp) {}" and n: "b_free_pages b = card (free_pages_of b sp)"
    using inv by (auto simp: buddy_inv_def)
  note S = struct_lists[OF st]
  have hk': "(h, k) \<in> blocks b (cores sp) Allocated" using hk by (simp add: alloc_blocks_def)
  obtain f where f: "frames_of sp h = Some f" "f_tag f = Allocated" "f_order f = k" using struct_frame[OF st hk'] by blast
  have c: "cores sp h = Some (core f)" using f by (simp add: cores_def)
  have k: "k < 12" using struct_order[OF st hk'] by simp
  have bo: "block_ok b (cores sp) h k" using blocks_ok[OF S(4) hk'] by simp
  have nl: "h \<notin> listed fl" using listed_iff[OF st] blocks_unique[OF hk'] by auto
  let ?g = "\<lambda>f. f\<lparr>f_tag := Free, f_prev_free := INVALID_PFN, f_next_free := INVALID_PFN\<rparr>"
  obtain sp1 where s1: "frame_modify h ?g sp = Some sp1" "within {h} sp sp1" "lists_ok b sp1 fl" "cores sp1 = (cores sp)(h \<mapsto> (core f)\<lparr>f_tag := Free\<rparr>)"
    using frame_modify_unlisted[OF S(2,3) f(1) nl, of ?g] by auto
  note rt = retag_block[OF S(4) hk' c, of Free, folded s1(4), simplified]
  have le: "h + 2 ^ k \<le> 2 ^ 52" using bo S(1) by (auto simp: block_ok_def geo_def)
  have inner: "do { p \<leftarrow> u_add h i; f \<leftarrow> frame_get sp1 p; rassert (f_tag f = Unused) } = Some ()" if i: "i \<in> set [1..<2 ^ k]" for i
  proof -
    have hi: "h + i \<in> block h k" "h + i \<noteq> h" using i by auto
    then obtain g where "cores sp (h + i) = Some g" "f_tag g = Unused" using block_okD[OF bo hi(1)] by blast
    then obtain f' where "frames_of sp (h + i) = Some f'" "f_tag f' = Unused"
      using frames_of_cores by (metis core_simps(2))
    then have "frame_get sp1 (h + i) = Some f'" "f_tag f' = Unused"
      using s1(2) hi(2) frame_get_eq[of sp1] by (auto simp: within_def)
    moreover have "u_add h i = Some (h + i)" using i le by (simp add: u_add_def USIZE_MAX_def)
    ultimately show ?thesis by simp
  qed
  have chk: "for_each (\<lambda>i _. do { p \<leftarrow> u_add h i; f \<leftarrow> frame_get sp1 p; rassert (f_tag f = Unused) }) [1..<2 ^ k] () = Some ()"
    by (rule for_each_check) (rule inner)
  have disj: "block h k \<inter> free_pages_of b sp = {}"
    using block_disjoint_other[OF S(4) hk', of Free] by (simp add: free_pages_of_def)
  have pg: "pages_in (blocks b (cores sp1) Free) = block h k \<union> free_pages_of b sp" using rt(2) by (simp add: free_pages_of_def)
  have fin: "finite (free_pages_of b sp)" "card (free_pages_of b sp) \<le> b_pages b"
    using pages_in_zone[OF S(4), of Free] by (simp_all add: free_pages_of_def)
  have card: "card (pages_in (blocks b (cores sp1) Free)) = card (free_pages_of b sp) + 2 ^ k"
    unfolding pg using card_Un_disjoint[OF _ fin(1) disj] by simp
  have "card (pages_in (blocks b (cores sp1) Free)) \<le> b_pages b" using pages_in_zone(3)[OF rt(1), of Free] by simp
  then have ua: "u_add (b_free_pages b) (2 ^ k) = Some (b_free_pages b + 2 ^ k)"
    using S(1) card n by (simp add: geo_def u_add_def USIZE_MAX_def)
  let ?b1 = "b\<lparr>b_free_pages := b_free_pages b + 2 ^ k\<rparr>"
  have z1: "same_zone b ?b1" by simp
  note zc = same_zone_cong[OF z1]
  have "\<exists>st2 b' sp'. push_free h k (?b1, sp1) = Some st2 \<and> coalesce_up h k st2 = Some (b', sp') \<and> buddy_inv b' sp'
     \<and> keeps ?b1 sp1 b' sp' \<and> free_pages_of b' sp' = free_pages_of ?b1 sp1 \<and> alloc_blocks b' sp' = alloc_blocks ?b1 sp1"
  proof (rule push_coalesce[of _ _ fl])
    show "geo ?b1" "heads_ok ?b1 (cores sp1)" using S(1) rt(1) zc by auto
    show "sparse_wf sp1" using s1(2) by (rule within_wf)
    show "lists_ok ?b1 sp1 fl" using s1(3) zc by (simp add: lists_ok_def)
    show "(h, k) \<in> blocks ?b1 (cores sp1) Free" using rt(2) zc by simp
    show "p \<in> set (fl j) \<longleftrightarrow> (p, j) \<in> blocks ?b1 (cores sp1) Free - {(h, k)}" if "j < 12" for j p
      unfolding zc rt(2) using S(5)[OF that] blocks_unique[OF hk'] by auto
    show "coalesced ?b1 (cores sp1) {h}" unfolding zc by (rule coalesced_insert[OF co rt(2)])
    show "b_free_pages ?b1 = card (free_pages_of ?b1 sp1)" using card n zc by (simp add: free_pages_of_def)
  qed
  then obtain st2 b' sp' where s2: "push_free h k (?b1, sp1) = Some st2" "coalesce_up h k st2 = Some (b', sp')" "buddy_inv b' sp'"
     "keeps ?b1 sp1 b' sp'" "free_pages_of b' sp' = free_pages_of ?b1 sp1" "alloc_blocks b' sp' = alloc_blocks ?b1 sp1" by blast
  have "in_range b h" using hk' by (auto simp: blocks_def)
  then have "buddy_free h (b, sp) = Some (b', sp')"
    unfolding buddy_free_def using f S(2) s1(1) k chk ua s2(1,2) by (simp add: frame_get_eq)
  moreover have "keeps b sp b' sp'"
    by (rule keeps_trans[OF _ s2(4)])
      (use s1(2) rt(4) \<open>in_range b h\<close> in \<open>auto simp: keeps_def zone_pages_def intro: within_mono\<close>)
  moreover have "free_pages_of b' sp' = free_pages_of b sp \<union> block h k"
    using s2(5) pg zc by (simp add: free_pages_of_def Un_commute)
  moreover have "alloc_blocks b' sp' = alloc_blocks b sp - {(h, k)}"
    using s2(6) rt(3) zc by (simp add: alloc_blocks_def)
  ultimately show ?thesis using s2(3) disj by blast
qed

text \<open>The pages of the zone that belong to no block, and that memory has as usable.\<close>

definition covered :: "Buddy \<Rightarrow> SparseMem \<Rightarrow> Pfn set" where
  "covered b sp = free_pages_of b sp \<union> pages_in (alloc_blocks b sp)"

definition fresh :: "Buddy \<Rightarrow> SparseMem \<Rightarrow> Pfn \<Rightarrow> bool" where
  "fresh b sp p \<longleftrightarrow> in_range b p \<and> (\<exists>z. st_zone (cores sp) p = Some (Usable, z)) \<and> p \<notin> covered b sp"

lemma insert_block_boot_ok:
  assumes inv: "buddy_inv b sp" and k: "k \<le> b_max_order b" and al: "aligned b h k"
    and fresh: "\<forall>q \<in> block h k. fresh b sp q"
  shows "\<exists>b' sp'. insert_block_boot h k (b, sp) = Some (b', sp') \<and> buddy_inv b' sp' \<and> keeps b sp b' sp'
     \<and> free_pages_of b' sp' = free_pages_of b sp \<union> block h k \<and> alloc_blocks b' sp' = alloc_blocks b sp"
proof -
  obtain fl where st: "struct_inv b sp fl" and co: "coalesced b (cores sp) {}" and n: "b_free_pages b = card (free_pages_of b sp)"
    using inv by (auto simp: buddy_inv_def)
  note S = struct_lists[OF st]
  have k12: "k < 12" using k S(1) by (simp add: geo_def)
  have us: "in_range b q \<and> (\<exists>g. cores sp q = Some g \<and> f_state g = Usable)" if "q \<in> block h k" for q
    using fresh that by (auto simp: fresh_def st_zone_def)
  have zin: "block h k \<subseteq> zone_pages b" using us by (auto simp: zone_pages_def)
  have "(1::nat) \<le> 2 ^ k" by simp
  then have "h + 2 ^ k - 1 \<in> block h k" unfolding atLeastLessThan_iff by linarith
  then have hr: "in_range b h" "in_range b (h + 2 ^ k - 1)" using us[of h] us[of "h + 2 ^ k - 1"] by auto
  have le: "h + 2 ^ k \<le> b_base_pfn b + b_pages b" using hr(2) by (auto simp: in_range_iff)
  have disj: "block p j \<inter> block h k = {}" if "(p, j) \<in> blocks b (cores sp) t" "t \<noteq> Unused" for p j t
  proof -
    have "block p j \<subseteq> covered b sp"
      using that by (cases t) (auto simp: covered_def free_pages_of_def alloc_blocks_def pages_in_def)
    then show ?thesis using fresh unfolding fresh_def by blast
  qed
  have nohead: "p \<notin> block h k" if "(p, j) \<in> blocks b (cores sp) t" "t \<noteq> Unused" for p j t
  proof -
    have "p \<in> block p j" by simp
    then show ?thesis using disj[OF that] by blast
  qed
  have nl: "block h k \<inter> listed fl = {}" using listed_iff[OF st] nohead[of _ _ Free] by blast
  have "h + 2 ^ k \<le> USIZE_MAX" using le S(1) by (simp add: geo_def USIZE_MAX_def)
  then obtain sp1 where s1: "mark_block_free_head b h k sp = Some sp1" "within (block h k) sp sp1" "cores sp1 = mark_cores h k (cores sp)"
    using mark_block_free_head_ok[OF S(2) k12, of h b] us frames_of_cores[of sp] core_simps(1) by metis
  have l1: "lists_ok b sp1 fl" by (rule lists_ok_within[OF S(3) s1(2) nl])
  have us': "\<forall>q \<in> block h k. \<exists>g. cores sp q = Some g \<and> f_state g = Usable" using us by blast
  note mc0 = mark_cores_heads_ok[OF S(4) k al le us']
  have mc: "heads_ok b (cores sp1)" unfolding s1(3) by (rule mc0(1)) (rule disj, assumption+)
  have "{x \<in> blocks b (cores sp) Free. fst x \<notin> block h k} = blocks b (cores sp) Free"
    using nohead[of _ _ Free] by fastforce
  then have F1: "blocks b (cores sp1) Free = insert (h, k) (blocks b (cores sp) Free)"
    unfolding s1(3) using mc0(2) disj by simp
  have "{x \<in> blocks b (cores sp) Allocated. fst x \<notin> block h k} = blocks b (cores sp) Allocated"
    using nohead[of _ _ Allocated] by fastforce
  then have A1: "blocks b (cores sp1) Allocated = blocks b (cores sp) Allocated"
    unfolding s1(3) using mc0(3) disj by simp
  have notF: "(h, j) \<notin> blocks b (cores sp) Free" for j using nohead[of h j Free] by auto
  have pg: "free_pages_of b sp1 = block h k \<union> free_pages_of b sp" using F1 by (simp add: free_pages_of_def)
  have dj: "block h k \<inter> free_pages_of b sp = {}" using fresh by (auto simp: fresh_def covered_def)
  have fin: "finite (free_pages_of b sp)" using pages_in_zone(2)[OF S(4), of Free] by (simp add: free_pages_of_def)
  have card: "card (free_pages_of b sp1) = card (free_pages_of b sp) + 2 ^ k"
    unfolding pg using card_Un_disjoint[OF _ fin dj] by simp
  have "card (free_pages_of b sp1) \<le> b_pages b" using pages_in_zone(3)[OF mc, of Free] by (simp add: free_pages_of_def)
  then have ua: "u_add (b_free_pages b) (2 ^ k) = Some (b_free_pages b + 2 ^ k)"
    using S(1) card n by (simp add: geo_def u_add_def USIZE_MAX_def)
  let ?b1 = "b\<lparr>b_free_pages := b_free_pages b + 2 ^ k\<rparr>"
  have z1: "same_zone b ?b1" by simp
  note zc = same_zone_cong[OF z1]
  have "\<exists>st2 b' sp'. push_free h k (?b1, sp1) = Some st2 \<and> coalesce_up h k st2 = Some (b', sp') \<and> buddy_inv b' sp'
     \<and> keeps ?b1 sp1 b' sp' \<and> free_pages_of b' sp' = free_pages_of ?b1 sp1 \<and> alloc_blocks b' sp' = alloc_blocks ?b1 sp1"
  proof (rule push_coalesce[of _ _ fl])
    show "geo ?b1" "heads_ok ?b1 (cores sp1)" using S(1) mc zc by auto
    show "sparse_wf sp1" using s1(2) by (rule within_wf)
    show "lists_ok ?b1 sp1 fl" using l1 zc by (simp add: lists_ok_def)
    show "(h, k) \<in> blocks ?b1 (cores sp1) Free" using F1 zc by simp
    show "p \<in> set (fl j) \<longleftrightarrow> (p, j) \<in> blocks ?b1 (cores sp1) Free - {(h, k)}" if "j < 12" for j p
      unfolding zc F1 using S(5)[OF that] notF by auto
    show "coalesced ?b1 (cores sp1) {h}" unfolding zc by (rule coalesced_insert[OF co F1])
    show "b_free_pages ?b1 = card (free_pages_of ?b1 sp1)" using card n zc by (simp add: free_pages_of_def)
  qed
  then obtain st2 b' sp' where s2: "push_free h k (?b1, sp1) = Some st2" "coalesce_up h k st2 = Some (b', sp')" "buddy_inv b' sp'"
     "keeps ?b1 sp1 b' sp'" "free_pages_of b' sp' = free_pages_of ?b1 sp1" "alloc_blocks b' sp' = alloc_blocks ?b1 sp1" by blast
  have "insert_block_boot h k (b, sp) = Some (b', sp')"
    unfolding insert_block_boot_def using k hr(1) s1(1) k12 ua s2(1,2) by simp
  moreover have "keeps b sp b' sp'"
    by (rule keeps_trans[OF _ s2(4)]) (use within_mono[OF s1(2) zin] s1(3) in \<open>simp add: keeps_def\<close>)
  moreover have "free_pages_of b' sp' = free_pages_of b sp \<union> block h k"
    using s2(5) pg zc by (simp add: free_pages_of_def Un_commute)
  moreover have "alloc_blocks b' sp' = alloc_blocks b sp"
    using s2(6) A1 zc by (simp add: alloc_blocks_def)
  ultimately show ?thesis using s2(3) by blast
qed

lemma keeps_fresh:
  assumes "keeps b sp b' sp'" "fresh b sp q" "q \<notin> X"
    and "free_pages_of b' sp' = free_pages_of b sp \<union> X" "alloc_blocks b' sp' = alloc_blocks b sp"
  shows "fresh b' sp' q"
  using assms same_zone_cong(1)[of b b'] by (simp add: fresh_def keeps_def covered_def)

lemma max_block_order_for_ok:
  assumes "0 < n" "n \<le> USIZE_MAX"
  shows "\<exists>k. max_block_order_for p n = Some k \<and> 2 ^ k \<le> n \<and> 2 ^ k dvd p \<and> k \<le> MAX_ORDER"
proof -
  have fl: "buddy_floor_log2 n = floor_log2 n" using assms(1) by (simp add: buddy_floor_log2_def floor_log2_def)
  obtain m where m: "floor_log2 n = Some m" "2 ^ m \<le> n" using floor_log2_ok[OF assms] by blast
  define tz where "tz = (if p = 0 then MAX_ORDER else min (trailing_zeros p) MAX_ORDER)"
  have r: "max_block_order_for p n = Some (min m tz)"
    using assms(1) m(1) fl by (simp add: max_block_order_for_def tz_def Let_def)
  have "(2::nat) ^ min m tz \<le> 2 ^ m" by (rule power_increasing) auto
  then have "2 ^ min m tz \<le> n" using m(2) by linarith
  moreover have "2 ^ min m tz dvd p" unfolding trailing_zeros_dvd by (auto simp: tz_def)
  moreover have "min m tz \<le> MAX_ORDER" by (auto simp: tz_def)
  ultimately show ?thesis using r by blast
qed

lemma add_run_loop_ok:
  assumes "buddy_inv b sp" "\<forall>q \<in> {p..<p + n}. fresh b sp q"
  shows "\<exists>b' sp'. add_run_loop p n (b, sp) = Some (b', sp') \<and> buddy_inv b' sp' \<and> keeps b sp b' sp'
     \<and> free_pages_of b' sp' = free_pages_of b sp \<union> {p..<p + n} \<and> alloc_blocks b' sp' = alloc_blocks b sp"
  using assms
proof (induction n arbitrary: p b sp rule: less_induct)
  case (less n)
  obtain fl where st: "struct_inv b sp fl" using less.prems(1) by (auto simp: buddy_inv_def)
  note S = struct_lists[OF st]
  show ?case
  proof (cases "n = 0")
    case True
    then show ?thesis using less.prems(1) S(2) by (simp add: add_run_loop.simps keeps_def within_refl)
  next
    case False
    have "p + n - 1 \<in> {p..<p + n}" using False by auto
    then have "in_range b (p + n - 1)" "in_range b p" using less.prems(2) False by (auto simp: fresh_def)
    then have pn: "b_base_pfn b \<le> p" "p + n \<le> 2 ^ 52" using S(1) False by (auto simp: in_range_iff geo_def)
    obtain m where m: "max_block_order_for p n = Some m" "2 ^ m \<le> n" "2 ^ m dvd p" "m \<le> MAX_ORDER"
      using max_block_order_for_ok[of n p] False pn(2) by (auto simp: USIZE_MAX_def)
    define k where "k = min m (b_max_order b)"
    have "(2::nat) ^ k \<le> 2 ^ m" by (rule power_increasing) (auto simp: k_def)
    then have kn: "2 ^ k \<le> n" using m(2) by linarith
    have dv: "2 ^ k dvd p" "2 ^ k dvd b_base_pfn b"
      using m(3) S(1) by (auto simp: k_def geo_def intro: power_le_dvd)
    have al: "aligned b p k" using dv pn(1) by (simp add: aligned_def)
    have sub: "block p k \<subseteq> {p..<p + n}" using kn by auto
    obtain b1 sp1 where s1: "insert_block_boot p k (b, sp) = Some (b1, sp1)" "buddy_inv b1 sp1" "keeps b sp b1 sp1"
        "free_pages_of b1 sp1 = free_pages_of b sp \<union> block p k" "alloc_blocks b1 sp1 = alloc_blocks b sp"
      using insert_block_boot_ok[OF less.prems(1) _ al] less.prems(2) sub by (auto simp: k_def)
    have "\<forall>q \<in> {p + 2 ^ k..<p + 2 ^ k + (n - 2 ^ k)}. fresh b1 sp1 q"
      using keeps_fresh[OF s1(3) _ _ s1(4,5)] less.prems(2) kn by auto
    moreover have "n - 2 ^ k < n" using False by simp
    ultimately obtain b2 sp2 where s2: "add_run_loop (p + 2 ^ k) (n - 2 ^ k) (b1, sp1) = Some (b2, sp2)" "buddy_inv b2 sp2" "keeps b1 sp1 b2 sp2"
        "free_pages_of b2 sp2 = free_pages_of b1 sp1 \<union> {p + 2 ^ k..<p + 2 ^ k + (n - 2 ^ k)}" "alloc_blocks b2 sp2 = alloc_blocks b1 sp1"
      using less.IH[OF _ s1(2)] by metis
    have k12: "k < 12" using m(4) by (simp add: k_def MAX_ORDER_def)
    have "u_add p (2 ^ k) = Some (p + 2 ^ k)" "u_sub n (2 ^ k) = Some (n - 2 ^ k)"
      using pn(2) kn by (simp_all add: u_add_def u_sub_def USIZE_MAX_def)
    then have "add_run_loop p n (b, sp) = Some (b2, sp2)"
      using False m(1) s1(1) s2(1) k12 by (subst add_run_loop.simps) (simp add: k_def[symmetric])
    moreover have "free_pages_of b2 sp2 = free_pages_of b sp \<union> {p..<p + n}"
      using s2(4) s1(4) kn by auto
    ultimately show ?thesis using s2(2,5) s1(5) keeps_trans[OF s1(3) s2(3)] by auto
  qed
qed

lemma add_usable_run_ok:
  assumes inv: "buddy_inv b sp" and le: "start + len \<le> USIZE_MAX"
    and fresh: "\<forall>q \<in> {start..<start + len} \<inter> zone_pages b. fresh b sp q"
  shows "\<exists>b' sp'. add_usable_run start len (b, sp) = Some (b', sp') \<and> buddy_inv b' sp' \<and> keeps b sp b' sp'
     \<and> free_pages_of b' sp' = free_pages_of b sp \<union> ({start..<start + len} \<inter> zone_pages b) \<and> alloc_blocks b' sp' = alloc_blocks b sp"
proof -
  obtain fl where st: "struct_inv b sp fl" using inv by (auto simp: buddy_inv_def)
  note S = struct_lists[OF st]
  define p where "p = max start (b_base_pfn b)"
  define e where "e = min (start + len) (b_base_pfn b + b_pages b)"
  have run: "{start..<start + len} \<inter> zone_pages b = {p..<e}"
    by (auto simp: p_def e_def zone_pages_def in_range_iff)
  have ze: "u_add (b_base_pfn b) (b_pages b) = Some (b_base_pfn b + b_pages b)" "u_add start len = Some (start + len)"
    using S(1) le by (simp_all add: geo_def u_add_def USIZE_MAX_def)
  show ?thesis
  proof (cases "p < e")
    case True
    then have "{p..<p + (e - p)} = {p..<e}" by simp
    then obtain b' sp' where s: "add_run_loop p (e - p) (b, sp) = Some (b', sp')" "buddy_inv b' sp'" "keeps b sp b' sp'"
        "free_pages_of b' sp' = free_pages_of b sp \<union> {p..<e}" "alloc_blocks b' sp' = alloc_blocks b sp"
      using add_run_loop_ok[OF inv, of p "e - p"] fresh run by auto
    have "len \<noteq> 0" "b_pages b \<noteq> 0" using True by (auto simp: p_def e_def)
    then have "add_usable_run start len (b, sp) = Some (b', sp')"
      using True s(1) ze by (simp add: add_usable_run_def Let_def u_sub_def p_def[symmetric] e_def[symmetric])
    then show ?thesis unfolding run using s by blast
  next
    case False
    then have "add_usable_run start len (b, sp) = Some (b, sp)"
      using ze by (simp add: add_usable_run_def Let_def p_def[symmetric] e_def[symmetric])
    moreover have "{p..<e} = {}" using False by simp
    ultimately show ?thesis unfolding run using inv S(2) by (simp add: keeps_def within_refl)
  qed
qed

subsection \<open>Taking a block\<close>

lemma find_order_ok:
  assumes "length heads = 12" "\<forall>k \<in> set ks. k < 12"
  shows "find_order heads ks = Some (find (\<lambda>k. heads ! k \<noteq> INVALID_PFN) ks)"
  using assms(2) by (induction ks) (simp_all add: arr_get_def assms(1))

text \<open>
  While \<open>alloc\<close> splits, the frame of the block in hand keeps the order it was found with. The
  invariant reads that frame at the current order \<open>cur\<close>: the block is free, and the only free
  block that is in no list.
\<close>

definition holding :: "Buddy \<Rightarrow> SparseMem \<Rightarrow> (nat \<Rightarrow> Pfn list) \<Rightarrow> Pfn \<Rightarrow> nat \<Rightarrow> (Pfn \<Rightarrow> Frame option) \<Rightarrow> bool" where
  "holding b sp fl h cur c \<longleftrightarrow> geo b \<and> sparse_wf sp \<and> lists_ok b sp fl \<and> heads_ok b c
     \<and> (\<exists>g. cores sp h = Some g \<and> c = (cores sp)(h \<mapsto> g\<lparr>f_tag := Free, f_order := cur\<rparr>))
     \<and> in_range b h
     \<and> (\<forall>k < 12. \<forall>p. p \<in> set (fl k) \<longleftrightarrow> (p, k) \<in> blocks b c Free \<and> p \<noteq> h)
     \<and> coalesced b c {h} \<and> b_free_pages b + 2 ^ cur = card (pages_in (blocks b c Free))"

lemma holdingD:
  assumes "holding b sp fl h cur c"
  shows "geo b" "sparse_wf sp" "lists_ok b sp fl" "heads_ok b c" "(h, cur) \<in> blocks b c Free" "in_range b h"
    "\<And>k p. k < 12 \<Longrightarrow> p \<in> set (fl k) \<longleftrightarrow> (p, k) \<in> blocks b c Free \<and> p \<noteq> h"
    "coalesced b c {h}" "b_free_pages b + 2 ^ cur = card (pages_in (blocks b c Free))" "cur < 12" "h \<notin> listed fl"
    "block_ok b c h cur" "\<And>q. q \<noteq> h \<Longrightarrow> c q = cores sp q"
    "\<exists>g. cores sp h = Some g \<and> c = (cores sp)(h \<mapsto> g\<lparr>f_tag := Free, f_order := cur\<rparr>)" "st_zone c = st_zone (cores sp)"
proof -
  show a: "geo b" "sparse_wf sp" "lists_ok b sp fl" "heads_ok b c" "in_range b h"
    "\<And>k p. k < 12 \<Longrightarrow> p \<in> set (fl k) \<longleftrightarrow> (p, k) \<in> blocks b c Free \<and> p \<noteq> h"
    "coalesced b c {h}" "b_free_pages b + 2 ^ cur = card (pages_in (blocks b c Free))"
    using assms by (auto simp: holding_def)
  obtain g where g: "cores sp h = Some g" "c = (cores sp)(h \<mapsto> g\<lparr>f_tag := Free, f_order := cur\<rparr>)"
    using assms by (auto simp: holding_def)
  then show "\<exists>g. cores sp h = Some g \<and> c = (cores sp)(h \<mapsto> g\<lparr>f_tag := Free, f_order := cur\<rparr>)" by blast
  show h: "(h, cur) \<in> blocks b c Free" using g a(5) by (simp add: blocks_def)
  show bo: "block_ok b c h cur" using blocks_ok[OF a(4) h] by simp
  then show "cur < 12" using a(1) by (auto simp: block_ok_def geo_def)
  show "h \<notin> listed fl" using a(6) by (auto simp: listed_def)
  show "c q = cores sp q" if "q \<noteq> h" for q using that g by simp
  show "st_zone c = st_zone (cores sp)" using g by (auto simp: st_zone_def fun_eq_iff)
qed

lemma mark_cores_upd: "h \<notin> block q k \<Longrightarrow> mark_cores q k (c(h \<mapsto> g)) = (mark_cores q k c)(h \<mapsto> g)"
  by (auto simp: mark_cores_def fun_eq_iff)

lemma split_step:
  assumes hold: "holding b sp fl h (Suc k) c"
  shows "\<exists>sp1 b2 sp2 fl2 c2. buddy_of b h k = Some (Some (h + 2 ^ k)) \<and> mark_block_free_head b (h + 2 ^ k) k sp = Some sp1
     \<and> push_free (h + 2 ^ k) k (b, sp1) = Some (b2, sp2) \<and> u_add (b_free_pages b2) (2 ^ k) = Some (b_free_pages b2 + 2 ^ k)
     \<and> holding (b2\<lparr>b_free_pages := b_free_pages b2 + 2 ^ k\<rparr>) sp2 fl2 h k c2 \<and> same_zone b b2 \<and> within (zone_pages b) sp sp2
     \<and> st_zone c2 = st_zone c \<and> pages_in (blocks b c2 Free) = pages_in (blocks b c Free) \<and> blocks b c2 Allocated = blocks b c Allocated"
proof -
  note H = holdingD[OF hold]
  let ?d = "h + 2 ^ k"
  obtain g where g: "cores sp h = Some g" "c = (cores sp)(h \<mapsto> g\<lparr>f_tag := Free, f_order := Suc k\<rparr>)" using H(14) by blast
  let ?gc = "g\<lparr>f_tag := Free, f_order := Suc k\<rparr>" and ?g' = "g\<lparr>f_tag := Free, f_order := k\<rparr>"
  have ch: "c h = Some ?gc" using g by simp
  note sb = split_blocks[OF H(4,5) ch]
  define c2 where "c2 = mark_cores ?d k (c(h \<mapsto> ?gc\<lparr>f_order := k\<rparr>))"
  have k12: "k < 12" using H(10) by simp
  have le: "?d + 2 ^ k \<le> b_base_pfn b + b_pages b" using H(12) by (simp add: block_ok_def)
  have bo: "buddy_of b h k = Some (Some ?d)"
    using buddy_of_ok[OF H(1) k12 sb(6)] le H(6) by (simp add: sb(5) in_range_iff)
  have nd: "h \<notin> block ?d k" by simp
  have us: "\<forall>r \<in> block ?d k. in_range b r \<and> (\<exists>f. cores sp r = Some f \<and> f_state f = Usable)"
  proof
    fix r assume r: "r \<in> block ?d k"
    then have "r \<noteq> h" using nd by blast
    from H(13)[OF this] show "in_range b r \<and> (\<exists>f. cores sp r = Some f \<and> f_state f = Usable)"
      using bspec[OF sb(8) r] by simp
  qed
  have fr: "block ?d k \<inter> listed fl = {}"
  proof -
    have "p \<notin> block ?d k" if "j < 12" "p \<in> set (fl j)" for p j
      using sb(9)[of p j Free] H(7)[OF that(1)] that(2) by blast
    then show ?thesis unfolding listed_def by blast
  qed
  obtain sp1 b2 sp2 where s: "mark_block_free_head b ?d k sp = Some sp1" "push_free ?d k (b, sp1) = Some (b2, sp2)"
      "b2 = b\<lparr>b_free := (b_free b)[k := ?d]\<rparr>" "within (zone_pages b) sp sp2" "lists_ok b2 sp2 (fl(k := ?d # fl k))"
      "cores sp2 = mark_cores ?d k (cores sp)"
    using mark_push_ok[OF H(1,2,3) k12 le us fr] by blast
  have c2: "c2 = (cores sp2)(h \<mapsto> ?g')" "cores sp2 h = Some g"
    using nd g by (simp_all add: c2_def s(6) mark_cores_upd) (simp add: mark_cores_def)
  let ?b3 = "b2\<lparr>b_free_pages := b_free_pages b2 + 2 ^ k\<rparr>"
  have z: "same_zone b ?b3" "same_zone b b2" by (simp_all add: s(3) same_zone_def)
  note zc = same_zone_cong[OF z(1)]
  have pg: "pages_in (blocks b c2 Free) = pages_in (blocks b c Free)"
  proof -
    have "pages_in (blocks b c2 Free) = block ?d k \<union> block h k \<union> pages_in (blocks b c Free - {(h, Suc k)})"
      unfolding c2_def sb(2) by (simp add: Un_assoc)
    moreover have "block ?d k \<union> block h k = block h (Suc k)" by auto
    ultimately show ?thesis using pages_in_remove[OF H(5)] by simp
  qed
  have F2: "blocks b c2 Free = insert (?d, k) (insert (h, k) (blocks b c Free - {(h, Suc k)}))"
    unfolding c2_def by (rule sb(2))
  have uniq: "(h, j) \<in> blocks b c Free \<longleftrightarrow> j = Suc k" for j using blocks_unique[OF H(5)] H(5) by blast
  have "coalesced b c2 {h}"
    unfolding coalesced_def
  proof (intro allI impI, rule ccontr)
    fix p j assume p: "(p, j) \<in> blocks b c2 Free" "(bud b p j, j) \<in> blocks b c2 Free" "j < b_max_order b"
      and n: "\<not> (p \<in> {h} \<or> bud b p j \<in> {h})"
    have "bud b ?d k = h" using bud_props(2)[OF sb(6)] sb(5) by simp
    then have "p \<noteq> ?d \<or> j \<noteq> k" using n by blast
    moreover have "bud b p j \<noteq> ?d \<or> j \<noteq> k"
    proof (rule ccontr)
      assume "\<not> ?thesis"
      then have e: "bud b p k = ?d" "j = k" by auto
      have "block_ok b c2 p k" using blocks_ok[OF _ p(1), of ] sb(1) e by (simp add: c2_def)
      then have "bud b (bud b p k) k = p" using bud_props(2) by (simp add: block_ok_def)
      then show False using e \<open>bud b ?d k = h\<close> n by simp
    qed
    ultimately have "(p, j) \<in> blocks b c Free" "(bud b p j, j) \<in> blocks b c Free" using p n unfolding F2 by auto
    then show False using H(8) p(3) n unfolding coalesced_def by blast
  qed
  moreover have "p \<in> set ((fl(k := ?d # fl k)) j) \<longleftrightarrow> (p, j) \<in> blocks b c2 Free \<and> p \<noteq> h" if "j < 12" for p j
  proof -
    have "?d \<noteq> h" by simp
    then show ?thesis unfolding F2 using H(7)[OF that, of p] by (cases "j = k"; cases "p = h"; simp)
  qed
  moreover have "b_free_pages ?b3 + 2 ^ k = card (pages_in (blocks b c2 Free))" using H(9) pg by (simp add: s(3))
  moreover have "heads_ok b c2" unfolding c2_def by (rule sb(1))
  moreover have "lists_ok ?b3 sp2 (fl(k := ?d # fl k))" using s(5) same_zone_cong(2)[OF z(1)] same_zone_cong(2)[OF z(2)] by (simp add: lists_ok_def)
  ultimately have hold2: "holding ?b3 sp2 (fl(k := ?d # fl k)) h k c2"
    unfolding holding_def zc using H(1,6) within_wf[OF s(4)] c2 by auto
  have "card (pages_in (blocks b c Free)) \<le> b_pages b" using pages_in_zone(3)[OF H(4), of Free] by simp
  then have "u_add (b_free_pages b2) (2 ^ k) = Some (b_free_pages b2 + 2 ^ k)"
    using H(1,9) by (simp add: s(3) geo_def u_add_def USIZE_MAX_def)
  moreover have "st_zone c2 = st_zone c" "blocks b c2 Allocated = blocks b c Allocated" unfolding c2_def by (rule sb(4), rule sb(3))
  ultimately show ?thesis using bo s(1,2,4) hold2 z(2) pg by blast
qed

lemma split_down_ok:
  assumes "holding b sp fl h cur c" "order \<le> cur"
  shows "\<exists>b' sp' fl' c'. split_down h order cur (b, sp) = Some (b', sp') \<and> holding b' sp' fl' h order c' \<and> same_zone b b'
     \<and> within (zone_pages b) sp sp' \<and> st_zone c' = st_zone c
     \<and> pages_in (blocks b c' Free) = pages_in (blocks b c Free) \<and> blocks b c' Allocated = blocks b c Allocated"
  using assms
proof (induction cur arbitrary: b sp fl c)
  case 0
  have "within (zone_pages b) sp sp" using holdingD(2)[OF 0(1)] by (rule within_refl)
  then show ?case using 0 by (simp, blast intro: same_zone_refl)
next
  case (Suc k)
  show ?case
  proof (cases "order = Suc k")
    case True
    have "within (zone_pages b) sp sp" using holdingD(2)[OF Suc.prems(1)] by (rule within_refl)
    then show ?thesis using Suc.prems True by (simp, blast intro: same_zone_refl)
  next
    case False
    then have lt: "order < Suc k" "order \<le> k" using Suc.prems(2) by auto
    obtain sp1 b2 sp2 fl2 c2 where s: "buddy_of b h k = Some (Some (h + 2 ^ k))" "mark_block_free_head b (h + 2 ^ k) k sp = Some sp1"
        "push_free (h + 2 ^ k) k (b, sp1) = Some (b2, sp2)" "u_add (b_free_pages b2) (2 ^ k) = Some (b_free_pages b2 + 2 ^ k)"
        "holding (b2\<lparr>b_free_pages := b_free_pages b2 + 2 ^ k\<rparr>) sp2 fl2 h k c2" "same_zone b b2" "within (zone_pages b) sp sp2"
        "st_zone c2 = st_zone c" "pages_in (blocks b c2 Free) = pages_in (blocks b c Free)" "blocks b c2 Allocated = blocks b c Allocated"
      using split_step[OF Suc.prems(1)] by blast
    let ?b3 = "b2\<lparr>b_free_pages := b_free_pages b2 + 2 ^ k\<rparr>"
    have z: "same_zone b ?b3" using same_zone_trans[OF s(6)] by simp
    note zc = same_zone_cong[OF z]
    obtain b' sp' fl' c' where r: "split_down h order k (?b3, sp2) = Some (b', sp')" "holding b' sp' fl' h order c'" "same_zone ?b3 b'"
        "within (zone_pages b) sp2 sp'" "st_zone c' = st_zone c2"
        "pages_in (blocks b c' Free) = pages_in (blocks b c2 Free)" "blocks b c' Allocated = blocks b c2 Allocated"
      using Suc.IH[OF s(5) lt(2)] unfolding zc by blast
    have k12: "k < 12" using holdingD(10)[OF Suc.prems(1)] by simp
    have "split_down h order (Suc k) (b, sp) = Some (b', sp')"
      using lt(1) s(1-4) r(1) k12 by simp
    then show ?thesis using r s same_zone_trans[OF z r(3)] within_trans[OF s(7) r(4)] by auto
  qed
qed


lemma buddy_alloc_ok:
  assumes inv: "buddy_inv b sp"
  shows "\<exists>r b' sp'. buddy_alloc order (b, sp) = Some (r, b', sp') \<and> buddy_inv b' sp' \<and> keeps b sp b' sp'
     \<and> (case r of
          None \<Rightarrow> b' = b \<and> sp' = sp \<and> (\<forall>p k. (p, k) \<in> blocks b (cores sp) Free \<longrightarrow> k < order)
        | Some h \<Rightarrow> (\<exists>k. (h, k) \<in> blocks b (cores sp) Free \<and> order \<le> k) \<and> aligned b h order \<and> block h order \<subseteq> free_pages_of b sp
            \<and> free_pages_of b' sp' = free_pages_of b sp - block h order
            \<and> alloc_blocks b' sp' = insert (h, order) (alloc_blocks b sp))"
proof -
  obtain fl where st: "struct_inv b sp fl" and co: "coalesced b (cores sp) {}" and n: "b_free_pages b = card (free_pages_of b sp)"
    using inv by (auto simp: buddy_inv_def)
  note S = struct_lists[OF st]
  have kp: "keeps b sp b sp" using S(2) by (simp add: keeps_def within_refl)
  have mo: "b_max_order b < 12" using S(1) by (simp add: geo_def)
  have ord: "k \<le> b_max_order b" if "(p, k) \<in> blocks b (cores sp) Free" for p k using struct_order[OF st that] by simp
  have empty: "b_free b ! k = INVALID_PFN \<longleftrightarrow> fl k = []" if "k < 12" for k
    using lists_okD(1)[OF S(3) that] by (cases "fl k") (auto simp: flinks.dll_def)
  have fo: "find_order (b_free b) [order..<Suc (b_max_order b)] = Some (find (\<lambda>k. b_free b ! k \<noteq> INVALID_PFN) [order..<Suc (b_max_order b)])"
    using mo S(3) by (intro find_order_ok) (auto simp: lists_ok_def)
  show ?thesis
  proof (cases "find (\<lambda>k. b_free b ! k \<noteq> INVALID_PFN) [order..<Suc (b_max_order b)]")
    case None
    have "k < order" if "(p, k) \<in> blocks b (cores sp) Free" for p k
    proof (rule ccontr)
      assume "\<not> k < order"
      then have "k \<in> set [order..<Suc (b_max_order b)]" using ord[OF that] by auto
      then have "b_free b ! k = INVALID_PFN" using None by (auto simp: find_None_iff)
      moreover have "k < 12" using ord[OF that] mo by simp
      ultimately show False using S(5) empty that by fastforce
    qed
    then show ?thesis using None fo inv kp by (auto simp: buddy_alloc_def)
  next
    case (Some k)
    then have "k \<in> set [order..<Suc (b_max_order b)]" and k3: "b_free b ! k \<noteq> INVALID_PFN"
      unfolding find_Some_iff using nth_mem by blast+
    with k3 have k: "order \<le> k" "k \<le> b_max_order b" "b_free b ! k \<noteq> INVALID_PFN" unfolding set_upt by auto
    then have k12: "k < 12" using mo by simp
    obtain h xs where fk: "fl k = h # xs" using empty[OF k12] k(3) by (cases "fl k") auto
    have hk: "(h, k) \<in> blocks b (cores sp) Free" using S(5)[OF k12, of h] fk by simp
    obtain hd sp1 where s1: "pop_free k (b, sp) = Some (Some h, b\<lparr>b_free := (b_free b)[k := hd]\<rparr>, sp1)"
        "within (zone_pages b) sp sp1" "cores sp1 = cores sp"
        "lists_ok (b\<lparr>b_free := (b_free b)[k := hd]\<rparr>) sp1 (fl(k := xs))"
      using pop_free_ok[OF S(2,3) k12] fk by auto
    have bh: "block_ok b (cores sp) h k" using blocks_ok[OF S(4) hk] by simp
    have fin: "finite (free_pages_of b sp)" using pages_in_zone(2)[OF S(4), of Free] by (simp add: free_pages_of_def)
    have hsub: "block h k \<subseteq> free_pages_of b sp" using hk by (auto simp: free_pages_of_def pages_in_def)
    have c2k: "2 ^ k \<le> b_free_pages b" using card_mono[OF fin hsub] n by simp
    let ?b1 = "b\<lparr>b_free := (b_free b)[k := hd]\<rparr>\<lparr>b_free_pages := b_free_pages b - 2 ^ k\<rparr>"
    have z1: "same_zone b ?b1" by (simp add: same_zone_def)
    note zc = same_zone_cong[OF z1]
    obtain g where g: "cores sp h = Some g" "f_tag g = Free" "f_order g = k" "in_range b h" using hk by (auto simp: blocks_def)
    have cs: "cores sp = (cores sp1)(h \<mapsto> g\<lparr>f_tag := Free, f_order := k\<rparr>)" using g s1(3) by auto
    have "distinct (h # xs)" using lists_okD(1)[OF S(3) k12] fk by (simp add: flinks.dll_def)
    moreover have "h \<notin> set (fl j)" if "j < 12" "j \<noteq> k" for j using lists_okD(4)[OF S(3) k12 that] fk by auto
    ultimately have "p \<in> set ((fl(k := xs)) j) \<longleftrightarrow> (p, j) \<in> blocks b (cores sp) Free \<and> p \<noteq> h" if "j < 12" for p j
      using S(5)[OF that, of p] S(5)[OF k12, of p] that fk by (cases "j = k") auto
    moreover have "coalesced b (cores sp) {h}" using co by (auto simp: coalesced_def)
    moreover have "lists_ok ?b1 sp1 (fl(k := xs))" using s1(4) by (simp add: lists_ok_def zone_pages_def in_range_def)
    moreover have "b_free_pages ?b1 + 2 ^ k = card (pages_in (blocks b (cores sp) Free))"
      using c2k n by (simp add: free_pages_of_def)
    moreover have "\<exists>g. cores sp1 h = Some g \<and> cores sp = (cores sp1)(h \<mapsto> g\<lparr>f_tag := Free, f_order := k\<rparr>)"
      by (intro exI[of _ g] conjI) (simp add: s1(3) g(1), rule cs)
    ultimately have hold1: "holding ?b1 sp1 (fl(k := xs)) h k (cores sp)"
      unfolding holding_def zc using S(1,4) within_wf[OF s1(2)] g(4) by blast
    obtain b2 sp2 fl2 c2 where s2: "split_down h order k (?b1, sp1) = Some (b2, sp2)" "holding b2 sp2 fl2 h order c2" "same_zone ?b1 b2"
        "within (zone_pages b) sp1 sp2" "st_zone c2 = st_zone (cores sp)"
        "pages_in (blocks b c2 Free) = pages_in (blocks b (cores sp) Free)" "blocks b c2 Allocated = blocks b (cores sp) Allocated"
      using split_down_ok[OF hold1 k(1), unfolded zc] by blast
    note H = holdingD[OF s2(2)]
    have z2: "same_zone b b2" by (rule same_zone_trans[OF z1 s2(3)])
    note zc2 = same_zone_cong[OF z2]
    obtain g2 where g2: "cores sp2 h = Some g2" "c2 = (cores sp2)(h \<mapsto> g2\<lparr>f_tag := Free, f_order := order\<rparr>)" using H(14) by blast
    obtain f2 where f2: "frames_of sp2 h = Some f2" "core f2 = g2" using frames_of_cores[OF g2(1)] by blast
    obtain sp3 where s3: "mark_block_allocated h order sp2 = Some sp3" "within {h} sp2 sp3"
        "cores sp3 = (cores sp2)(h \<mapsto> g2\<lparr>f_tag := Allocated, f_order := order\<rparr>)"
      using mark_block_allocated_ok[OF H(2,10) f2(1)] f2(2) by auto
    have c3: "cores sp3 = c2(h \<mapsto> (g2\<lparr>f_tag := Free, f_order := order\<rparr>)\<lparr>f_tag := Allocated\<rparr>)"
      unfolding s3(3) g2(2) by (cases g2) simp
    have "c2 h = Some (g2\<lparr>f_tag := Free, f_order := order\<rparr>)" using g2(2) by simp
    note rt = retag_block[OF H(4,5) this, of Allocated, folded c3, simplified]
    have l3: "lists_ok b2 sp3 fl2" by (rule lists_ok_within[OF H(3) s3(2)]) (use H(11) in simp)
    have uniq: "(h, j) \<in> blocks b2 c2 Free \<longleftrightarrow> j = order" for j using blocks_unique[OF H(5)] H(5) by blast
    have "listed_ok b2 (cores sp3) fl2" unfolding listed_ok_def rt(3) using H(7) uniq by auto
    then have st3: "struct_inv b2 sp3 fl2" using H(1) l3 within_wf[OF s3(2)] rt(1) by (simp add: struct_inv_def)
    have co3: "coalesced b2 (cores sp3) {}"
      unfolding coalesced_def rt(3)
    proof (intro allI impI)
      fix p j assume p: "(p, j) \<in> blocks b2 c2 Free - {(h, order)}" "(bud b2 p j, j) \<in> blocks b2 c2 Free - {(h, order)}" "j < b_max_order b2"
      then have "p \<noteq> h" "bud b2 p j \<noteq> h" using uniq by auto
      then show "p \<in> {} \<or> bud b2 p j \<in> {}" using H(8) p unfolding coalesced_def by blast
    qed
    have pall: "pages_in (blocks b2 c2 Free) = free_pages_of b sp" using s2(6) zc2 by (simp add: free_pages_of_def)
    have fp3: "free_pages_of b2 sp3 = free_pages_of b sp - block h order" "block h order \<subseteq> free_pages_of b sp"
      using pages_in_remove[OF H(5)] block_disjoint_pages[OF H(4,5), of Free] pall rt(3)
      unfolding free_pages_of_def by auto
    have "card (free_pages_of b2 sp3) = card (free_pages_of b sp) - 2 ^ order"
      using card_Diff_subset[OF finite_subset[OF fp3(2) fin] fp3(2)] fp3(1) by simp
    then have "b_free_pages b2 = card (free_pages_of b2 sp3)" using H(9) pall by simp
    then have "buddy_inv b2 sp3" using st3 co3 by (auto simp: buddy_inv_def)
    moreover have "alloc_blocks b2 sp3 = insert (h, order) (alloc_blocks b sp)"
      using rt(2) s2(7) zc2 by (simp add: alloc_blocks_def)
    moreover have "aligned b h order" using H(12) zc2 by (simp add: block_ok_def aligned_def)
    moreover have "keeps b sp b2 sp3"
    proof -
      have "within (zone_pages b) sp2 sp3" using within_mono[OF s3(2)] g(4) by (simp add: zone_pages_def)
      then have "within (zone_pages b) sp sp3" using within_trans s1(2) s2(4) by blast
      then show ?thesis using z2 rt(4) s2(5) H(15) by (simp add: keeps_def)
    qed
    moreover have "buddy_alloc order (b, sp) = Some (Some h, b2, sp3)"
      using fo Some s1(1) k12 c2k s2(1) s3(1) k by (simp add: buddy_alloc_def u_sub_def)
    moreover have "\<exists>k. (h, k) \<in> blocks b (cores sp) Free \<and> order \<le> k" using hk k(1) by blast
    ultimately show ?thesis using fp3 by (intro exI[of _ "Some h"] exI[of _ b2] exI[of _ sp3]) simp
  qed
qed

subsection \<open>A reset zone\<close>

lemma buddy_new_geo:
  assumes "2 ^ 11 dvd base" "base + n \<le> 2 ^ 52"
  shows "\<exists>b. buddy_new base n = Some b \<and> geo b \<and> b_base_pfn b = base \<and> b_pages b = n"
proof (cases "n = 0")
  case True
  then show ?thesis using assms by (simp add: buddy_new_def geo_def)
next
  case False
  then have fl: "buddy_floor_log2 n = floor_log2 n" by (simp add: buddy_floor_log2_def floor_log2_def)
  have "n \<le> USIZE_MAX" using assms(2) by (simp add: USIZE_MAX_def)
  then obtain m where m: "floor_log2 n = Some m" using floor_log2_ok[of n] False by blast
  have "(2::nat) ^ min m 11 dvd 2 ^ 11" by (rule le_imp_power_dvd) simp
  then have "2 ^ min m 11 dvd base" using assms(1) dvd_trans by blast
  then show ?thesis using False m fl assms(2) by (simp add: buddy_new_def geo_def MAX_ORDER_def)
qed

lemma buddy_reset_ok:
  assumes geo: "geo b" and wf: "sparse_wf sp"
  shows "\<exists>b' sp'. buddy_reset b sp = Some (b', sp') \<and> buddy_inv b' sp' \<and> keeps b sp b' sp'
     \<and> free_pages_of b' sp' = {} \<and> alloc_blocks b' sp' = {}"
proof -
  let ?b = "b\<lparr>b_free := replicate (MAX_ORDER + 1) INVALID_PFN, b_free_pages := 0\<rparr>"
  let ?body = "\<lambda>i sp. do { pfn \<leftarrow> u_add (b_base_pfn ?b) i;
         case pfn_to_frame sp pfn of None \<Rightarrow> Some sp | Some p \<Rightarrow> frame_modify pfn frame_reset sp }"
  have "\<exists>sp'. for_each ?body [0..<b_pages b] sp = Some sp' \<and> sparse_wf sp' \<and> sparse_geom sp' = sparse_geom sp
     \<and> frames_of sp' = (\<lambda>k. if k \<in> (\<lambda>i. b_base_pfn b + i) ` set [0..<b_pages b] then map_option frame_reset (frames_of sp k) else frames_of sp k)"
  proof (rule fstore.for_modify[OF wf])
    fix x t assume x: "x \<in> set [0..<b_pages b]" "sparse_wf t" "frames_of t (b_base_pfn b + x) = frames_of sp (b_base_pfn b + x)"
    have "u_add (b_base_pfn b) x = Some (b_base_pfn b + x)"
      using x(1) geo by (simp add: geo_def u_add_def USIZE_MAX_def)
    then show "?body x t = (case frames_of sp (b_base_pfn b + x) of None \<Rightarrow> Some t | Some v \<Rightarrow> frame_modify (b_base_pfn b + x) frame_reset t)"
      using x(3) by (simp add: pfn_to_frame_eq split: option.splits)
  qed (auto simp: inj_on_def)
  then obtain sp' where s: "for_each ?body [0..<b_pages b] sp = Some sp'" "sparse_wf sp'" "sparse_geom sp' = sparse_geom sp"
      and fr: "frames_of sp' = (\<lambda>k. if k \<in> (\<lambda>i. b_base_pfn b + i) ` set [0..<b_pages b] then map_option frame_reset (frames_of sp k) else frames_of sp k)"
    by blast
  have img: "k \<in> (\<lambda>i. b_base_pfn b + i) ` set [0..<b_pages b] \<longleftrightarrow> in_range b k" for k
    by (auto simp: in_range_iff image_iff intro!: bexI[of _ "k - b_base_pfn b"])
  have fr': "frames_of sp' k = (if in_range b k then map_option frame_reset (frames_of sp k) else frames_of sp k)" for k
    unfolding fr img ..
  have z: "same_zone b ?b" by (simp add: same_zone_def)
  note zc = same_zone_cong[OF z]
  have unused: "f_tag f = Unused" if "in_range b p" "cores sp' p = Some f" for p f
    using that fr'[of p] by (auto simp: cores_def frame_reset_def)
  have none: "blocks b (cores sp') t = {}" if "t \<noteq> Unused" for t
    using that unused by (auto simp: blocks_def)
  have inv: "struct_inv ?b sp' (\<lambda>_. [])"
    unfolding struct_inv_def zc
  proof (intro conjI)
    show "lists_ok ?b sp' (\<lambda>_. [])" by (simp add: lists_ok_def listed_def MAX_ORDER_def nth_Cons' flinks.dll_def)
    show "heads_ok b (cores sp')" using unused by (auto simp: heads_ok_def)
    show "listed_ok b (cores sp') (\<lambda>_. [])" using none by (simp add: listed_ok_def)
  qed (use geo s in auto)
  have "buddy_inv ?b sp'" using inv none zc by (auto simp: buddy_inv_def coalesced_def free_pages_of_def)
  moreover have "keeps b sp ?b sp'"
    using z s(2,3) fr' by (auto simp: keeps_def within_def zone_pages_def st_zone_def cores_def fun_eq_iff frame_reset_def option.map_comp o_def)
  moreover have "buddy_reset b sp = Some (?b, sp')" using s(1) by (simp add: buddy_reset_def Let_def)
  ultimately show ?thesis using none zc by (auto simp: free_pages_of_def alloc_blocks_def)
qed

subsection \<open>The zone over time\<close>

text \<open>
  The states of a zone that set-up and then any sequence of calls reach: a reset, runs of usable
  pages handed over once each, allocations, and releases of blocks that are allocated. \<open>P\<close> is the
  set of the pages handed over.
\<close>

inductive zone_reach :: "Buddy \<Rightarrow> SparseMem \<Rightarrow> Pfn set \<Rightarrow> bool" where
  boot: "buddy_new base n = Some b0 \<Longrightarrow> 2 ^ 11 dvd base \<Longrightarrow> base + n \<le> 2 ^ 52 \<Longrightarrow> sparse_wf sp0 \<Longrightarrow>
    buddy_reset b0 sp0 = Some (b, sp) \<Longrightarrow> zone_reach b sp {}"
| add: "zone_reach b sp P \<Longrightarrow> start + len \<le> USIZE_MAX \<Longrightarrow> {start..<start + len} \<inter> P = {} \<Longrightarrow>
    (\<And>q. q \<in> {start..<start + len} \<inter> zone_pages b \<Longrightarrow> \<exists>f. frames_of sp q = Some f \<and> f_state f = Usable) \<Longrightarrow>
    add_usable_run start len (b, sp) = Some (b', sp') \<Longrightarrow> zone_reach b' sp' (P \<union> ({start..<start + len} \<inter> zone_pages b))"
| alloc: "zone_reach b sp P \<Longrightarrow> buddy_alloc order (b, sp) = Some (r, b', sp') \<Longrightarrow> zone_reach b' sp' P"
| free: "zone_reach b sp P \<Longrightarrow> (h, k) \<in> alloc_blocks b sp \<Longrightarrow> buddy_free h (b, sp) = Some (b', sp') \<Longrightarrow> zone_reach b' sp' P"

inductive_cases zone_reach_cases: "zone_reach b sp P"

lemma pages_in_insert_minus: "(h, k) \<in> A \<Longrightarrow> pages_in A = pages_in (A - {(h, k)}) \<union> block h k"
  using pages_in_remove[of h k A] by blast

lemma zone_reach_inv: "zone_reach b sp P \<Longrightarrow> buddy_inv b sp \<and> covered b sp = P"
proof (induction rule: zone_reach.induct)
  case (boot base n b0 sp0 b sp)
  then obtain b1 where "buddy_new base n = Some b1" "geo b1" using buddy_new_geo by blast
  then have "geo b0" using boot.hyps(1) by simp
  then show ?case using buddy_reset_ok[OF _ boot.hyps(4)] boot.hyps(5) by (fastforce simp: covered_def)
next
  case (add b sp P start len b' sp')
  have "fresh b sp q" if q: "q \<in> {start..<start + len} \<inter> zone_pages b" for q
  proof -
    obtain f where "frames_of sp q = Some f" "f_state f = Usable" using add.hyps(4)[OF q] by blast
    then have "st_zone (cores sp) q = Some (Usable, f_zone f)" by (simp add: st_zone_def cores_def)
    then show ?thesis using q add.IH add.hyps(3) by (auto simp: fresh_def zone_pages_def)
  qed
  then show ?case using add_usable_run_ok[of b sp start len] add.IH add.hyps(2,5) by (auto simp: covered_def)
next
  case (alloc b sp P order r b' sp')
  then show ?case using buddy_alloc_ok[of b sp order] by (auto simp: covered_def split: option.splits)
next
  case (free b sp P h k b' sp')
  then have "buddy_inv b' sp' \<and> free_pages_of b' sp' = free_pages_of b sp \<union> block h k \<and> alloc_blocks b' sp' = alloc_blocks b sp - {(h, k)}"
    using buddy_free_ok[of b sp h k] by auto
  then show ?case using free.IH pages_in_insert_minus[OF free.hyps(2)] by (auto simp: covered_def)
qed

lemma buddy_inv_alloc_disjoint:
  assumes "buddy_inv b sp" "(p, j) \<in> alloc_blocks b sp" "(q, k) \<in> alloc_blocks b sp" "(p, j) \<noteq> (q, k)"
  shows "block p j \<inter> block q k = {}"
proof -
  have h: "heads_ok b (cores sp)" using assms(1) by (auto simp: buddy_inv_def struct_inv_def)
  have "p \<noteq> q" using assms(2-4) blocks_unique unfolding alloc_blocks_def by blast
  then show ?thesis using blocks_disjoint[OF h] assms(2,3) unfolding alloc_blocks_def by blast
qed

lemma buddy_inv_free_alloc_disjoint:
  assumes "buddy_inv b sp"
  shows "free_pages_of b sp \<inter> pages_in (alloc_blocks b sp) = {}"
proof -
  have h: "heads_ok b (cores sp)" using assms(1) by (auto simp: buddy_inv_def struct_inv_def)
  have "free_pages_of b sp \<inter> block p k = {}" if "(p, k) \<in> alloc_blocks b sp" for p k
    using block_disjoint_other[OF h, of p k Allocated Free] that by (auto simp: alloc_blocks_def free_pages_of_def)
  then show ?thesis unfolding pages_in_def by blast
qed


subsection \<open>Properties\<close>

text \<open>C8. On a zone that satisfies the invariant, \<open>alloc\<close> never panics, keeps the invariant and writes to
no frame outside the zone. It returns \<open>None\<close>, with nothing changed, exactly when no free block
has the requested order or a larger one; otherwise it returns an aligned block of free pages, which
leave the free pages and become one allocated block of that order.\<close>

theorem buddy_alloc_correct:
  assumes "buddy_inv b sp"
  shows "\<exists>r b' sp'. buddy_alloc order (b, sp) = Some (r, b', sp') \<and> buddy_inv b' sp' \<and> keeps b sp b' sp'
     \<and> (r = None \<longleftrightarrow> (\<nexists>p k. (p, k) \<in> blocks b (cores sp) Free \<and> order \<le> k))
     \<and> (case r of
          None \<Rightarrow> b' = b \<and> sp' = sp
        | Some h \<Rightarrow> aligned b h order \<and> block h order \<subseteq> free_pages_of b sp
            \<and> free_pages_of b' sp' = free_pages_of b sp - block h order
            \<and> alloc_blocks b' sp' = insert (h, order) (alloc_blocks b sp))"
proof -
  obtain r b' sp' where a: "buddy_alloc order (b, sp) = Some (r, b', sp')" "buddy_inv b' sp'" "keeps b sp b' sp'"
    and r: "case r of
          None \<Rightarrow> b' = b \<and> sp' = sp \<and> (\<forall>p k. (p, k) \<in> blocks b (cores sp) Free \<longrightarrow> k < order)
        | Some h \<Rightarrow> (\<exists>k. (h, k) \<in> blocks b (cores sp) Free \<and> order \<le> k) \<and> aligned b h order \<and> block h order \<subseteq> free_pages_of b sp
            \<and> free_pages_of b' sp' = free_pages_of b sp - block h order
            \<and> alloc_blocks b' sp' = insert (h, order) (alloc_blocks b sp)"
    using buddy_alloc_ok[OF assms] by blast
  show ?thesis
  proof (cases r)
    case None
    then show ?thesis using a r by (intro exI[of _ r] exI[of _ b'] exI[of _ sp']) (auto simp: not_le)
  next
    case (Some h)
    then show ?thesis using a r by (intro exI[of _ r] exI[of _ b'] exI[of _ sp']) auto
  qed
qed

text \<open>A zone of four pages: pages 0 and 1 are allocated as one block, pages 2 and 3 are free.\<close>

definition demo_page :: "BuddyTag \<Rightarrow> nat \<Rightarrow> Frame" where
  "demo_page t k = frame_absent\<lparr>f_state := Usable, f_tag := t, f_order := k\<rparr>"

definition demo_zone :: Buddy where
  "demo_zone = \<lparr>b_base_pfn = 0, b_pages = 4, b_max_order = 2, b_free = (replicate 12 INVALID_PFN)[1 := 2], b_free_pages = 2\<rparr>"

definition demo_frames :: SparseMem where
  "demo_frames = \<lparr>sp_sections = [\<lparr>ms_frames = (replicate 32768 frame_absent)
       [0 := demo_page Allocated 1, 1 := demo_page Unused 0, 2 := demo_page Free 1, 3 := demo_page Unused 0],
       ms_present = True\<rparr>], sp_section_count = 1, sp_max_present_sec = 0, sp_cached_max_pfn = 4\<rparr>"

lemma demo_frames_at: "p < 4 \<Longrightarrow> frames_of demo_frames p = Some ([demo_page Allocated 1, demo_page Unused 0, demo_page Free 1, demo_page Unused 0] ! p)"
proof -
  assume "p < 4"
  then have "p div 32768 = 0" "p mod 32768 = p" "p = 0 \<or> p = 1 \<or> p = 2 \<or> p = 3" by auto
  then show ?thesis by (auto simp: frames_of_def demo_frames_def present_secs_def)
qed

lemma demo_core: "core (demo_page t k) = demo_page t k"
  by (simp add: core_def demo_page_def frame_absent_def)

lemma demo_cores_at: "p < 4 \<Longrightarrow> cores demo_frames p = Some ([demo_page Allocated 1, demo_page Unused 0, demo_page Free 1, demo_page Unused 0] ! p)"
proof -
  assume p: "p < 4"
  then have "p = 0 \<or> p = 1 \<or> p = 2 \<or> p = 3" by auto
  then show ?thesis using demo_frames_at[OF p] by (auto simp: cores_def demo_core)
qed

lemma demo_cases: "p < 4 \<longleftrightarrow> p = 0 \<or> p = 1 \<or> p = 2 \<or> p = (3::nat)"
  by auto

lemma demo_in_range [simp]: "in_range demo_zone p \<longleftrightarrow> p < 4"
  by (auto simp: in_range_def demo_zone_def)

lemma demo_blocks: "blocks demo_zone (cores demo_frames) Free = {(2, 1)}" "blocks demo_zone (cores demo_frames) Allocated = {(0, 1)}"
proof -
  have "(p, k) \<in> blocks demo_zone (cores demo_frames) t \<longleftrightarrow>
      p < 4 \<and> f_tag ([demo_page Allocated 1, demo_page Unused 0, demo_page Free 1, demo_page Unused 0] ! p) = t
      \<and> f_order ([demo_page Allocated 1, demo_page Unused 0, demo_page Free 1, demo_page Unused 0] ! p) = k" for p k t
    using demo_cores_at[of p] by (auto simp: blocks_def)
  then have b: "(p, k) \<in> blocks demo_zone (cores demo_frames) t \<longleftrightarrow>
      p = 0 \<and> t = Allocated \<and> k = 1 \<or> p = 1 \<and> t = Unused \<and> k = 0 \<or> p = 2 \<and> t = Free \<and> k = 1 \<or> p = 3 \<and> t = Unused \<and> k = 0" for p k t
    unfolding demo_cases by (auto simp: demo_page_def)
  show "blocks demo_zone (cores demo_frames) Free = {(2, 1)}" "blocks demo_zone (cores demo_frames) Allocated = {(0, 1)}"
    by (auto simp: b)
qed

lemma demo_inv: "buddy_inv demo_zone demo_frames"
proof -
  define fl :: "nat \<Rightarrow> Pfn list" where "fl = (\<lambda>_. [])(1 := [2])"
  have geo: "geo demo_zone" by (simp add: geo_def demo_zone_def)
  have wf: "sparse_wf demo_frames" by (auto simp: sparse_wf_def demo_frames_def present_secs_def)
  have bo: "block_ok demo_zone (cores demo_frames) p 1" if "p = 0 \<or> p = 2" for p
  proof -
    have "\<exists>g. cores demo_frames q = Some g \<and> f_state g = Usable \<and> (q \<noteq> p \<longrightarrow> f_tag g = Unused)" if "q \<in> block p 1" for q
    proof -
      have "q = p \<or> q = p + 1" using that by auto
      then have q: "q < 4" "q = 0 \<and> p = 0 \<or> q = 1 \<and> p = 0 \<or> q = 2 \<and> p = 2 \<or> q = 3 \<and> p = 2" using \<open>p = 0 \<or> p = 2\<close> by auto
      show ?thesis using demo_cores_at[OF q(1)] q(2) by (auto simp: demo_page_def)
    qed
    then show ?thesis using that by (auto simp: block_ok_def aligned_def demo_zone_def)
  qed
  have heads: "heads_ok demo_zone (cores demo_frames)"
    unfolding heads_ok_def
  proof (intro allI impI)
    fix p f assume p: "in_range demo_zone p" "cores demo_frames p = Some f" "f_tag f \<noteq> Unused"
    then have "(p, f_order f) \<in> blocks demo_zone (cores demo_frames) (f_tag f)" by (simp add: blocks_def)
    then have "f_order f = 1 \<and> (p = 0 \<or> p = 2)" using demo_blocks p(3) by (cases "f_tag f") auto
    then show "block_ok demo_zone (cores demo_frames) p (f_order f)" using bo by simp
  qed
  have dl: "flinks.dll (frames_of demo_frames) 2 [2]"
  proof -
    have "f_next_free (demo_page Free 1) = INVALID_PFN" "f_prev_free (demo_page Free 1) = INVALID_PFN" "(2::nat) \<noteq> INVALID_PFN"
      by (simp_all add: demo_page_def frame_absent_def) (simp add: INVALID_PFN_def USIZE_MAX_def)
    then show ?thesis using demo_frames_at[of 2] by (simp add: flinks.dll_def)
  qed
  have fr: "b_free demo_zone ! k = (if k = 1 then 2 else INVALID_PFN)" if "k < 12" for k
    using that by (simp add: demo_zone_def nth_list_update)
  have lists: "lists_ok demo_zone demo_frames fl"
    unfolding lists_ok_def
  proof (intro conjI allI impI)
    show "flinks.dll (frames_of demo_frames) (b_free demo_zone ! k) (fl k)" if "k < 12" for k
      using fr[OF that] dl by (simp add: fl_def flinks.dll_def)
    show "listed fl \<subseteq> zone_pages demo_zone" by (auto simp: listed_def fl_def zone_pages_def split: if_splits)
  qed (auto simp: fl_def demo_zone_def)
  have "listed_ok demo_zone (cores demo_frames) fl" by (auto simp: listed_ok_def demo_blocks fl_def)
  then have "struct_inv demo_zone demo_frames fl" using geo wf lists heads by (simp add: struct_inv_def)
  moreover have "coalesced demo_zone (cores demo_frames) {}"
    unfolding coalesced_def demo_blocks by (auto simp: bud_def demo_zone_def split: if_splits)
  moreover have "b_free_pages demo_zone = card (free_pages_of demo_zone demo_frames)"
    by (simp add: free_pages_of_def demo_blocks) (simp add: demo_zone_def)
  ultimately show ?thesis by (auto simp: buddy_inv_def)
qed

lemma demo_free_pages: "free_pages_of demo_zone demo_frames = {2..<4}" "alloc_blocks demo_zone demo_frames = {(0, 1)}"
  by (simp_all add: free_pages_of_def demo_blocks alloc_blocks_def)

theorem buddy_alloc_correct_witness:
  "\<exists>h b' sp'. buddy_alloc 0 (demo_zone, demo_frames) = Some (Some h, b', sp') \<and> buddy_inv b' sp' \<and> h \<in> {2..<4}
     \<and> free_pages_of b' sp' = {2..<4} - {h}"
proof -
  have ex: "\<exists>p k. (p, k) \<in> blocks demo_zone (cores demo_frames) Free \<and> 0 \<le> k" by (auto simp: demo_blocks)
  obtain r b' sp' where a: "buddy_alloc 0 (demo_zone, demo_frames) = Some (r, b', sp')" "buddy_inv b' sp'" "r \<noteq> None"
     "case r of None \<Rightarrow> b' = demo_zone \<and> sp' = demo_frames
        | Some h \<Rightarrow> aligned demo_zone h 0 \<and> block h 0 \<subseteq> free_pages_of demo_zone demo_frames
            \<and> free_pages_of b' sp' = free_pages_of demo_zone demo_frames - block h 0
            \<and> alloc_blocks b' sp' = insert (h, 0) (alloc_blocks demo_zone demo_frames)"
    using buddy_alloc_correct[OF demo_inv, of 0] ex by blast
  then show ?thesis by (cases r) (auto simp: demo_free_pages)
qed

text \<open>C9. Releasing the head of an allocated block never panics and always returns; it keeps the
invariant (so the free buddies are merged again), the pages of the block become free, they were not
free before, and no other allocated block changes.\<close>

theorem buddy_free_correct:
  assumes "buddy_inv b sp" "(h, k) \<in> alloc_blocks b sp"
  shows "\<exists>b' sp'. buddy_free h (b, sp) = Some (b', sp') \<and> buddy_inv b' sp' \<and> keeps b sp b' sp'
     \<and> free_pages_of b' sp' = free_pages_of b sp \<union> block h k \<and> free_pages_of b sp \<inter> block h k = {}
     \<and> alloc_blocks b' sp' = alloc_blocks b sp - {(h, k)}"
  by (rule buddy_free_ok[OF assms])

theorem buddy_free_correct_witness:
  "\<exists>b' sp'. buddy_free 0 (demo_zone, demo_frames) = Some (b', sp') \<and> buddy_inv b' sp'
     \<and> free_pages_of b' sp' = {0..<4} \<and> alloc_blocks b' sp' = {}"
proof -
  have "(0, 1) \<in> alloc_blocks demo_zone demo_frames" by (simp add: demo_free_pages)
  from buddy_free_correct[OF demo_inv this] show ?thesis by (auto simp: demo_free_pages ivl_disj_un)
qed

text \<open>C10. Handing a run of usable pages that no block covers to a zone returns without a panic, and
adds exactly the pages of the run that lie in the zone to the free pages.\<close>

theorem add_usable_run_exact:
  assumes "buddy_inv b sp" "start + len \<le> USIZE_MAX" "\<And>q. q \<in> {start..<start + len} \<Longrightarrow> in_range b q \<Longrightarrow> fresh b sp q"
  shows "\<exists>b' sp'. add_usable_run start len (b, sp) = Some (b', sp') \<and> buddy_inv b' sp' \<and> keeps b sp b' sp'
     \<and> free_pages_of b' sp' = free_pages_of b sp \<union> {q \<in> {start..<start + len}. in_range b q}
     \<and> alloc_blocks b' sp' = alloc_blocks b sp"
proof -
  have run: "{start..<start + len} \<inter> zone_pages b = {q \<in> {start..<start + len}. in_range b q}" by (auto simp: zone_pages_def)
  have "\<forall>q \<in> {start..<start + len} \<inter> zone_pages b. fresh b sp q" using assms(3) by (auto simp: zone_pages_def)
  from add_usable_run_ok[OF assms(1,2) this] show ?thesis unfolding run .
qed


lemma demo_reset:
  "\<exists>b sp. buddy_reset demo_zone demo_frames = Some (b, sp) \<and> buddy_inv b sp \<and> free_pages_of b sp = {} \<and> alloc_blocks b sp = {}
     \<and> same_zone demo_zone b \<and> (\<forall>q. q < 4 \<longrightarrow> fresh b sp q)"
proof -
  obtain fl where "struct_inv demo_zone demo_frames fl" using demo_inv by (auto simp: buddy_inv_def)
  note S = struct_lists[OF this]
  obtain b sp where r: "buddy_reset demo_zone demo_frames = Some (b, sp)" "buddy_inv b sp" "keeps demo_zone demo_frames b sp"
      "free_pages_of b sp = {}" "alloc_blocks b sp = {}"
    using buddy_reset_ok[OF S(1,2)] by blast
  have z: "same_zone demo_zone b" "st_zone (cores sp) = st_zone (cores demo_frames)" using r(3) by (auto simp: keeps_def)
  have "st_zone (cores demo_frames) q = Some (Usable, Normal)" if "q < 4" for q
    using demo_cores_at[OF that] that unfolding demo_cases by (auto simp: st_zone_def demo_page_def frame_absent_def)
  then have "fresh b sp q" if "q < 4" for q
    using that z(2) r(4,5) same_zone_cong(1)[OF z(1)] by (simp add: fresh_def covered_def)
  then show ?thesis using r z by blast
qed

theorem add_usable_run_exact_witness:
  "\<exists>b sp b' sp'. buddy_reset demo_zone demo_frames = Some (b, sp) \<and> add_usable_run 0 4 (b, sp) = Some (b', sp')
     \<and> buddy_inv b' sp' \<and> free_pages_of b' sp' = {0, 1, 2, 3}"
proof -
  obtain b sp where r: "buddy_reset demo_zone demo_frames = Some (b, sp)" "buddy_inv b sp" "free_pages_of b sp = {}" "same_zone demo_zone b"
      "\<forall>q. q < 4 \<longrightarrow> fresh b sp q"
    using demo_reset by blast
  have le: "0 + 4 \<le> USIZE_MAX" by (simp add: USIZE_MAX_def)
  have fr: "fresh b sp q" if "q \<in> {0..<0 + 4}" for q using r(5) that by simp
  have "{q \<in> {0..<0 + 4}. in_range b q} = {0, 1, 2, 3}" using same_zone_cong(1)[OF r(4)] by auto
  then show ?thesis using add_usable_run_exact[OF r(2) le fr] r(1,3) by auto
qed

text \<open>C11. After a reset and any sequence of hand-overs, allocations and releases, every page handed to
the zone is either free or in exactly one allocated block, the counter is the number of free pages,
allocated blocks are pairwise disjoint, and no two free buddies are left unmerged.\<close>

theorem zone_reach_safe:
  assumes "zone_reach b sp P"
  shows "free_pages_of b sp \<union> pages_in (alloc_blocks b sp) = P \<and> free_pages_of b sp \<inter> pages_in (alloc_blocks b sp) = {}
     \<and> b_free_pages b = card (free_pages_of b sp) \<and> coalesced b (cores sp) {}
     \<and> (\<forall>p j q k. (p, j) \<in> alloc_blocks b sp \<longrightarrow> (q, k) \<in> alloc_blocks b sp \<longrightarrow> (p, j) \<noteq> (q, k) \<longrightarrow> block p j \<inter> block q k = {})"
proof -
  have inv: "buddy_inv b sp" "covered b sp = P" using zone_reach_inv[OF assms] by auto
  then have "coalesced b (cores sp) {}" "b_free_pages b = card (free_pages_of b sp)" by (auto simp: buddy_inv_def)
  then show ?thesis
    using inv(2) buddy_inv_free_alloc_disjoint[OF inv(1)] buddy_inv_alloc_disjoint[OF inv(1)] unfolding covered_def by blast
qed

theorem zone_reach_safe_witness:
  "\<exists>b0 sp0 b1 sp1 r b sp. buddy_reset demo_zone demo_frames = Some (b0, sp0) \<and> add_usable_run 0 4 (b0, sp0) = Some (b1, sp1)
     \<and> buddy_alloc 1 (b1, sp1) = Some (r, b, sp) \<and> free_pages_of b sp \<union> pages_in (alloc_blocks b sp) = {0, 1, 2, 3}"
proof -
  have new: "buddy_new 0 4 = Some (demo_zone\<lparr>b_free := replicate 12 INVALID_PFN, b_free_pages := 0\<rparr>)"
  proof -
    have "bit_len 4 = 3" by (simp add: bit_len.simps)
    then show ?thesis
      by (simp add: buddy_new_def buddy_floor_log2_def leading_zeros_def u_sub_def demo_zone_def MAX_ORDER_def)
  qed
  obtain b0 sp0 where r: "buddy_reset demo_zone demo_frames = Some (b0, sp0)" "buddy_inv b0 sp0" "free_pages_of b0 sp0 = {}" "same_zone demo_zone b0"
      "\<forall>q. q < 4 \<longrightarrow> fresh b0 sp0 q"
    using demo_reset by blast
  have "sparse_wf demo_frames" using demo_inv by (auto simp: buddy_inv_def struct_inv_def)
  moreover have "buddy_reset (demo_zone\<lparr>b_free := replicate 12 INVALID_PFN, b_free_pages := 0\<rparr>) demo_frames = Some (b0, sp0)"
    using r(1) by (simp add: buddy_reset_def Let_def)
  ultimately have z0: "zone_reach b0 sp0 {}" using zone_reach.boot[OF new] by simp
  have zp: "{0..<0 + 4} \<inter> zone_pages b0 = {0, 1, 2, 3}" using same_zone_cong(1)[OF r(4)] by (auto simp: zone_pages_def)
  have us: "\<exists>f. frames_of sp0 q = Some f \<and> f_state f = Usable" if "q \<in> {0..<0 + 4} \<inter> zone_pages b0" for q
    using r(5) that by (auto simp: fresh_def st_zone_def cores_def)
  have "\<forall>q \<in> {0..<0 + 4} \<inter> zone_pages b0. fresh b0 sp0 q" using r(5) by auto
  moreover have le: "0 + 4 \<le> USIZE_MAX" by (simp add: USIZE_MAX_def)
  ultimately obtain b1 sp1 where a: "add_usable_run 0 4 (b0, sp0) = Some (b1, sp1)" "buddy_inv b1 sp1"
    using add_usable_run_ok[OF r(2)] by blast
  have z1: "zone_reach b1 sp1 ({} \<union> ({0..<0 + 4} \<inter> zone_pages b0))"
    by (rule zone_reach.add[OF z0 le _ us a(1)]) simp_all
  obtain x b sp where c: "buddy_alloc 1 (b1, sp1) = Some (x, b, sp)" using buddy_alloc_ok[OF a(2), of 1] by blast
  have "zone_reach b sp ({} \<union> ({0..<0 + 4} \<inter> zone_pages b0))" by (rule zone_reach.alloc[OF z1 c])
  then show ?thesis using zone_reach_safe zp r(1) a(1) c by fastforce
qed

text \<open>C12. Allocating a block and releasing it again gives the zone back its free pages, its allocated
blocks and its counter.\<close>

theorem buddy_alloc_free_roundtrip:
  assumes "buddy_inv b sp" "buddy_alloc order (b, sp) = Some (Some h, b1, sp1)"
  shows "\<exists>b2 sp2. buddy_free h (b1, sp1) = Some (b2, sp2) \<and> buddy_inv b2 sp2 \<and> free_pages_of b2 sp2 = free_pages_of b sp
     \<and> alloc_blocks b2 sp2 = alloc_blocks b sp \<and> b_free_pages b2 = b_free_pages b"
proof -
  have a: "buddy_inv b1 sp1" "block h order \<subseteq> free_pages_of b sp" "free_pages_of b1 sp1 = free_pages_of b sp - block h order"
      "alloc_blocks b1 sp1 = insert (h, order) (alloc_blocks b sp)"
    using buddy_alloc_ok[OF assms(1), of order] assms(2) by auto
  have new: "(h, order) \<notin> alloc_blocks b sp"
  proof
    assume "(h, order) \<in> alloc_blocks b sp"
    moreover have "h \<in> block h order" by simp
    ultimately have "h \<in> pages_in (alloc_blocks b sp)" "h \<in> free_pages_of b sp" using a(2) unfolding pages_in_def by blast+
    then show False using buddy_inv_free_alloc_disjoint[OF assms(1)] by blast
  qed
  obtain b2 sp2 where f: "buddy_free h (b1, sp1) = Some (b2, sp2)" "buddy_inv b2 sp2"
      "free_pages_of b2 sp2 = free_pages_of b1 sp1 \<union> block h order" "alloc_blocks b2 sp2 = alloc_blocks b1 sp1 - {(h, order)}"
    using buddy_free_ok[OF a(1), of h order] a(4) by auto
  have "free_pages_of b2 sp2 = free_pages_of b sp" "alloc_blocks b2 sp2 = alloc_blocks b sp" using f(3,4) a new by auto
  moreover have "b_free_pages b2 = b_free_pages b" using f(2) assms(1) calculation(1) by (simp add: buddy_inv_def)
  ultimately show ?thesis using f by blast
qed

theorem buddy_alloc_free_roundtrip_witness:
  "\<exists>h b1 sp1 b2 sp2. buddy_alloc 0 (demo_zone, demo_frames) = Some (Some h, b1, sp1) \<and> buddy_free h (b1, sp1) = Some (b2, sp2)
     \<and> free_pages_of b2 sp2 = {2..<4} \<and> alloc_blocks b2 sp2 = {(0, 1)} \<and> b_free_pages b2 = 2"
proof -
  obtain r b1 sp1 where a: "buddy_alloc 0 (demo_zone, demo_frames) = Some (r, b1, sp1)"
      and c: "r = None \<Longrightarrow> \<forall>p k. (p, k) \<in> blocks demo_zone (cores demo_frames) Free \<longrightarrow> k < 0"
    using buddy_alloc_ok[OF demo_inv, of 0] by (fastforce split: option.splits)
  obtain h where "r = Some h" using c by (cases r) (auto simp: demo_blocks)
  then have a: "buddy_alloc 0 (demo_zone, demo_frames) = Some (Some h, b1, sp1)" using a by simp
  have "b_free_pages demo_zone = 2" by (simp add: demo_zone_def)
  then show ?thesis using buddy_alloc_free_roundtrip[OF demo_inv a] a by (auto simp: demo_free_pages)
qed

end
