(* ===== verification/Pfn_Iterator.thy ===== *)
theory Pfn_Iterator
  imports Sparsemem
begin

text \<open>
  \<open>memory/pmm/pfn_iterator.rs\<close>: the iterator over the maximal runs of usable pages. The shared
  reference to the section table is an argument of \<open>run_next\<close>.
\<close>

record PfnRun =
  run_start :: Pfn
  run_len :: usize

definition run_end :: "PfnRun \<Rightarrow> Pfn option" where
  "run_end r = u_add (run_start r) (run_len r)"

record RunIter =
  it_sec :: usize
  it_idx :: usize
  it_run_start :: "Pfn option"
  it_run_len :: usize

definition iter_new :: RunIter where
  "iter_new = \<lparr>it_sec = 0, it_idx = 0, it_run_start = None, it_run_len = 0\<rparr>"

definition close_run :: "RunIter \<Rightarrow> PfnRun option \<times> RunIter" where
  "close_run it = (case it_run_start it of
       None \<Rightarrow> (None, it)
     | Some start \<Rightarrow> (Some \<lparr>run_start = start, run_len = it_run_len it\<rparr>, it\<lparr>it_run_start := None, it_run_len := 0\<rparr>))"

text \<open>The loop over the frames of one section: a closed run, or the state at the end.\<close>

function scan_section :: "Frame list \<Rightarrow> Pfn \<Rightarrow> RunIter \<Rightarrow> (PfnRun option \<times> RunIter) option" where
  "scan_section frames base_pfn it =
     (if it_idx it < PAGES_PER_SECTION then do {
        frame \<leftarrow> arr_get frames (it_idx it);
        pfn \<leftarrow> u_add base_pfn (it_idx it);
        let it1 = it\<lparr>it_idx := it_idx it + 1\<rparr>;
        if f_state frame = Usable then
          (case it_run_start it1 of
             None \<Rightarrow> scan_section frames base_pfn (it1\<lparr>it_run_start := Some pfn, it_run_len := 1\<rparr>)
           | Some _ \<Rightarrow> do {
               n \<leftarrow> u_add (it_run_len it1) 1;
               scan_section frames base_pfn (it1\<lparr>it_run_len := n\<rparr>)
             })
        else
          (case close_run it1 of
             (Some run, it2) \<Rightarrow> Some (Some run, it2)
           | (None, it2) \<Rightarrow> scan_section frames base_pfn it1)
      } else Some (None, it))"
  by pat_completeness auto
termination by (relation "measure (\<lambda>(_, _, it). PAGES_PER_SECTION - it_idx it)") (auto simp: Let_def)

declare scan_section.simps [simp del]

text \<open>The loop over the sections.\<close>

function scan_sections :: "SparseMem \<Rightarrow> RunIter \<Rightarrow> (PfnRun option \<times> RunIter) option" where
  "scan_sections sp it =
     (if it_sec it \<le> sp_max_present_sec sp then do {
        section \<leftarrow> arr_get (sp_sections sp) (it_sec it);
        if \<not> ms_present section then do {
          let it1 = it\<lparr>it_idx := 0, it_sec := it_sec it + 1\<rparr>;
          case close_run it1 of
            (Some run, it2) \<Rightarrow> Some (Some run, it2)
          | (None, it2) \<Rightarrow> scan_sections sp it1
        } else do {
          (r, it1) \<leftarrow> scan_section (ms_frames section) (section_base_pfn (it_sec it)) it;
          case r of
            Some run \<Rightarrow> Some (Some run, it1)
          | None \<Rightarrow> scan_sections sp (it1\<lparr>it_idx := 0, it_sec := it_sec it + 1\<rparr>)
        }
      } else Some (close_run it))"
  by pat_completeness auto
termination
  by (relation "measure (\<lambda>(sp, it). Suc (sp_max_present_sec sp) - it_sec it)") (auto simp: Let_def)

declare scan_sections.simps [simp del]

definition run_next :: "SparseMem \<Rightarrow> RunIter \<Rightarrow> (PfnRun option \<times> RunIter) option" where
  "run_next sp it = (if sp_section_count sp = 0 then Some (close_run it) else scan_sections sp it)"

definition size_hint :: "SparseMem \<Rightarrow> RunIter \<Rightarrow> usize \<times> usize option" where
  "size_hint sp it = (if sp_section_count sp = 0 then (0, Some 0)
     else (0, Some (saturating_add (saturating_sub (sp_max_present_sec sp) (it_sec it)) 1)))"

text \<open>A \<open>for\<close> loop over the iterator; not returning is \<open>None\<close>.\<close>

partial_function (option) runs_from :: "SparseMem \<Rightarrow> RunIter \<Rightarrow> PfnRun list option" where
  "runs_from sp it = do {
     (r, it') \<leftarrow> run_next sp it;
     case r of None \<Rightarrow> Some [] | Some run \<Rightarrow> do { rs \<leftarrow> runs_from sp it'; Some (run # rs) }
   }"

definition usable_runs :: "SparseMem \<Rightarrow> PfnRun list option" where
  "usable_runs sp = runs_from sp iter_new"

subsection \<open>The position of the iterator\<close>

definition usable :: "SparseMem \<Rightarrow> Pfn \<Rightarrow> bool" where
  "usable sp p \<longleftrightarrow> (\<exists>f. frames_of sp p = Some f \<and> f_state f = Usable)"

definition limit :: "SparseMem \<Rightarrow> Pfn" where
  "limit sp = Suc (sp_max_present_sec sp) * 32768"

definition pos :: "RunIter \<Rightarrow> Pfn" where
  "pos it = it_sec it * 32768 + it_idx it"

text \<open>Where the pages not yet reported begin.\<close>

definition start_of :: "RunIter \<Rightarrow> Pfn" where
  "start_of it = (case it_run_start it of None \<Rightarrow> pos it | Some s \<Rightarrow> s)"

definition iter_inv :: "SparseMem \<Rightarrow> RunIter \<Rightarrow> bool" where
  "iter_inv sp it \<longleftrightarrow> it_sec it \<le> Suc (sp_max_present_sec sp) \<and> it_idx it \<le> 32768
     \<and> (it_sec it \<notin> present_secs sp \<longrightarrow> it_idx it = 0)
     \<and> (case it_run_start it of None \<Rightarrow> True
        | Some s \<Rightarrow> s < pos it \<and> it_run_len it = pos it - s \<and> (\<forall>p. s \<le> p \<and> p < pos it \<longrightarrow> usable sp p))"

definition run_pages :: "PfnRun \<Rightarrow> Pfn set" where
  "run_pages r = {run_start r ..< run_start r + run_len r}"

text \<open>What a step from \<open>it\<close> may do: report the next run, or find none up to the end.\<close>

definition step_ok :: "SparseMem \<Rightarrow> RunIter \<Rightarrow> PfnRun option \<Rightarrow> RunIter \<Rightarrow> bool" where
  "step_ok sp it r it' \<longleftrightarrow> (case r of
       Some run \<Rightarrow> iter_inv sp it' \<and> it_run_start it' = None \<and> 0 < run_len run \<and> start_of it \<le> run_start run
         \<and> (run_start run + run_len run < pos it' \<or> run_start run + run_len run = pos it' \<and> pos it' = limit sp)
         \<and> {p. start_of it \<le> p \<and> p < pos it' \<and> usable sp p} = run_pages run
     | None \<Rightarrow> {p. start_of it \<le> p \<and> p < limit sp \<and> usable sp p} = {})"

text \<open>Moving on from \<open>it\<close> to \<open>it'\<close> without having passed a usable page outside of the open run.\<close>

definition cont_ok :: "SparseMem \<Rightarrow> RunIter \<Rightarrow> RunIter \<Rightarrow> bool" where
  "cont_ok sp it it' \<longleftrightarrow> iter_inv sp it' \<and> start_of it \<le> start_of it' \<and> (\<forall>p. start_of it \<le> p \<and> p < start_of it' \<longrightarrow> \<not> usable sp p)"

lemma cont_trans: "cont_ok sp a b \<Longrightarrow> cont_ok sp b c \<Longrightarrow> cont_ok sp a c"
  unfolding cont_ok_def by (metis le_trans not_le)

lemma cont_refl: "iter_inv sp it \<Longrightarrow> cont_ok sp it it"
  by (auto simp: cont_ok_def)

lemma cont_step:
  assumes "cont_ok sp a b" "step_ok sp b r c"
  shows "step_ok sp a r c"
proof -
  have "{p. start_of a \<le> p \<and> p < n \<and> usable sp p} = {p. start_of b \<le> p \<and> p < n \<and> usable sp p}" for n
    using assms(1) by (auto simp: cont_ok_def)
  then show ?thesis using assms by (auto simp: step_ok_def cont_ok_def split: option.splits)
qed

text \<open>One frame: it joins the open run, is skipped, or closes the run.\<close>

lemma frame_usable:
  assumes "iter_inv sp it" "it_idx it < 32768" "it_sec it \<in> present_secs sp" "usable sp (pos it)"
  shows "it_run_start it = None \<Longrightarrow> cont_ok sp it (it\<lparr>it_idx := Suc (it_idx it), it_run_start := Some (pos it), it_run_len := 1\<rparr>)"
    and "it_run_start it = Some s \<Longrightarrow> cont_ok sp it (it\<lparr>it_idx := Suc (it_idx it), it_run_len := Suc (it_run_len it)\<rparr>)"
  using assms by (auto simp: cont_ok_def iter_inv_def start_of_def pos_def less_Suc_eq split: option.splits)

lemma frame_skip:
  assumes "iter_inv sp it" "it_idx it < 32768" "it_sec it \<in> present_secs sp" "\<not> usable sp (pos it)" "it_run_start it = None"
  shows "cont_ok sp it (it\<lparr>it_idx := Suc (it_idx it)\<rparr>)"
  using assms by (auto simp: cont_ok_def iter_inv_def start_of_def pos_def less_Suc_eq)

lemma close_ok:
  assumes inv: "iter_inv sp it" and run: "it_run_start it = Some s"
    and it': "iter_inv sp (it'\<lparr>it_run_start := None, it_run_len := 0\<rparr>)"
    and gap: "pos it < pos it' \<or> pos it' = pos it \<and> pos it = limit sp" "\<And>p. pos it \<le> p \<Longrightarrow> p < pos it' \<Longrightarrow> \<not> usable sp p"
  shows "step_ok sp it (Some \<lparr>run_start = s, run_len = it_run_len it\<rparr>) (it'\<lparr>it_run_start := None, it_run_len := 0\<rparr>)"
proof -
  have s: "s < pos it" "it_run_len it = pos it - s" "\<And>p. s \<le> p \<Longrightarrow> p < pos it \<Longrightarrow> usable sp p" "start_of it = s"
    using inv run by (auto simp: iter_inv_def start_of_def)
  have p': "pos (it'\<lparr>it_run_start := None, it_run_len := 0\<rparr>) = pos it'" by (simp add: pos_def)
  have "{p. s \<le> p \<and> p < pos it' \<and> usable sp p} = {s..<pos it}"
  proof (rule set_eqI)
    fix p show "p \<in> {p. s \<le> p \<and> p < pos it' \<and> usable sp p} \<longleftrightarrow> p \<in> {s..<pos it}"
      using gap s(3)[of p] by (cases "p < pos it") auto
  qed
  then show ?thesis using it' s gap(1) p' by (auto simp: step_ok_def run_pages_def)
qed

lemma scan_section_ok:
  assumes wf: "sparse_wf sp" and sec: "it_sec it \<in> present_secs sp" and inv: "iter_inv sp it"
  shows "\<exists>r it'. scan_section (ms_frames (sp_sections sp ! it_sec it)) (section_base_pfn (it_sec it)) it = Some (r, it')
    \<and> it_sec it' = it_sec it \<and> (case r of Some run \<Rightarrow> step_ok sp it (Some run) it' | None \<Rightarrow> cont_ok sp it it' \<and> it_idx it' = 32768)"
  using sec inv
proof (induction "32768 - it_idx it" arbitrary: it rule: less_induct)
  case less
  let ?fs = "ms_frames (sp_sections sp ! it_sec it)" and ?base = "section_base_pfn (it_sec it)"
  have max: "it_sec it \<le> sp_max_present_sec sp" and len: "length ?fs = 32768"
    using wf less.prems(1) by (auto simp: sparse_wf_def)
  show ?case
  proof (cases "it_idx it < 32768")
    case False
    then have "it_idx it = 32768" using less.prems(2) by (simp add: iter_inv_def)
    then show ?thesis using cont_refl[OF less.prems(2)] by (subst scan_section.simps) simp
  next
    case True
    have le: "it_sec it \<le> 2 ^ 37" using wf less.prems(1) by (auto simp: sparse_wf_def present_secs_def)
    have us: "usable sp (pos it) \<longleftrightarrow> f_state (?fs ! it_idx it) = Usable"
      using frames_of_section[OF less.prems(1) True] by (simp add: usable_def pos_def)
    have add: "u_add ?base (it_idx it) = Some (pos it)"
      using le True by (simp add: section_base_pfn_eq u_add_def pos_def USIZE_MAX_def)
    have rec: "\<exists>r it'. scan_section ?fs ?base it1 = Some (r, it') \<and> it_sec it' = it_sec it
        \<and> (case r of Some run \<Rightarrow> step_ok sp it (Some run) it' | None \<Rightarrow> cont_ok sp it it' \<and> it_idx it' = 32768)"
      if "cont_ok sp it it1" "it_sec it1 = it_sec it" "it_idx it1 = Suc (it_idx it)" for it1
    proof -
      have "\<exists>r it'. scan_section ?fs ?base it1 = Some (r, it') \<and> it_sec it' = it_sec it
        \<and> (case r of Some run \<Rightarrow> step_ok sp it1 (Some run) it' | None \<Rightarrow> cont_ok sp it1 it' \<and> it_idx it' = 32768)"
        using less.hyps[of it1] that True less.prems(1) by (auto simp: cont_ok_def)
      then obtain r it' where r: "scan_section ?fs ?base it1 = Some (r, it')" "it_sec it' = it_sec it"
        "case r of Some run \<Rightarrow> step_ok sp it1 (Some run) it' | None \<Rightarrow> cont_ok sp it1 it' \<and> it_idx it' = 32768" by blast
      then show ?thesis using cont_step[OF that(1)] cont_trans[OF that(1)] by (cases r) auto
    qed
    show ?thesis
    proof (cases "f_state (?fs ! it_idx it) = Usable")
      case u: True
      note fu = frame_usable[OF less.prems(2) True less.prems(1)] us
      show ?thesis
      proof (cases "it_run_start it")
        case None
        let ?it1 = "it\<lparr>it_idx := Suc (it_idx it), it_run_start := Some (pos it), it_run_len := 1\<rparr>"
        have "scan_section ?fs ?base it = scan_section ?fs ?base ?it1"
          using True len add u None by (subst scan_section.simps) (simp add: Let_def)
        then show ?thesis using rec[of ?it1] fu u None by simp
      next
        case (Some s)
        let ?it1 = "it\<lparr>it_idx := Suc (it_idx it), it_run_len := Suc (it_run_len it)\<rparr>"
        have "it_run_len it \<le> pos it" using less.prems(2) Some by (auto simp: iter_inv_def)
        then have "it_run_len it + 1 \<le> USIZE_MAX" using le True by (simp add: pos_def USIZE_MAX_def)
        then have "scan_section ?fs ?base it = scan_section ?fs ?base ?it1"
          using True len add u Some by (subst scan_section.simps) (simp add: Let_def)
        then show ?thesis using rec[of ?it1] fu u Some by simp
      qed
    next
      case nu: False
      let ?it1 = "it\<lparr>it_idx := Suc (it_idx it)\<rparr>"
      show ?thesis
      proof (cases "it_run_start it")
        case None
        have "scan_section ?fs ?base it = scan_section ?fs ?base ?it1"
          using True len add nu None by (subst scan_section.simps) (simp add: Let_def close_run_def)
        then show ?thesis using rec[of ?it1] frame_skip[OF less.prems(2) True less.prems(1) _ None] us nu by simp
      next
        case (Some s)
        have "scan_section ?fs ?base it = Some (Some \<lparr>run_start = s, run_len = it_run_len it\<rparr>, ?it1\<lparr>it_run_start := None, it_run_len := 0\<rparr>)"
          using True len add nu Some by (subst scan_section.simps) (simp add: Let_def close_run_def)
        moreover have "step_ok sp it (Some \<lparr>run_start = s, run_len = it_run_len it\<rparr>) (?it1\<lparr>it_run_start := None, it_run_len := 0\<rparr>)"
        proof (rule close_ok[OF less.prems(2) Some])
          show "\<not> usable sp p" if "pos it \<le> p" "p < pos ?it1" for p
            using that us nu by (auto simp: pos_def less_Suc_eq_le dest: order_antisym)
        qed (use True max less.prems in \<open>auto simp: iter_inv_def pos_def\<close>)
        ultimately show ?thesis by simp
      qed
    qed
  qed
qed

lemma scan_sections_ok:
  assumes wf: "sparse_wf sp" and cnt: "0 < sp_section_count sp" and inv: "iter_inv sp it"
  shows "\<exists>r it'. scan_sections sp it = Some (r, it') \<and> step_ok sp it r it'"
  using inv
proof (induction "Suc (sp_max_present_sec sp) - it_sec it" arbitrary: it rule: less_induct)
  case less
  show ?case
  proof (cases "it_sec it \<le> sp_max_present_sec sp")
    case False
    then have "it_sec it = Suc (sp_max_present_sec sp)" using less.prems by (simp add: iter_inv_def)
    moreover from this have "it_idx it = 0" using less.prems wf by (auto simp: iter_inv_def sparse_wf_def)
    ultimately have p: "pos it = limit sp" by (simp add: pos_def limit_def)
    have run: "scan_sections sp it = Some (close_run it)" using False by (subst scan_sections.simps) simp
    show ?thesis
    proof (cases "it_run_start it")
      case None
      then show ?thesis using run p by (auto simp: close_run_def step_ok_def start_of_def)
    next
      case (Some s)
      have "step_ok sp it (Some \<lparr>run_start = s, run_len = it_run_len it\<rparr>) (it\<lparr>it_run_start := None, it_run_len := 0\<rparr>)"
        by (rule close_ok[OF less.prems Some]) (use less.prems p in \<open>auto simp: iter_inv_def pos_def\<close>)
      then show ?thesis using run Some by (simp add: close_run_def)
    qed
  next
    case True
    have get: "arr_get (sp_sections sp) (it_sec it) = Some (sp_sections sp ! it_sec it)"
      using True wf cnt by (auto simp: sparse_wf_def)
    let ?next = "\<lambda>x. x\<lparr>it_idx := 0, it_sec := it_sec it + 1\<rparr>"
    have rec: "\<exists>r it'. scan_sections sp it1 = Some (r, it') \<and> step_ok sp it r it'"
      if "cont_ok sp it it1" "it_sec it1 = Suc (it_sec it)" for it1
    proof -
      have "\<exists>r it'. scan_sections sp it1 = Some (r, it') \<and> step_ok sp it1 r it'"
        using less.hyps[of it1] that True by (auto simp: cont_ok_def)
      then show ?thesis using cont_step[OF that(1)] by blast
    qed
    show ?thesis
    proof (cases "it_sec it \<in> present_secs sp")
      case False
      have np: "\<not> ms_present (sp_sections sp ! it_sec it)"
        using False True wf cnt by (auto simp: sparse_wf_def present_secs_def)
      have idx: "it_idx it = 0" using False less.prems by (simp add: iter_inv_def)
      have nu: "\<not> usable sp p" if "pos it \<le> p" "p < pos (?next it)" for p
      proof -
        have "p div 32768 = it_sec it" using that idx by (auto simp: pos_def div_eq_sec)
        then show ?thesis using False by (simp add: usable_def frames_of_def)
      qed
      show ?thesis
      proof (cases "it_run_start it")
        case None
        have "scan_sections sp it = scan_sections sp (?next it)"
          using True get np None by (subst scan_sections.simps) (simp add: Let_def close_run_def)
        moreover have "cont_ok sp it (?next it)"
          using less.prems None nu True idx by (auto simp: cont_ok_def iter_inv_def start_of_def pos_def)
        ultimately show ?thesis using rec[of "?next it"] by simp
      next
        case (Some s)
        have "scan_sections sp it = Some (Some \<lparr>run_start = s, run_len = it_run_len it\<rparr>,
            (?next it)\<lparr>it_run_start := None, it_run_len := 0\<rparr>)"
          using True get np Some by (subst scan_sections.simps) (simp add: Let_def close_run_def)
        moreover have "step_ok sp it (Some \<lparr>run_start = s, run_len = it_run_len it\<rparr>)
            ((?next it)\<lparr>it_run_start := None, it_run_len := 0\<rparr>)"
          by (rule close_ok[OF less.prems Some _ _ nu]) (use True idx in \<open>auto simp: iter_inv_def pos_def\<close>)
        ultimately show ?thesis by simp
      qed
    next
      case present: True
      have ps: "ms_present (sp_sections sp ! it_sec it)" using present by (simp add: present_secs_def)
      obtain r it1 where sc: "scan_section (ms_frames (sp_sections sp ! it_sec it)) (section_base_pfn (it_sec it)) it = Some (r, it1)"
          "it_sec it1 = it_sec it"
          "case r of Some run \<Rightarrow> step_ok sp it (Some run) it1 | None \<Rightarrow> cont_ok sp it it1 \<and> it_idx it1 = 32768"
        using scan_section_ok[OF wf present less.prems] by blast
      show ?thesis
      proof (cases r)
        case None
        have "scan_sections sp it = scan_sections sp (?next it1)"
          using True get ps sc(1) None by (subst scan_sections.simps) simp
        moreover have "cont_ok sp it1 (?next it1)"
          using sc(2,3) None True
          by (auto simp: cont_ok_def iter_inv_def start_of_def pos_def split: option.splits)
        then have "cont_ok sp it (?next it1)" using sc(3) None cont_trans by auto
        ultimately show ?thesis using rec[of "?next it1"] by simp
      next
        case (Some run)
        then have "scan_sections sp it = Some (Some run, it1)"
          using True get ps sc(1) by (subst scan_sections.simps) simp
        then show ?thesis using sc(3) Some by auto
      qed
    qed
  qed
qed

lemma usable_lt_limit:
  assumes "sparse_wf sp" "usable sp p"
  shows "p < limit sp"
proof -
  have "p div 32768 \<le> sp_max_present_sec sp"
    using assms by (auto simp: usable_def frames_of_def sparse_wf_def split: if_splits)
  then show ?thesis
    using div_less_iff_less_mult[of 32768 p "Suc (sp_max_present_sec sp)"] by (simp add: limit_def less_Suc_eq_le)
qed

text \<open>Maximal runs: non-empty, in order, with an unusable page between two of them.\<close>

definition maximal_runs :: "PfnRun list \<Rightarrow> bool" where
  "maximal_runs rs \<longleftrightarrow> (\<forall>r \<in> set rs. 0 < run_len r) \<and> sorted_wrt (\<lambda>r q. run_start r + run_len r < run_start q) rs"

lemma iter_inv_pos:
  assumes "iter_inv sp it" "sparse_wf sp"
  shows "pos it \<le> limit sp"
proof (cases "it_sec it \<le> sp_max_present_sec sp")
  case True
  then have "it_sec it * 32768 \<le> sp_max_present_sec sp * 32768" by simp
  then show ?thesis using assms(1) by (simp add: iter_inv_def pos_def limit_def)
next
  case False
  then show ?thesis using assms by (auto simp: iter_inv_def pos_def limit_def sparse_wf_def)
qed

lemma runs_from_ok:
  assumes wf: "sparse_wf sp" and cnt: "0 < sp_section_count sp" and inv: "iter_inv sp it"
  shows "\<exists>rs. runs_from sp it = Some rs \<and> maximal_runs rs \<and> (\<forall>r \<in> set rs. start_of it \<le> run_start r)
     \<and> (\<Union>r \<in> set rs. run_pages r) = {p. start_of it \<le> p \<and> usable sp p}"
  using inv
proof (induction "limit sp - start_of it" arbitrary: it rule: less_induct)
  case less
  obtain r it' where st: "run_next sp it = Some (r, it')" "step_ok sp it r it'"
    using scan_sections_ok[OF wf cnt less.prems] cnt by (auto simp: run_next_def)
  show ?case
  proof (cases r)
    case None
    then have "runs_from sp it = Some []" using st(1) by (subst runs_from.simps) simp
    moreover have "{p. start_of it \<le> p \<and> usable sp p} = {}"
      using st(2) None usable_lt_limit[OF wf] by (auto simp: step_ok_def)
    ultimately show ?thesis by (simp add: maximal_runs_def)
  next
    case (Some run)
    have inv': "iter_inv sp it'" and st': "start_of it' = pos it'" and len: "0 < run_len run" and s: "start_of it \<le> run_start run"
      and e: "run_start run + run_len run < pos it' \<or> run_start run + run_len run = pos it' \<and> pos it' = limit sp"
      and pages: "{p. start_of it \<le> p \<and> p < pos it' \<and> usable sp p} = run_pages run"
      using st(2) Some by (auto simp: step_ok_def start_of_def)
    have lim: "pos it' \<le> limit sp" by (rule iter_inv_pos[OF inv' wf])
    have "limit sp - start_of it' < limit sp - start_of it" using e s len lim st' by linarith
    then obtain rs where rs: "runs_from sp it' = Some rs" "maximal_runs rs" "\<forall>q \<in> set rs. pos it' \<le> run_start q"
        "(\<Union>q \<in> set rs. run_pages q) = {p. pos it' \<le> p \<and> usable sp p}"
      using less.hyps[of it'] inv' st' by auto
    have "runs_from sp it = Some (run # rs)" using st(1) Some rs(1) by (subst runs_from.simps) simp
    moreover have "run_start run + run_len run < run_start q" if q: "q \<in> set rs" for q
    proof -
      have "run_start q \<in> run_pages q" using rs(2) q by (simp add: maximal_runs_def run_pages_def)
      then have "usable sp (run_start q)" using rs(4) q by blast
      then have "run_start q < limit sp" by (rule usable_lt_limit[OF wf])
      then show ?thesis using rs(3) q e by fastforce
    qed
    then have "maximal_runs (run # rs)" using rs(2) len by (simp add: maximal_runs_def)
    moreover have "\<forall>q \<in> set (run # rs). start_of it \<le> run_start q" using rs(3) s e len by fastforce
    moreover have "(\<Union>q \<in> set (run # rs). run_pages q) = {p. start_of it \<le> p \<and> usable sp p}"
    proof -
      have "start_of it \<le> pos it'" using s e by linarith
      then have "{p. start_of it \<le> p \<and> usable sp p} = {p. start_of it \<le> p \<and> p < pos it' \<and> usable sp p} \<union> {p. pos it' \<le> p \<and> usable sp p}"
        by auto
      then show ?thesis using pages rs(4) by auto
    qed
    ultimately show ?thesis by blast
  qed
qed

subsection \<open>Properties\<close>

text \<open>
  C7. The iterator reports exactly the usable memory. On every well-formed section table the loop over
  the iterator ends without a panic; the runs it reports are non-empty, ordered, separated by
  at least one unusable page, and together hold exactly the usable page frames.
\<close>

theorem usable_runs_exact:
  assumes "sparse_wf sp"
  shows "\<exists>rs. usable_runs sp = Some rs \<and> maximal_runs rs \<and> (\<Union>r \<in> set rs. run_pages r) = {p. usable sp p}"
proof (cases "sp_section_count sp = 0")
  case True
  then have "run_next sp iter_new = Some (None, iter_new)" by (simp add: run_next_def close_run_def iter_new_def)
  then have "usable_runs sp = Some []" unfolding usable_runs_def by (subst runs_from.simps) simp
  moreover have "\<not> usable sp p" for p using True by (simp add: usable_def frames_of_def present_secs_def)
  ultimately show ?thesis by (auto simp: maximal_runs_def)
next
  case False
  have "iter_inv sp iter_new" by (simp add: iter_inv_def iter_new_def)
  moreover have "start_of iter_new = 0" by (simp add: start_of_def iter_new_def pos_def)
  ultimately show ?thesis
    using runs_from_ok[OF assms, of iter_new] False by (simp add: usable_runs_def)
qed

text \<open>A table with one section, in which the pages 5, 6 and 9 are usable.\<close>

definition demo_sparse :: SparseMem where
  "demo_sparse = \<lparr>sp_sections = [\<lparr>ms_frames = (replicate 32768 frame_absent)
       [5 := frame_absent\<lparr>f_state := Usable\<rparr>, 6 := frame_absent\<lparr>f_state := Usable\<rparr>, 9 := frame_absent\<lparr>f_state := Usable\<rparr>],
       ms_present = True\<rparr>], sp_section_count = 1, sp_max_present_sec = 0, sp_cached_max_pfn = 10\<rparr>"

lemma demo_sparse_wf: "sparse_wf demo_sparse"
  by (auto simp: sparse_wf_def demo_sparse_def present_secs_def)

lemma demo_sparse_usable: "{p. usable demo_sparse p} = {5, 6, 9}"
proof -
  have "usable demo_sparse p \<longleftrightarrow> p < 32768 \<and> p \<in> {5, 6, 9}" for p
  proof (cases "p < 32768")
    case True
    then have "p div 32768 = 0" "p mod 32768 = p" by simp_all
    then show ?thesis using True
      by (auto simp: usable_def frames_of_def demo_sparse_def present_secs_def nth_list_update frame_absent_def split: if_splits)
  next
    case False
    then have "p div 32768 \<noteq> 0" by simp
    then show ?thesis using False by (auto simp: usable_def frames_of_def demo_sparse_def present_secs_def)
  qed
  then have "{p. usable demo_sparse p} = {p. p < 32768 \<and> p \<in> {5, 6, 9}}" by (simp only:)
  also have "\<dots> = {5, 6, 9}" by auto
  finally show ?thesis .
qed

theorem usable_runs_exact_witness:
  "\<exists>rs. usable_runs demo_sparse = Some rs \<and> maximal_runs rs \<and> (\<Union>r \<in> set rs. run_pages r) = {5, 6, 9}"
  using usable_runs_exact[OF demo_sparse_wf] unfolding demo_sparse_usable .

end
