(* ===== verification/Zones.thy ===== *)
theory Zones
  imports Buddy_Blocks Pfn_Iterator
begin

text \<open>
  \<open>memory/pmm/zones_manager.rs\<close> and \<open>memory/pmm/pages_allocator.rs\<close>: the memory zones, each with
  its buddy allocator, the manager that holds them, their set-up at boot, and the page allocation
  interface of the rest of the kernel. The manager and the section table are globals of the code;
  here they are the two fields of \<open>PhysMem\<close>. The bytes of the pages are not part of the state, so
  of the zeroing of a block only the address computation is left.
\<close>

subsection \<open>Zones\<close>

definition DMA_LIMIT_BYTES :: usize where "DMA_LIMIT_BYTES = 16 * 1024 * 1024"
definition DMA_LIMIT_PFN :: usize where "DMA_LIMIT_PFN = DMA_LIMIT_BYTES div 2 ^ PAGE_SHIFT"
definition MAX_ZONES :: usize where "MAX_ZONES = 3"

fun zone_idx :: "ZoneId \<Rightarrow> usize" where
  "zone_idx Dma = 0"
| "zone_idx Normal = 1"
| "zone_idx High = 2"

record Zone =
  z_id :: ZoneId
  z_base_pfn :: Pfn
  z_page_count :: usize
  z_allocator :: Buddy

definition zone_new :: "ZoneId \<Rightarrow> Pfn \<Rightarrow> usize \<Rightarrow> Buddy \<Rightarrow> Zone" where
  "zone_new i base_pfn page_count allocator =
     \<lparr>z_id = i, z_base_pfn = base_pfn, z_page_count = page_count, z_allocator = allocator\<rparr>"

definition contains_pfn :: "Zone \<Rightarrow> Pfn \<Rightarrow> bool option" where
  "contains_pfn z pfn =
     (if pfn \<ge> z_base_pfn z then do { e \<leftarrow> u_add (z_base_pfn z) (z_page_count z); Some (pfn < e) }
      else Some False)"

definition zone_alloc :: "usize \<Rightarrow> Zone \<times> SparseMem \<Rightarrow> (Pfn option \<times> Zone \<times> SparseMem) option" where
  "zone_alloc order = (\<lambda>(z, sp). do {
     (r, b, sp') \<leftarrow> buddy_alloc order (z_allocator z, sp);
     Some (r, z\<lparr>z_allocator := b\<rparr>, sp')
   })"

definition zone_free :: "Pfn \<Rightarrow> Zone \<times> SparseMem \<Rightarrow> (Zone \<times> SparseMem) option" where
  "zone_free pfn = (\<lambda>(z, sp). do {
     ok \<leftarrow> contains_pfn z pfn;
     rassert ok;
     (b, sp') \<leftarrow> buddy_free pfn (z_allocator z, sp);
     Some (z\<lparr>z_allocator := b\<rparr>, sp')
   })"

definition zone_free_pages :: "Zone \<Rightarrow> usize" where
  "zone_free_pages z = b_free_pages (z_allocator z)"

definition usable_pages :: "SparseMem \<Rightarrow> Zone \<Rightarrow> usize option" where
  "usable_pages sp z = do {
     zone_end \<leftarrow> u_add (z_base_pfn z) (z_page_count z);
     rs \<leftarrow> usable_runs sp;
     for_each (\<lambda>run n. do {
         re \<leftarrow> run_end run;
         let s = max (run_start run) (z_base_pfn z);
         let e = min re zone_end;
         u_add n (if s < e then e - s else 0)
       }) rs 0
   }"

subsection \<open>The manager\<close>

record ZonesManager =
  zm_zones :: "Zone option list"

definition zm_new :: ZonesManager where
  "zm_new = \<lparr>zm_zones = replicate MAX_ZONES None\<rparr>"

definition set_zone :: "Zone \<Rightarrow> ZonesManager \<Rightarrow> ZonesManager option" where
  "set_zone z m = do {
     let idx = zone_idx (z_id z);
     rassert (idx < MAX_ZONES);
     old \<leftarrow> arr_get (zm_zones m) idx;
     rassert (old = None);
     zs \<leftarrow> arr_set (zm_zones m) idx (Some z);
     Some (m\<lparr>zm_zones := zs\<rparr>)
   }"

definition zm_zone :: "ZonesManager \<Rightarrow> ZoneId \<Rightarrow> Zone option option" where
  "zm_zone m i = arr_get (zm_zones m) (zone_idx i)"

text \<open>Storing back through the reference that \<open>zone_mut\<close> returns.\<close>

definition zone_put :: "ZoneId \<Rightarrow> Zone \<Rightarrow> ZonesManager \<Rightarrow> ZonesManager" where
  "zone_put i z m = m\<lparr>zm_zones := (zm_zones m)[zone_idx i := Some z]\<rparr>"

record PhysMem =
  pm_zones :: ZonesManager
  pm_sparse :: SparseMem

definition zm_alloc_pages :: "ZoneId \<Rightarrow> usize \<Rightarrow> PhysMem \<Rightarrow> (Pfn option \<times> PhysMem) option" where
  "zm_alloc_pages i order pm = do {
     zo \<leftarrow> zm_zone (pm_zones pm) i;
     case zo of
       None \<Rightarrow> Some (None, pm)
     | Some z \<Rightarrow> do {
         (r, z', sp) \<leftarrow> zone_alloc order (z, pm_sparse pm);
         Some (r, \<lparr>pm_zones = zone_put i z' (pm_zones pm), pm_sparse = sp\<rparr>)
       }
   }"

definition zm_free_pages :: "Pfn \<Rightarrow> PhysMem \<Rightarrow> PhysMem option" where
  "zm_free_pages pfn pm = do {
     p \<leftarrow> pfn_to_frame (pm_sparse pm) pfn;
     f \<leftarrow> frame_load (pm_sparse pm) p;
     rassert (f_state f \<noteq> Absent);
     rassert (f_state f \<noteq> Reserved);
     zo \<leftarrow> zm_zone (pm_zones pm) (f_zone f);
     z \<leftarrow> zo;
     (z', sp) \<leftarrow> zone_free pfn (z, pm_sparse pm);
     Some \<lparr>pm_zones = zone_put (f_zone f) z' (pm_zones pm), pm_sparse = sp\<rparr>
   }"

subsection \<open>Set-up at boot\<close>

text \<open>The slice of frames of one section that a run covers.\<close>

definition assign_chunk :: "ZoneId \<Rightarrow> usize \<Rightarrow> usize \<Rightarrow> usize \<Rightarrow> SparseMem \<Rightarrow> SparseMem option" where
  "assign_chunk zid sec off n sp = do {
     s \<leftarrow> arr_get (sp_sections sp) sec;
     rassert (ms_present s);
     rassert (off + n \<le> length (ms_frames s));
     fs \<leftarrow> for_each (\<lambda>i fs. do {
         f \<leftarrow> arr_get fs i;
         if f_state f = Usable then arr_set fs i (f\<lparr>f_zone := zid\<rparr>) else Some fs
       }) [off..<off + n] (ms_frames s);
     ss \<leftarrow> arr_set (sp_sections sp) sec (s\<lparr>ms_frames := fs\<rparr>);
     Some (sp\<lparr>sp_sections := ss\<rparr>)
   }"

text \<open>The loop over the sections of a run; not returning is \<open>None\<close>.\<close>

partial_function (option) assign_loop :: "ZoneId \<Rightarrow> Pfn \<Rightarrow> Pfn \<Rightarrow> SparseMem \<Rightarrow> SparseMem option" where
  "assign_loop zid p e sp =
     (if p < e then do {
        let sec = pfn_to_section p;
        let sec_base = sec * 2 ^ (SECTION_SHIFT - PAGE_SHIFT) mod 2 ^ 64;
        sec_end \<leftarrow> u_add sec_base PAGES_PER_SECTION;
        let chunk_end = min e sec_end;
        off \<leftarrow> u_sub p sec_base;
        n \<leftarrow> u_sub chunk_end p;
        sp' \<leftarrow> assign_chunk zid sec off n sp;
        assign_loop zid chunk_end e sp'
      } else Some sp)"

declare assign_loop.simps [simp del]

definition assign_zone_to_run :: "ZoneId \<Rightarrow> Pfn \<Rightarrow> usize \<Rightarrow> SparseMem \<Rightarrow> SparseMem option" where
  "assign_zone_to_run zid start len sp =
     (if len = 0 then Some sp
      else do {
        e \<leftarrow> u_add start len;
        assign_loop zid start e sp
      })"

text \<open>
  The loop of \<open>build_zone\<close> over the runs. The iterator reads the frames while the body of the
  loop changes them, so each step takes the table as the last body left it.
\<close>

partial_function (option) build_loop ::
  "ZoneId \<Rightarrow> Pfn \<Rightarrow> Pfn \<Rightarrow> RunIter \<Rightarrow> Buddy \<times> SparseMem \<Rightarrow> (Buddy \<times> SparseMem) option" where
  "build_loop i pfn_start pfn_end it st = do {
     (r, it') \<leftarrow> run_next (snd st) it;
     case r of
       None \<Rightarrow> Some st
     | Some run \<Rightarrow>
         if run_start run \<ge> pfn_end then Some st
         else do {
           re \<leftarrow> run_end run;
           let clipped_start = max (run_start run) pfn_start;
           let clipped_end = min re pfn_end;
           if clipped_start \<ge> clipped_end then build_loop i pfn_start pfn_end it' st
           else do {
             clipped_len \<leftarrow> u_sub clipped_end clipped_start;
             st1 \<leftarrow> add_usable_run clipped_start clipped_len st;
             sp2 \<leftarrow> assign_zone_to_run i clipped_start clipped_len (snd st1);
             build_loop i pfn_start pfn_end it' (fst st1, sp2)
           }
         }
   }"

declare build_loop.simps [simp del]

definition build_zone :: "ZoneId \<Rightarrow> Pfn \<Rightarrow> Pfn \<Rightarrow> SparseMem \<Rightarrow> (Zone \<times> SparseMem) option" where
  "build_zone i pfn_start pfn_end sp = do {
     rassert (pfn_start \<le> pfn_end);
     page_count \<leftarrow> u_sub pfn_end pfn_start;
     b0 \<leftarrow> buddy_new pfn_start page_count;
     st \<leftarrow> buddy_reset b0 sp;
     (allocator, sp') \<leftarrow> build_loop i pfn_start pfn_end iter_new st;
     Some (zone_new i pfn_start page_count allocator, sp')
   }"

text \<open>What the summary prints of a zone: its usable and its free pages, and their sizes.\<close>

definition zone_summary :: "PhysMem \<Rightarrow> ZoneId \<Rightarrow> (usize \<times> usize \<times> HumanSize \<times> HumanSize) option option" where
  "zone_summary pm zid = do {
     zo \<leftarrow> zm_zone (pm_zones pm) zid;
     case zo of
       None \<Rightarrow> Some None
     | Some z \<Rightarrow> do {
         u \<leftarrow> usable_pages (pm_sparse pm) z;
         let f = zone_free_pages z;
         total_size \<leftarrow> u_mul u PAGE_SIZE;
         free_size \<leftarrow> u_mul f PAGE_SIZE;
         _ \<leftarrow> u_add (z_base_pfn z) (z_page_count z);
         Some (Some (u, f, human_readable_size total_size, human_readable_size free_size))
       }
   }"

definition log_zones_summary :: "PhysMem \<Rightarrow> unit option" where
  "log_zones_summary pm = for_each (\<lambda>zid _. do { _ \<leftarrow> zone_summary pm zid; Some () }) [Dma, Normal, High] ()"

definition init_zones_manager :: "SparseMem \<Rightarrow> PhysMem option" where
  "init_zones_manager sp = do {
     let max_pfn = max_present_pfn sp;
     rassert (max_pfn > 0);
     rassert (DMA_LIMIT_PFN \<le> max_pfn);
     (dma_zone, sp1) \<leftarrow> build_zone Dma 0 DMA_LIMIT_PFN sp;
     (high_zone, sp2) \<leftarrow> build_zone High DMA_LIMIT_PFN max_pfn sp1;
     m1 \<leftarrow> set_zone dma_zone zm_new;
     m2 \<leftarrow> set_zone high_zone m1;
     let pm = \<lparr>pm_zones = m2, pm_sparse = sp2\<rparr>;
     _ \<leftarrow> log_zones_summary pm;
     Some pm
   }"

subsection \<open>The page allocation interface\<close>

text \<open>The bit set \<open>PAllocFlags\<close>, and the test of one of its constants.\<close>

type_synonym PAllocFlags = u32

definition PALLOC_KERNEL :: PAllocFlags where "PALLOC_KERNEL = push_bit 0 1"
definition PALLOC_DMA :: PAllocFlags where "PALLOC_DMA = push_bit 1 1"
definition PALLOC_ZEROED :: PAllocFlags where "PALLOC_ZEROED = push_bit 2 1"

definition KERNEL_PAGES :: PAllocFlags where "KERNEL_PAGES = PALLOC_KERNEL"
definition SAFE_KERNEL_PAGES :: PAllocFlags where "SAFE_KERNEL_PAGES = PALLOC_KERNEL OR PALLOC_ZEROED"

definition flag_set :: "u32 \<Rightarrow> u32 \<Rightarrow> bool" where
  "flag_set flags c \<longleftrightarrow> flags AND c = c"

definition flags_to_zone :: "PAllocFlags \<Rightarrow> ZoneId option" where
  "flags_to_zone flags = (case (flag_set flags PALLOC_KERNEL, flag_set flags PALLOC_DMA) of
       (True, False) \<Rightarrow> Some High
     | (False, True) \<Rightarrow> Some Dma
     | (True, True) \<Rightarrow> None
     | (False, False) \<Rightarrow> None)"

definition alloc_physical_frame_pfn :: "PhysMem \<Rightarrow> (Pfn option \<times> PhysMem) option" where
  "alloc_physical_frame_pfn pm = zm_alloc_pages High 0 pm"

text \<open>
  The address types of the \<open>x86_64\<close> crate are addresses with a check at construction. The checks
  are parameters; \<open>x86_addr_doc\<close> states what the documentation of the crate says of them.
\<close>

type_synonym PhysAddr = usize
type_synonym VirtAddr = usize

record X86Addr =
  pa_new :: "usize \<Rightarrow> PhysAddr option"
  va_new :: "usize \<Rightarrow> VirtAddr option"

definition canonical :: "usize \<Rightarrow> bool" where
  "canonical a \<longleftrightarrow> a < 2 ^ 47 \<or> 2 ^ 64 - 2 ^ 47 \<le> a \<and> a < 2 ^ 64"

definition x86_addr_doc :: "'a X86Addr_scheme \<Rightarrow> bool" where
  "x86_addr_doc x \<longleftrightarrow> (\<forall>a. pa_new x a = (if a < 2 ^ 52 then Some a else None))
     \<and> (\<forall>a. va_new x a = (if canonical a then Some a else None))"

definition alloc_pages_by_order ::
  "'a X86Addr_scheme \<Rightarrow> usize \<Rightarrow> usize \<Rightarrow> PAllocFlags \<Rightarrow> PhysMem \<Rightarrow> (PhysAddr option \<times> PhysMem) option" where
  "alloc_pages_by_order x hhdm order flags pm = do {
     zone \<leftarrow> flags_to_zone flags;
     let zeroed = flag_set flags PALLOC_ZEROED;
     (r, pm') \<leftarrow> zm_alloc_pages zone order pm;
     case r of
       None \<Rightarrow> Some (None, pm')
     | Some pfn \<Rightarrow> do {
         let phys = pfn * 2 ^ PAGE_SHIFT mod 2 ^ 64;
         (if zeroed then do {
            _ \<leftarrow> phys_to_virt hhdm phys;
            pages \<leftarrow> u_bit order;
            _ \<leftarrow> u_mul pages PAGE_SIZE;
            Some ()
          } else Some ());
         a \<leftarrow> pa_new x phys;
         Some (Some a, pm')
       }
   }"

definition free_pages :: "PhysAddr \<Rightarrow> PhysMem \<Rightarrow> PhysMem option" where
  "free_pages a pm = do {
     rassert (a mod PAGE_SIZE = 0);
     zm_free_pages (a div 2 ^ PAGE_SHIFT) pm
   }"

subsection \<open>A zone does not see the frames of other zones, nor the zone field of its own\<close>

definition zoneless :: "Frame \<Rightarrow> Frame" where
  "zoneless f = f\<lparr>f_zone := Normal\<rparr>"

definition same_frames :: "Pfn set \<Rightarrow> SparseMem \<Rightarrow> SparseMem \<Rightarrow> bool" where
  "same_frames P sp sp' \<longleftrightarrow> (\<forall>p \<in> P. map_option zoneless (frames_of sp' p) = map_option zoneless (frames_of sp p))"

lemma zoneless_eqD:
  "zoneless f = zoneless g \<Longrightarrow> f_state f = f_state g \<and> f_tag f = f_tag g \<and> f_order f = f_order g \<and> f_next_free f = f_next_free g \<and> f_prev_free f = f_prev_free g"
  by (cases f; cases g) (simp add: zoneless_def)

lemma same_framesD:
  assumes "same_frames P sp sp'" "p \<in> P"
  shows "frames_of sp p = None \<longleftrightarrow> frames_of sp' p = None"
    "frames_of sp p = Some f \<Longrightarrow> \<exists>g. frames_of sp' p = Some g \<and> zoneless g = zoneless f"
    "frames_of sp' p = Some g \<Longrightarrow> \<exists>f. frames_of sp p = Some f \<and> zoneless g = zoneless f"
  using assms unfolding same_frames_def by (metis map_option_is_None, metis (no_types) map_option_eq_Some option.simps(9), metis (no_types) map_option_eq_Some option.simps(9))

lemma same_frames_sym: "same_frames P sp sp' \<Longrightarrow> same_frames P sp' sp"
  by (simp add: same_frames_def)

lemma same_frames_within: "within X sp sp' \<Longrightarrow> X \<inter> P = {} \<Longrightarrow> same_frames P sp sp'"
  by (auto simp: within_def same_frames_def)

lemma seg_links_cong:
  "(\<And>x n. x \<in> set xs \<Longrightarrow> fr x = Some n \<Longrightarrow> \<exists>m. fr' x = Some m \<and> f_next_free m = f_next_free n \<and> f_prev_free m = f_prev_free n) \<Longrightarrow>
    flinks.seg fr p xs q \<Longrightarrow> flinks.seg fr' p xs q"
proof (induction xs arbitrary: p)
  case (Cons x xs)
  obtain n where n: "fr x = Some n" "f_prev_free n = p" "f_next_free n = flinks.head_or q xs" "x \<noteq> INVALID_PFN" "flinks.seg fr x xs q"
    using Cons.prems(2) by auto
  obtain m where "fr' x = Some m" "f_next_free m = f_next_free n" "f_prev_free m = f_prev_free n"
    using Cons.prems(1)[of x n] n(1) by auto
  moreover have "flinks.seg fr' x xs q" using Cons.IH[OF _ n(5)] Cons.prems(1) by simp
  ultimately show ?case using n by simp
qed simp

lemma same_frames_lists:
  assumes s: "same_frames (zone_pages b) sp sp'" and ok: "lists_ok b sp fl"
  shows "lists_ok b sp' fl"
proof -
  have "flinks.dll (frames_of sp') (b_free b ! k) (fl k)" if k: "k < 12" for k
  proof -
    have d: "flinks.dll (frames_of sp) (b_free b ! k) (fl k)" "set (fl k) \<subseteq> zone_pages b" using lists_okD[OF ok k] by auto
    have "\<exists>m. frames_of sp' x = Some m \<and> f_next_free m = f_next_free n \<and> f_prev_free m = f_prev_free n"
      if x: "x \<in> set (fl k)" "frames_of sp x = Some n" for x n
    proof -
      obtain g where g: "frames_of sp' x = Some g" "zoneless g = zoneless n" using same_framesD(2)[OF s _ x(2)] x(1) d(2) by blast
      then show ?thesis using zoneless_eqD[OF g(2)] by simp
    qed
    then show ?thesis using d(1) seg_links_cong[of "fl k" "frames_of sp" "frames_of sp'"] by (simp add: flinks.dll_def)
  qed
  then show ?thesis using ok by (simp add: lists_ok_def)
qed

lemma same_frames_cores:
  assumes s: "same_frames (zone_pages b) sp sp'" and p: "in_range b p" and c: "cores sp p = Some f"
  shows "\<exists>g. cores sp' p = Some g \<and> f_state g = f_state f \<and> f_tag g = f_tag f \<and> f_order g = f_order f"
proof -
  obtain h where h: "frames_of sp p = Some h" "f = core h" using c by (auto simp: cores_def)
  obtain g where g: "frames_of sp' p = Some g" "zoneless g = zoneless h"
    using same_framesD(2)[OF s _ h(1)] p by (auto simp: zone_pages_def)
  show ?thesis using g(1) zoneless_eqD[OF g(2)] h(2) by (simp add: cores_def)
qed

lemma same_frames_blocks:
  assumes s: "same_frames (zone_pages b) sp sp'"
  shows "blocks b (cores sp') t = blocks b (cores sp) t"
proof -
  have "blocks b (cores a) t \<subseteq> blocks b (cores c) t" if "same_frames (zone_pages b) a c" for a c
    using same_frames_cores[OF that] by (fastforce simp: blocks_def)
  then show ?thesis using s same_frames_sym[OF s] by blast
qed

lemma same_frames_heads:
  assumes s: "same_frames (zone_pages b) sp sp'" and ok: "heads_ok b (cores sp)"
  shows "heads_ok b (cores sp')"
  unfolding heads_ok_def
proof (intro allI impI)
  fix p g assume p: "in_range b p" "cores sp' p = Some g" "f_tag g \<noteq> Unused"
  obtain f where f: "cores sp p = Some f" "f_state f = f_state g" "f_tag f = f_tag g" "f_order f = f_order g"
    using same_frames_cores[OF same_frames_sym[OF s] p(1,2)] by auto
  then have bo: "block_ok b (cores sp) p (f_order g)" using ok p by (auto simp: heads_ok_def)
  have "\<exists>h. cores sp' q = Some h \<and> f_state h = Usable \<and> (q \<noteq> p \<longrightarrow> f_tag h = Unused)" if q: "q \<in> block p (f_order g)" for q
  proof -
    obtain e where e: "cores sp q = Some e" "f_state e = Usable" "q \<noteq> p \<longrightarrow> f_tag e = Unused" using block_okD[OF bo q] by auto
    show ?thesis using same_frames_cores[OF s block_ok_range[OF bo q] e(1)] e by auto
  qed
  then show "block_ok b (cores sp') p (f_order g)" using bo by (simp add: block_ok_def)
qed

lemma same_frames_buddy:
  assumes inv: "buddy_inv b sp" and s: "same_frames (zone_pages b) sp sp'" and wf: "sparse_wf sp'"
  shows "buddy_inv b sp'" "free_pages_of b sp' = free_pages_of b sp" "alloc_blocks b sp' = alloc_blocks b sp"
proof -
  note bl = same_frames_blocks[OF s]
  show fp: "free_pages_of b sp' = free_pages_of b sp" "alloc_blocks b sp' = alloc_blocks b sp"
    by (simp_all add: free_pages_of_def alloc_blocks_def bl)
  obtain fl where "struct_inv b sp fl" using inv by (auto simp: buddy_inv_def)
  then have "struct_inv b sp' fl"
    using wf same_frames_lists[OF s] same_frames_heads[OF s] by (simp add: struct_inv_def listed_ok_def bl)
  moreover have "coalesced b (cores sp') {}" using inv by (simp add: buddy_inv_def coalesced_def bl)
  ultimately show "buddy_inv b sp'" using inv fp(1) by (auto simp: buddy_inv_def)
qed

subsection \<open>The invariant of the manager\<close>

definition zone_at :: "PhysMem \<Rightarrow> ZoneId \<Rightarrow> Zone option" where
  "zone_at pm i = zm_zones (pm_zones pm) ! zone_idx i"

definition free_of :: "PhysMem \<Rightarrow> ZoneId \<Rightarrow> Pfn set" where
  "free_of pm i = (case zone_at pm i of None \<Rightarrow> {} | Some z \<Rightarrow> free_pages_of (z_allocator z) (pm_sparse pm))"

definition allocs_of :: "PhysMem \<Rightarrow> ZoneId \<Rightarrow> (Pfn \<times> nat) set" where
  "allocs_of pm i = (case zone_at pm i of None \<Rightarrow> {} | Some z \<Rightarrow> alloc_blocks (z_allocator z) (pm_sparse pm))"

definition zone_ok :: "SparseMem \<Rightarrow> ZoneId \<Rightarrow> Zone \<Rightarrow> bool" where
  "zone_ok sp i z \<longleftrightarrow> z_id z = i \<and> buddy_inv (z_allocator z) sp
     \<and> z_base_pfn z = b_base_pfn (z_allocator z) \<and> z_page_count z = b_pages (z_allocator z)
     \<and> z_base_pfn z + z_page_count z \<le> 2 ^ 40
     \<and> (\<forall>p \<in> covered (z_allocator z) sp. \<exists>f. frames_of sp p = Some f \<and> f_zone f = i)"

definition zones_inv :: "PhysMem \<Rightarrow> bool" where
  "zones_inv pm \<longleftrightarrow> length (zm_zones (pm_zones pm)) = 3 \<and> sparse_wf (pm_sparse pm)
     \<and> (\<forall>i z. zone_at pm i = Some z \<longrightarrow> zone_ok (pm_sparse pm) i z)
     \<and> (\<forall>i j z y. zone_at pm i = Some z \<longrightarrow> zone_at pm j = Some y \<longrightarrow> i \<noteq> j \<longrightarrow> zone_pages (z_allocator z) \<inter> zone_pages (z_allocator y) = {})"

lemma zone_idx_lt [simp]: "zone_idx i < 3"
  by (cases i) simp_all

lemma zone_idx_inj [simp]: "zone_idx i = zone_idx j \<longleftrightarrow> i = j"
  by (cases i; cases j) simp_all

lemma zm_zone_at: "length (zm_zones (pm_zones pm)) = 3 \<Longrightarrow> zm_zone (pm_zones pm) i = Some (zone_at pm i)"
  by (simp add: zm_zone_def zone_at_def)

lemma zone_at_put: "length (zm_zones (pm_zones pm)) = 3 \<Longrightarrow> zone_at \<lparr>pm_zones = zone_put i z (pm_zones pm), pm_sparse = sp\<rparr> = (zone_at pm)(i \<mapsto> z)"
  by (rule ext) (auto simp: zone_at_def zone_put_def nth_list_update)

lemma zone_okD:
  assumes "zones_inv pm" "zone_at pm i = Some z"
  shows "zone_ok (pm_sparse pm) i z" "buddy_inv (z_allocator z) (pm_sparse pm)"
proof -
  show "zone_ok (pm_sparse pm) i z" using assms unfolding zones_inv_def by blast
  then show "buddy_inv (z_allocator z) (pm_sparse pm)" by (simp add: zone_ok_def)
qed

text \<open>An operation of one zone keeps the others as they are.\<close>

lemma covered_zone:
  assumes "buddy_inv b sp"
  shows "covered b sp \<subseteq> zone_pages b"
proof -
  obtain fl where "heads_ok b (cores sp)" using assms by (auto simp: buddy_inv_def struct_inv_def)
  then have "pages_in (blocks b (cores sp) t) \<subseteq> {b_base_pfn b..<b_base_pfn b + b_pages b}" if "t \<noteq> Unused" for t
    using pages_in_zone(1) that by blast
  then show ?thesis by (auto simp: covered_def free_pages_of_def alloc_blocks_def zone_pages_def in_range_iff subset_iff)
qed

lemma st_zone_frame:
  "st_zone (cores sp') = st_zone (cores sp) \<Longrightarrow> frames_of sp p = Some f \<Longrightarrow> \<exists>g. frames_of sp' p = Some g \<and> f_zone g = f_zone f \<and> f_state g = f_state f"
proof -
  assume a: "st_zone (cores sp') = st_zone (cores sp)" "frames_of sp p = Some f"
  have "st_zone (cores sp') p = st_zone (cores sp) p" using a(1) by simp
  then show ?thesis using a(2) by (auto simp: st_zone_def cores_def)
qed

lemma zone_step_inv:
  assumes inv: "zones_inv pm" and z: "zone_at pm i = Some z"
    and b: "buddy_inv b' sp'" "keeps (z_allocator z) (pm_sparse pm) b' sp'" "covered b' sp' = covered (z_allocator z) (pm_sparse pm)"
  defines "pm' \<equiv> \<lparr>pm_zones = zone_put i (z\<lparr>z_allocator := b'\<rparr>) (pm_zones pm), pm_sparse = sp'\<rparr>"
  shows "zones_inv pm'" "free_of pm' = (free_of pm)(i := free_pages_of b' sp')" "allocs_of pm' = (allocs_of pm)(i := alloc_blocks b' sp')"
    "zone_at pm' = (zone_at pm)(i \<mapsto> z\<lparr>z_allocator := b'\<rparr>)"
proof -
  have len: "length (zm_zones (pm_zones pm)) = 3" using inv by (simp add: zones_inv_def)
  show at: "zone_at pm' = (zone_at pm)(i \<mapsto> z\<lparr>z_allocator := b'\<rparr>)"
    using zone_at_put[OF len] by (simp add: pm'_def)
  have sz: "same_zone (z_allocator z) b'" and wi: "within (zone_pages (z_allocator z)) (pm_sparse pm) sp'"
    and st: "st_zone (cores sp') = st_zone (cores (pm_sparse pm))" using b(2) by (auto simp: keeps_def)
  have wf: "sparse_wf sp'" using within_wf[OF wi] .
  have zp: "zone_pages b' = zone_pages (z_allocator z)" using same_zone_cong(2)[OF sz] by simp
  have other: "same_frames (zone_pages (z_allocator y)) (pm_sparse pm) sp'" if y: "zone_at pm j = Some y" "j \<noteq> i" for j y
  proof -
    have "zone_pages (z_allocator z) \<inter> zone_pages (z_allocator y) = {}" using inv z y unfolding zones_inv_def by blast
    then show ?thesis using same_frames_within[OF wi] by blast
  qed
  have ok: "zone_ok sp' j y" if y: "zone_at pm' j = Some y" for j y
  proof (cases "j = i")
    case True
    then have yz: "y = z\<lparr>z_allocator := b'\<rparr>" using y at by simp
    have "\<exists>f. frames_of sp' p = Some f \<and> f_zone f = i" if "p \<in> covered b' sp'" for p
      using that zone_okD(1)[OF inv z] st_zone_frame[OF st] b(3) unfolding zone_ok_def by fastforce
    then show ?thesis using zone_okD(1)[OF inv z] yz True b(1) sz by (simp add: zone_ok_def same_zone_def)
  next
    case False
    then have y': "zone_at pm j = Some y" using y at by simp
    note bi = same_frames_buddy[OF zone_okD(2)[OF inv y'] other[OF y' False] wf]
    have "covered (z_allocator y) sp' = covered (z_allocator y) (pm_sparse pm)" using bi by (simp add: covered_def)
    then have "\<exists>f. frames_of sp' p = Some f \<and> f_zone f = j" if "p \<in> covered (z_allocator y) sp'" for p
      using that zone_okD(1)[OF inv y'] st_zone_frame[OF st] unfolding zone_ok_def by fastforce
    then show ?thesis using zone_okD(1)[OF inv y'] bi(1) by (simp add: zone_ok_def)
  qed
  have dj: "zone_pages (z_allocator u) \<inter> zone_pages (z_allocator y) = {}"
    if u: "zone_at pm' j = Some u" and y: "zone_at pm' k = Some y" and jk: "j \<noteq> k" for j k u y
  proof -
    have "\<exists>u'. zone_at pm j = Some u' \<and> zone_pages (z_allocator u') = zone_pages (z_allocator u)" if "zone_at pm' j = Some u" for j u
    proof (cases "j = i")
      case True
      then have "u = z\<lparr>z_allocator := b'\<rparr>" using that at by simp
      then show ?thesis using z zp True by simp
    next
      case False
      then show ?thesis using that at by simp
    qed
    then obtain u' y' where "zone_at pm j = Some u'" "zone_pages (z_allocator u') = zone_pages (z_allocator u)"
        "zone_at pm k = Some y'" "zone_pages (z_allocator y') = zone_pages (z_allocator y)" using u y by metis
    then show ?thesis using inv jk unfolding zones_inv_def by metis
  qed
  have len': "length (zm_zones (pm_zones pm')) = 3" using len by (simp add: pm'_def zone_put_def)
  have sp: "pm_sparse pm' = sp'" by (simp add: pm'_def)
  show "zones_inv pm'" unfolding zones_inv_def sp using len' wf ok dj by blast
  have oth: "free_pages_of (z_allocator y) sp' = free_pages_of (z_allocator y) (pm_sparse pm)
      \<and> alloc_blocks (z_allocator y) sp' = alloc_blocks (z_allocator y) (pm_sparse pm)" if y: "zone_at pm j = Some y" "j \<noteq> i" for j y
    using same_frames_buddy[OF zone_okD(2)[OF inv y(1)] other[OF y] wf] by blast
  show "free_of pm' = (free_of pm)(i := free_pages_of b' sp')" "allocs_of pm' = (allocs_of pm)(i := alloc_blocks b' sp')"
    by (auto simp: fun_eq_iff free_of_def allocs_of_def at sp oth split: option.splits)
qed

subsection \<open>Allocation and freeing through the manager\<close>

lemma zm_alloc_ok:
  assumes inv: "zones_inv pm"
  shows "\<exists>r pm'. zm_alloc_pages i order pm = Some (r, pm') \<and> zones_inv pm' \<and> (case r of
      None \<Rightarrow> pm' = pm \<and> (\<forall>z p k. zone_at pm i = Some z \<longrightarrow> (p, k) \<in> blocks (z_allocator z) (cores (pm_sparse pm)) Free \<longrightarrow> k < order)
    | Some h \<Rightarrow> block h order \<subseteq> free_of pm i \<and> h + 2 ^ order \<le> 2 ^ 40
        \<and> free_of pm' = (free_of pm)(i := free_of pm i - block h order)
        \<and> allocs_of pm' = (allocs_of pm)(i := insert (h, order) (allocs_of pm i)))"
proof -
  have len: "length (zm_zones (pm_zones pm)) = 3" using inv by (simp add: zones_inv_def)
  show ?thesis
  proof (cases "zone_at pm i")
    case None
    then have "zm_alloc_pages i order pm = Some (None, pm)" using zm_zone_at[OF len, of i] by (simp add: zm_alloc_pages_def)
    then show ?thesis using inv None by auto
  next
    case (Some z)
    note zi = zone_okD[OF inv Some]
    obtain r b' sp' where al: "buddy_alloc order (z_allocator z, pm_sparse pm) = Some (r, b', sp')" "buddy_inv b' sp'"
        "keeps (z_allocator z) (pm_sparse pm) b' sp'" and c: "case r of
          None \<Rightarrow> b' = z_allocator z \<and> sp' = pm_sparse pm \<and> (\<forall>p k. (p, k) \<in> blocks (z_allocator z) (cores (pm_sparse pm)) Free \<longrightarrow> k < order)
        | Some h \<Rightarrow> (\<exists>k. (h, k) \<in> blocks (z_allocator z) (cores (pm_sparse pm)) Free \<and> order \<le> k) \<and> aligned (z_allocator z) h order \<and> block h order \<subseteq> free_pages_of (z_allocator z) (pm_sparse pm)
            \<and> free_pages_of b' sp' = free_pages_of (z_allocator z) (pm_sparse pm) - block h order
            \<and> alloc_blocks b' sp' = insert (h, order) (alloc_blocks (z_allocator z) (pm_sparse pm))"
      using buddy_alloc_ok[OF zi(2), of order] by blast
    let ?pm = "\<lparr>pm_zones = zone_put i (z\<lparr>z_allocator := b'\<rparr>) (pm_zones pm), pm_sparse = sp'\<rparr>"
    have run: "zm_alloc_pages i order pm = Some (r, ?pm)"
      using al(1) Some zm_zone_at[OF len, of i] by (simp add: zm_alloc_pages_def zone_alloc_def)
    show ?thesis
    proof (cases r)
      case None
      have "zm_zones (pm_zones pm) ! zone_idx i = Some z" using Some by (simp add: zone_at_def)
      then have "?pm = pm" using None c len by (cases pm; cases "pm_zones pm") (simp add: zone_put_def list_update_same_conv)
      then show ?thesis using run None inv c Some by auto
    next
      case (Some h)
      have bl: "block h order \<subseteq> free_pages_of (z_allocator z) (pm_sparse pm)"
        "free_pages_of b' sp' = free_pages_of (z_allocator z) (pm_sparse pm) - block h order"
        "alloc_blocks b' sp' = insert (h, order) (alloc_blocks (z_allocator z) (pm_sparse pm))" using c Some by auto
      have cov: "covered b' sp' = covered (z_allocator z) (pm_sparse pm)" using bl by (auto simp: covered_def)
      note st = zone_step_inv[OF inv \<open>zone_at pm i = Some z\<close> al(2,3) cov]
      have fr: "free_of pm i = free_pages_of (z_allocator z) (pm_sparse pm)" "allocs_of pm i = alloc_blocks (z_allocator z) (pm_sparse pm)"
        using \<open>zone_at pm i = Some z\<close> by (simp_all add: free_of_def allocs_of_def)
      have "(1::nat) \<le> 2 ^ order" by simp
      then have "h + 2 ^ order - 1 \<in> block h order" unfolding atLeastLessThan_iff by linarith
      then have "h + 2 ^ order - 1 \<in> zone_pages (z_allocator z)" using bl(1) covered_zone[OF zi(2)] unfolding covered_def by blast
      then have "h + 2 ^ order - 1 < 2 ^ 40" using zi(1) by (auto simp: zone_pages_def in_range_iff zone_ok_def)
      then have "h + 2 ^ order \<le> 2 ^ 40" by linarith
      then show ?thesis using run Some st bl fr by auto
    qed
  qed
qed

lemma zm_free_ok:
  assumes inv: "zones_inv pm" and h: "(h, k) \<in> allocs_of pm i"
  shows "\<exists>pm'. zm_free_pages h pm = Some pm' \<and> zones_inv pm' \<and> free_of pm' = (free_of pm)(i := free_of pm i \<union> block h k)
     \<and> free_of pm i \<inter> block h k = {} \<and> allocs_of pm' = (allocs_of pm)(i := allocs_of pm i - {(h, k)})"
proof -
  have len: "length (zm_zones (pm_zones pm)) = 3" using inv by (simp add: zones_inv_def)
  obtain z where z: "zone_at pm i = Some z" and hz: "(h, k) \<in> alloc_blocks (z_allocator z) (pm_sparse pm)"
    using h by (auto simp: allocs_of_def split: option.splits)
  note zi = zone_okD[OF inv z]
  obtain b' sp' where fr: "buddy_free h (z_allocator z, pm_sparse pm) = Some (b', sp')" "buddy_inv b' sp'"
      "keeps (z_allocator z) (pm_sparse pm) b' sp'"
      "free_pages_of b' sp' = free_pages_of (z_allocator z) (pm_sparse pm) \<union> block h k"
      "free_pages_of (z_allocator z) (pm_sparse pm) \<inter> block h k = {}"
      "alloc_blocks b' sp' = alloc_blocks (z_allocator z) (pm_sparse pm) - {(h, k)}"
    using buddy_free_ok[OF zi(2) hz] by blast
  have "h \<in> block h k" by simp
  then have hc: "h \<in> covered (z_allocator z) (pm_sparse pm)" using hz pages_in_remove[OF hz] by (auto simp: covered_def)
  then obtain f where f: "frames_of (pm_sparse pm) h = Some f" "f_zone f = i" using zi(1) by (auto simp: zone_ok_def)
  have hr: "in_range (z_allocator z) h" using hc covered_zone[OF zi(2)] by (auto simp: zone_pages_def)
  have us: "f_state f = Usable"
  proof -
    have "heads_ok (z_allocator z) (cores (pm_sparse pm))" using zi(2) by (auto simp: buddy_inv_def struct_inv_def)
    then have "block_ok (z_allocator z) (cores (pm_sparse pm)) h k" using blocks_ok hz unfolding alloc_blocks_def by blast
    from block_okD[OF this \<open>h \<in> block h k\<close>] show ?thesis using f(1) by (auto simp: cores_def)
  qed
  have cont: "contains_pfn z h = Some True" using hr zi(1) by (auto simp: contains_pfn_def in_range_iff zone_ok_def USIZE_MAX_def)
  have wf: "sparse_wf (pm_sparse pm)" using inv by (simp add: zones_inv_def)
  have run: "zm_free_pages h pm = Some \<lparr>pm_zones = zone_put i (z\<lparr>z_allocator := b'\<rparr>) (pm_zones pm), pm_sparse = sp'\<rparr>"
    using f us cont fr(1) z zm_zone_at[OF len, of i] frame_load_ok[OF wf f(1)]
    by (simp add: zm_free_pages_def pfn_to_frame_eq zone_free_def)
  have cov: "covered b' sp' = covered (z_allocator z) (pm_sparse pm)"
    using fr(4,6) pages_in_remove[OF hz] by (auto simp: covered_def)
  note st = zone_step_inv[OF inv z fr(2,3) cov]
  show ?thesis using run st fr(4,5,6) z by (simp add: free_of_def allocs_of_def)
qed

lemma flags_to_zone_simps:
  "flags_to_zone PALLOC_KERNEL = Some High" "flags_to_zone (PALLOC_KERNEL OR PALLOC_ZEROED) = Some High"
  "flags_to_zone (PALLOC_ZEROED OR PALLOC_KERNEL) = Some High" "flags_to_zone PALLOC_DMA = Some Dma"
  by (code_simp+)

lemma alloc_pages_ok:
  assumes x: "x86_addr_doc x" and inv: "zones_inv pm" and hh: "hhdm + 2 ^ 52 \<le> USIZE_MAX" and fl: "flags_to_zone flags = Some i"
  shows "\<exists>r pm'. alloc_pages_by_order x hhdm order flags pm = Some (r, pm') \<and> zones_inv pm' \<and> (case r of
      None \<Rightarrow> pm' = pm \<and> (\<forall>z p k. zone_at pm i = Some z \<longrightarrow> (p, k) \<in> blocks (z_allocator z) (cores (pm_sparse pm)) Free \<longrightarrow> k < order)
    | Some a \<Rightarrow> \<exists>h. a = h * PAGE_SIZE \<and> h + 2 ^ order \<le> 2 ^ 40 \<and> block h order \<subseteq> free_of pm i
        \<and> free_of pm' = (free_of pm)(i := free_of pm i - block h order)
        \<and> allocs_of pm' = (allocs_of pm)(i := insert (h, order) (allocs_of pm i)))"
proof -
  obtain r pm' where al: "zm_alloc_pages i order pm = Some (r, pm')" "zones_inv pm'" and c: "case r of
      None \<Rightarrow> pm' = pm \<and> (\<forall>z p k. zone_at pm i = Some z \<longrightarrow> (p, k) \<in> blocks (z_allocator z) (cores (pm_sparse pm)) Free \<longrightarrow> k < order)
    | Some h \<Rightarrow> block h order \<subseteq> free_of pm i \<and> h + 2 ^ order \<le> 2 ^ 40
        \<and> free_of pm' = (free_of pm)(i := free_of pm i - block h order)
        \<and> allocs_of pm' = (allocs_of pm)(i := insert (h, order) (allocs_of pm i))"
    using zm_alloc_ok[OF inv, of i order] by blast
  show ?thesis
  proof (cases r)
    case None
    then have "alloc_pages_by_order x hhdm order flags pm = Some (None, pm')" using al fl by (simp add: alloc_pages_by_order_def)
    then show ?thesis using al c None by auto
  next
    case (Some h)
    have lim: "h + 2 ^ order \<le> 2 ^ 40" using c Some by simp
    then have "(2 :: nat) ^ order \<le> 2 ^ 40" by linarith
    then have "order \<le> 40" using power_le_imp_le_exp[of 2 order 40] by simp
    then have o: "u_bit order = Some (2 ^ order)" "u_mul (2 ^ order) PAGE_SIZE = Some (2 ^ order * PAGE_SIZE)"
      using \<open>(2 :: nat) ^ order \<le> 2 ^ 40\<close> by (simp_all add: USIZE_MAX_def)
    have h: "h < 2 ^ 40" using lim zero_less_power[of "2 :: nat" order] by linarith
    then have ph: "h * 2 ^ PAGE_SHIFT mod 2 ^ 64 = h * PAGE_SIZE" "h * PAGE_SIZE < 2 ^ 52" by (simp_all add: PAGE_SHIFT_def)
    then have v: "phys_to_virt hhdm (h * PAGE_SIZE) = Some (h * PAGE_SIZE + hhdm)" using hh by (simp add: phys_to_virt_def)
    have pa: "pa_new x (h * PAGE_SIZE) = Some (h * PAGE_SIZE)" using x ph(2) by (simp add: x86_addr_doc_def)
    have "alloc_pages_by_order x hhdm order flags pm = Some (Some (h * PAGE_SIZE), pm')"
      unfolding alloc_pages_by_order_def using al(1) fl Some o v pa ph(1) by (simp add: Let_def del: PAGE_SIZE_eq)
    then show ?thesis using al(2) c Some by auto
  qed
qed

lemma free_pages_ok:
  assumes "zones_inv pm" "(h, k) \<in> allocs_of pm i"
  shows "\<exists>pm'. free_pages (h * PAGE_SIZE) pm = Some pm' \<and> zones_inv pm' \<and> free_of pm' = (free_of pm)(i := free_of pm i \<union> block h k)
     \<and> free_of pm i \<inter> block h k = {} \<and> allocs_of pm' = (allocs_of pm)(i := allocs_of pm i - {(h, k)})"
  using zm_free_ok[OF assms] by (simp add: free_pages_def PAGE_SHIFT_def)

end
