(* ===== verification/BTree_Map.thy ===== *)
theory BTree_Map
  imports Anvil_Prelude
begin

text \<open>
  The ordered map of the standard library (\<open>BTreeMap\<close>), as far as the kernel uses it: a list of
  bindings in increasing order of the keys. Iteration runs in that order, and range queries ask
  for the last binding below a bound.
\<close>

type_synonym ('k, 'v) btree = "('k \<times> 'v) list"

fun bt_insert :: "'k::linorder \<Rightarrow> 'v \<Rightarrow> ('k, 'v) btree \<Rightarrow> ('k, 'v) btree" where
  "bt_insert k v [] = [(k, v)]"
| "bt_insert k v ((j, w) # m) = (if k < j then (k, v) # (j, w) # m else if k = j then (k, v) # m else (j, w) # bt_insert k v m)"

definition bt_get :: "('k, 'v) btree \<Rightarrow> 'k \<Rightarrow> 'v option" where
  "bt_get m k = map_of m k"

definition bt_remove :: "'k \<Rightarrow> ('k, 'v) btree \<Rightarrow> ('k, 'v) btree" where
  "bt_remove k m = filter (\<lambda>(j, _). j \<noteq> k) m"

definition bt_values :: "('k, 'v) btree \<Rightarrow> 'v list" where
  "bt_values m = map snd m"

definition bt_keys :: "('k, 'v) btree \<Rightarrow> 'k list" where
  "bt_keys m = map fst m"

text \<open>\<open>range(..b).next_back()\<close> and \<open>range(..=b).next_back()\<close>.\<close>

definition last_opt :: "'a list \<Rightarrow> 'a option" where
  "last_opt xs = (if xs = [] then None else Some (last xs))"

definition bt_last_below :: "'k::linorder \<Rightarrow> ('k, 'v) btree \<Rightarrow> ('k \<times> 'v) option" where
  "bt_last_below b m = last_opt (filter (\<lambda>(j, _). j < b) m)"

definition bt_last_upto :: "'k::linorder \<Rightarrow> ('k, 'v) btree \<Rightarrow> ('k \<times> 'v) option" where
  "bt_last_upto b m = last_opt (filter (\<lambda>(j, _). j \<le> b) m)"

definition bt_ok :: "('k::linorder, 'v) btree \<Rightarrow> bool" where
  "bt_ok m \<longleftrightarrow> sorted_wrt (<) (map fst m)"

subsection \<open>The interface of a finite map\<close>

locale finite_map =
  fixes ok :: "'m \<Rightarrow> bool" and lookup :: "'m \<Rightarrow> 'k \<Rightarrow> 'v option"
    and put :: "'k \<Rightarrow> 'v \<Rightarrow> 'm \<Rightarrow> 'm" and del :: "'k \<Rightarrow> 'm \<Rightarrow> 'm" and none :: 'm
  assumes ok_none: "ok none" and ok_put: "ok m \<Longrightarrow> ok (put k v m)" and ok_del: "ok m \<Longrightarrow> ok (del k m)"
    and lookup_none: "lookup none k = None"
    and lookup_put: "ok m \<Longrightarrow> lookup (put k v m) = (lookup m)(k \<mapsto> v)"
    and lookup_del: "ok m \<Longrightarrow> lookup (del k m) = (lookup m)(k := None)"
begin

lemma put_put: "ok m \<Longrightarrow> lookup (put k v (put k w m)) = lookup (put k v m)"
  by (simp add: lookup_put ok_put)

lemma del_put: "ok m \<Longrightarrow> lookup m k = None \<Longrightarrow> lookup (del k (put k v m)) = lookup m"
  by (auto simp: lookup_put lookup_del ok_put fun_eq_iff)

end

lemma bt_insert_keys: "set (map fst (bt_insert k v m)) = insert k (set (map fst m))"
  by (induction k v m rule: bt_insert.induct) auto

lemma bt_ok_Nil [simp]: "bt_ok []"
  by (simp add: bt_ok_def)

lemma bt_get_Nil [simp]: "bt_get [] k = None"
  by (simp add: bt_get_def)

lemma bt_ok_Cons: "bt_ok ((k, v) # m) \<longleftrightarrow> bt_ok m \<and> (\<forall>j \<in> set (map fst m). k < j)"
  by (auto simp: bt_ok_def)

lemma bt_ok_insert: "bt_ok m \<Longrightarrow> bt_ok (bt_insert k v m)"
proof (induction k v m rule: bt_insert.induct)
  case (2 k v j w m)
  show ?case
  proof (cases "k < j")
    case True
    then show ?thesis using 2(2) unfolding bt_insert.simps bt_ok_Cons by (auto simp: bt_ok_Cons)
  next
    case False
    show ?thesis
    proof (cases "k = j")
      case True
      then show ?thesis using 2(2) by (simp add: bt_ok_Cons)
    next
      case kj: False
      then have "j < k" using False by simp
      moreover have "bt_ok (bt_insert k v m)" using 2(1)[OF False kj] 2(2) by (simp add: bt_ok_Cons)
      ultimately show ?thesis using 2(2) False kj bt_insert_keys[of k v m] by (auto simp: bt_ok_Cons)
    qed
  qed
qed (simp add: bt_ok_Cons)

lemma bt_get_insert: "bt_ok m \<Longrightarrow> bt_get (bt_insert k v m) = (bt_get m)(k \<mapsto> v)"
  by (induction k v m rule: bt_insert.induct) (auto simp: bt_get_def bt_ok_Cons fun_eq_iff)

lemma bt_ok_remove: "bt_ok m \<Longrightarrow> bt_ok (bt_remove k m)"
  by (induction m) (auto simp: bt_remove_def bt_ok_Cons)

lemma bt_get_remove: "bt_get (bt_remove k m) = (bt_get m)(k := None)"
  by (induction m) (auto simp: bt_remove_def bt_get_def fun_eq_iff)

interpretation bt: finite_map bt_ok bt_get bt_insert bt_remove "[]"
  by unfold_locales (simp_all add: bt_ok_insert bt_ok_remove bt_get_insert bt_get_remove)

lemma bt_get_Some: "bt_ok m \<Longrightarrow> bt_get m k = Some v \<longleftrightarrow> (k, v) \<in> set m"
proof -
  assume "bt_ok m"
  then have "distinct (map fst m)" by (simp add: bt_ok_def strict_sorted_iff)
  then show ?thesis by (simp add: bt_get_def)
qed

lemma bt_ok_filter: "bt_ok m \<Longrightarrow> bt_ok (filter P m)"
  by (induction m) (auto simp: bt_ok_Cons)

lemma bt_ok_last:
  assumes "bt_ok m" "m \<noteq> []" "(j, w) \<in> set m"
  shows "j \<le> fst (last m)"
  using assms
proof (induction m)
  case (Cons x m)
  then show ?case by (cases x) (auto simp: bt_ok_Cons less_imp_le)
qed simp

lemma last_opt_filter:
  assumes "bt_ok m"
  shows "case last_opt (filter P m) of
      None \<Rightarrow> (\<forall>x \<in> set m. \<not> P x)
    | Some x \<Rightarrow> x \<in> set m \<and> P x \<and> (\<forall>y \<in> set m. P y \<longrightarrow> fst y \<le> fst x)"
proof (cases "filter P m = []")
  case True
  then show ?thesis by (simp add: last_opt_def filter_empty_conv)
next
  case False
  have "last (filter P m) \<in> set (filter P m)" using False by (rule last_in_set)
  moreover have "fst y \<le> fst (last (filter P m))" if "y \<in> set m" "P y" for y
    using bt_ok_last[OF bt_ok_filter[OF assms] False, of "fst y" "snd y"] that by simp
  ultimately show ?thesis using False by (auto simp: last_opt_def)
qed

end
