(* ===== verification/Vmm.thy ===== *)
theory Vmm
  imports Zones BTree_Map
begin

text \<open>
  \<open>memory/vmm/mod.rs\<close>: the wrappers of the kernel around the page tables of the \<open>x86_64\<close> crate. The
  page tables themselves are not part of the sources. Their type is a type variable, and their
  operations are the fields of the record \<open>X86\<close>, an argument of every definition that uses
  them; \<open>pt_doc\<close> states what the documentation of the crate says of them.
\<close>

subsection \<open>The interface of the page tables\<close>

datatype PtFlag = PRESENT | WRITABLE | USER_ACCESSIBLE | NO_CACHE | NO_EXECUTE

type_synonym PageTableFlags = "PtFlag set"

datatype MapToError = FrameAllocationFailed | MapParentHugePage | PageAlreadyMapped PhysAddr

datatype UnmapError = UnmapParentHugePage | PageNotMapped | InvalidFrameAddress PhysAddr

text \<open>
  \<open>map_to\<close> takes the frame allocator as an argument and may call it for the intermediate tables.
  A page and a frame are given by their start addresses. \<open>pt_new\<close> is the page table over a root
  table with the given entries, and \<open>pt_root\<close> the address of the root table.
\<close>

record 'pt X86 = X86Addr +
  va_add :: "VirtAddr \<Rightarrow> usize \<Rightarrow> VirtAddr option"
  va_is_aligned :: "VirtAddr \<Rightarrow> usize \<Rightarrow> bool"
  page_of :: "VirtAddr \<Rightarrow> VirtAddr"
  frame_of :: "PhysAddr \<Rightarrow> PhysAddr"
  map_to :: "VirtAddr \<Rightarrow> PhysAddr \<Rightarrow> PageTableFlags \<Rightarrow> (PhysMem \<Rightarrow> (PhysAddr option \<times> PhysMem) option)
     \<Rightarrow> 'pt \<times> PhysMem \<Rightarrow> ((MapToError + unit) \<times> 'pt \<times> PhysMem) option"
  pt_unmap :: "VirtAddr \<Rightarrow> 'pt \<Rightarrow> (UnmapError + PhysAddr) \<times> 'pt"
  pt_new :: "PhysAddr \<Rightarrow> u64 list \<Rightarrow> 'pt"
  pt_root :: "'pt \<Rightarrow> usize"

text \<open>A loop that stops at the first error and keeps the state it has reached.\<close>

fun try_loop :: "('a \<Rightarrow> 's \<Rightarrow> (('e + unit) \<times> 's) option) \<Rightarrow> 'a list \<Rightarrow> 's \<Rightarrow> (('e + unit) \<times> 's) option" where
  "try_loop f [] s = Some (Inr (), s)"
| "try_loop f (x # xs) s = do {
     (r, s') \<leftarrow> f x s;
     case r of Inl e \<Rightarrow> Some (Inl e, s') | Inr _ \<Rightarrow> try_loop f xs s'
   }"

definition map_err :: "('e \<Rightarrow> 'f) \<Rightarrow> 'e + 'a \<Rightarrow> 'f + 'a" where
  "map_err f r = (case r of Inl e \<Rightarrow> Inl (f e) | Inr a \<Rightarrow> Inr a)"

definition expect_ok :: "('e + 'a) \<Rightarrow> 'a option" where
  "expect_ok r = (case r of Inl _ \<Rightarrow> None | Inr a \<Rightarrow> Some a)"

subsection \<open>Pages\<close>

definition allocate_frame :: "('pt, 'z) X86_scheme \<Rightarrow> usize \<Rightarrow> PhysMem \<Rightarrow> (PhysAddr option \<times> PhysMem) option" where
  "allocate_frame x hhdm pm = do {
     (r, pm') \<leftarrow> alloc_pages_by_order x hhdm 0 (PALLOC_KERNEL OR PALLOC_ZEROED) pm;
     case r of
       None \<Rightarrow> Some (None, pm')
     | Some phys \<Rightarrow> do { rassert (frame_of x phys = phys); Some (Some phys, pm') }
   }"

fun map_error_str :: "MapToError \<Rightarrow> string" where
  "map_error_str FrameAllocationFailed = ''map: frame allocation failed''"
| "map_error_str MapParentHugePage = ''map: parent entry is a huge page''"
| "map_error_str (PageAlreadyMapped _) = ''map: page already mapped''"

fun unmap_error_str :: "UnmapError \<Rightarrow> string" where
  "unmap_error_str UnmapParentHugePage = ''unmap: parent entry is a huge page''"
| "unmap_error_str PageNotMapped = ''unmap: page not mapped''"
| "unmap_error_str (InvalidFrameAddress _) = ''unmap: invalid frame address''"

definition map_single_page ::
  "('pt, 'z) X86_scheme \<Rightarrow> usize \<Rightarrow> VirtAddr \<Rightarrow> PhysAddr \<Rightarrow> PageTableFlags \<Rightarrow> 'pt \<times> PhysMem
     \<Rightarrow> ((string + unit) \<times> 'pt \<times> PhysMem) option" where
  "map_single_page x hhdm virt phys flags st = do {
     (r, st') \<leftarrow> map_to x (page_of x virt) (frame_of x phys) flags (allocate_frame x hhdm) st;
     Some (map_err map_error_str r, st')
   }"

definition map_mmio_page_inner ::
  "('pt, 'z) X86_scheme \<Rightarrow> usize \<Rightarrow> VirtAddr \<Rightarrow> PhysAddr \<Rightarrow> PageTableFlags \<Rightarrow> 'pt \<times> PhysMem
     \<Rightarrow> ((string + unit) \<times> 'pt \<times> PhysMem) option" where
  "map_mmio_page_inner x hhdm virt phys flags st = do {
     let frame = frame_of x phys;
     (r, st') \<leftarrow> map_to x (page_of x virt) frame flags (allocate_frame x hhdm) st;
     Some (case r of
         Inr _ \<Rightarrow> Inr ()
       | Inl (PageAlreadyMapped existing) \<Rightarrow>
           (if existing = frame then Inr () else Inl ''map_mmio_page: VA already mapped to different PA'')
       | Inl MapParentHugePage \<Rightarrow> Inr ()
       | Inl FrameAllocationFailed \<Rightarrow> Inl ''map_mmio_page: OOM for intermediate page table'', st')
   }"

definition unmap_single_page :: "('pt, 'z) X86_scheme \<Rightarrow> VirtAddr \<Rightarrow> 'pt \<Rightarrow> (string + PhysAddr) \<times> 'pt" where
  "unmap_single_page x virt pt = (let (r, pt') = pt_unmap x (page_of x virt) pt in (map_err unmap_error_str r, pt'))"

subsection \<open>The kernel page table\<close>

definition kmap_page ::
  "('pt, 'z) X86_scheme \<Rightarrow> usize \<Rightarrow> VirtAddr \<Rightarrow> PhysAddr \<Rightarrow> PageTableFlags \<Rightarrow> 'pt \<times> PhysMem \<Rightarrow> ('pt \<times> PhysMem) option" where
  "kmap_page x hhdm virt phys flags st = do {
     (r, st') \<leftarrow> map_single_page x hhdm virt phys flags st;
     _ \<leftarrow> expect_ok r;
     Some st'
   }"

definition kmap_mmio_page ::
  "('pt, 'z) X86_scheme \<Rightarrow> usize \<Rightarrow> VirtAddr \<Rightarrow> PhysAddr \<Rightarrow> PageTableFlags \<Rightarrow> 'pt \<times> PhysMem \<Rightarrow> ('pt \<times> PhysMem) option" where
  "kmap_mmio_page x hhdm virt phys flags st = do {
     (r, st') \<leftarrow> map_mmio_page_inner x hhdm virt phys flags st;
     _ \<leftarrow> expect_ok r;
     Some st'
   }"

definition kunmap_page :: "('pt, 'z) X86_scheme \<Rightarrow> VirtAddr \<Rightarrow> 'pt \<Rightarrow> 'pt option" where
  "kunmap_page x virt pt = (let (r, pt') = unmap_single_page x virt pt in do { _ \<leftarrow> expect_ok r; Some pt' })"

definition MMIO_VIRT_BASE :: usize where
  "MMIO_VIRT_BASE = 0xFFFFFF8000000000"

definition map_mmio_region ::
  "('pt, 'z) X86_scheme \<Rightarrow> usize \<Rightarrow> PhysAddr \<Rightarrow> usize \<Rightarrow> 'pt \<times> PhysMem \<Rightarrow> (VirtAddr \<times> 'pt \<times> PhysMem) option" where
  "map_mmio_region x hhdm phys sz st = do {
     let phys_start = phys AND u_not (PAGE_SIZE - 1);
     offset \<leftarrow> u_sub phys phys_start;
     total \<leftarrow> u_add offset sz;
     let pages = total div PAGE_SIZE + (if total mod PAGE_SIZE = 0 then 0 else 1);
     virt_base \<leftarrow> va_new x MMIO_VIRT_BASE;
     let flags = {PRESENT, WRITABLE, NO_CACHE, NO_EXECUTE};
     st' \<leftarrow> for_each (\<lambda>i st. do {
         off \<leftarrow> u_mul i PAGE_SIZE;
         va \<leftarrow> va_add x virt_base off;
         p \<leftarrow> u_add phys_start off;
         pa \<leftarrow> pa_new x p;
         (r, st') \<leftarrow> map_mmio_page_inner x hhdm va pa flags st;
         _ \<leftarrow> expect_ok r;
         Some st'
       }) [0..<pages] st;
     va \<leftarrow> va_add x virt_base offset;
     Some (va, st')
   }"

text \<open>A range of pages is the list of the pages it iterates over.\<close>

definition map_region ::
  "('pt, 'z) X86_scheme \<Rightarrow> usize \<Rightarrow> VirtAddr list \<Rightarrow> PhysAddr list \<Rightarrow> PageTableFlags \<Rightarrow> 'pt \<times> PhysMem
     \<Rightarrow> ((string + unit) \<times> 'pt \<times> PhysMem) option" where
  "map_region x hhdm virtual_region physical_region flags st =
     (if length physical_region < length virtual_region
      then Some (Inl ''map_region: physical_region shorter than virtual_region'', st)
      else try_loop (\<lambda>(i, page) st. do {
          phys \<leftarrow> arr_get physical_region i;
          (r, st') \<leftarrow> map_to x page (frame_of x phys) flags (allocate_frame x hhdm) st;
          Some (map_err map_error_str r, st')
        }) (List.enumerate 0 virtual_region) st)"

definition unmap_region :: "('pt, 'z) X86_scheme \<Rightarrow> VirtAddr list \<Rightarrow> 'pt \<Rightarrow> (string + PhysAddr list) \<times> 'pt" where
  "unmap_region x virtual_region pt =
     fold (\<lambda>page (r, pt). case r of
         Inl e \<Rightarrow> (Inl e, pt)
       | Inr frames \<Rightarrow> (case pt_unmap x page pt of
             (Inl e, pt') \<Rightarrow> (Inl (unmap_error_str e), pt')
           | (Inr frame, pt') \<Rightarrow> (Inr (frames @ [frame]), pt')))
       virtual_region (Inr [], pt)"

text \<open>The new root table is a zeroed page into whose upper half the active one is copied.\<close>

definition create_new_pt4_from_kernel_pt4 ::
  "('pt, 'z) X86_scheme \<Rightarrow> usize \<Rightarrow> u64 list \<Rightarrow> PhysMem \<Rightarrow> (PhysAddr \<times> u64 list \<times> PhysMem) option" where
  "create_new_pt4_from_kernel_pt4 x hhdm active pm = do {
     (r, pm') \<leftarrow> alloc_pages_by_order x hhdm 0 (PALLOC_KERNEL OR PALLOC_ZEROED) pm;
     new_phys \<leftarrow> r;
     _ \<leftarrow> phys_to_virt hhdm new_phys;
     Some (new_phys, take 256 (replicate 512 0) @ take 256 (drop 256 active), pm')
   }"

subsection \<open>What the documentation says of the page tables\<close>

definition x86_doc :: "('pt, 'z) X86_scheme \<Rightarrow> bool" where
  "x86_doc x \<longleftrightarrow> x86_addr_doc x
     \<and> (\<forall>a n. va_add x a n = (if canonical (a + n) then Some (a + n) else None))
     \<and> (\<forall>a. va_is_aligned x a PAGE_SIZE \<longleftrightarrow> a mod PAGE_SIZE = 0)
     \<and> (\<forall>a. page_of x a = a - a mod PAGE_SIZE) \<and> (\<forall>a. frame_of x a = a - a mod PAGE_SIZE)"

text \<open>
  A page table translates pages. A page that is mapped cannot be mapped again, an error leaves
  the translation as it was, and a mapped page can be unmapped.
\<close>

type_synonym 'pt translation = "'pt \<Rightarrow> VirtAddr \<Rightarrow> (PhysAddr \<times> PageTableFlags) option"

definition map_to_doc :: "('pt, 'z) X86_scheme \<Rightarrow> 'pt translation \<Rightarrow> bool" where
  "map_to_doc x tr \<longleftrightarrow> (\<forall>page frame flags fa pt pm r pt' pm'.
     PRESENT \<in> flags \<longrightarrow> map_to x page frame flags fa (pt, pm) = Some (r, pt', pm') \<longrightarrow>
       (case r of Inl _ \<Rightarrow> tr pt' = tr pt | Inr _ \<Rightarrow> tr pt page = None \<and> tr pt' = (tr pt)(page \<mapsto> (frame, flags))))"

definition unmap_doc :: "('pt, 'z) X86_scheme \<Rightarrow> 'pt translation \<Rightarrow> bool" where
  "unmap_doc x tr \<longleftrightarrow> (\<forall>page pt. case tr pt page of
       None \<Rightarrow> (\<exists>e pt'. pt_unmap x page pt = (Inl e, pt') \<and> tr pt' = tr pt)
     | Some (frame, _) \<Rightarrow> (\<exists>pt'. pt_unmap x page pt = (Inr frame, pt') \<and> tr pt' = (tr pt)(page := None)))"

definition pt_doc :: "('pt, 'z) X86_scheme \<Rightarrow> 'pt translation \<Rightarrow> bool" where
  "pt_doc x tr \<longleftrightarrow> x86_doc x \<and> map_to_doc x tr \<and> unmap_doc x tr"

text \<open>A page table that is a finite map satisfies all of it.\<close>

type_synonym flat_pt = "VirtAddr \<Rightarrow> (PhysAddr \<times> PageTableFlags) option"

definition flat_x86 :: "flat_pt X86" where
  "flat_x86 = \<lparr>
     pa_new = (\<lambda>a. if a < 2 ^ 52 then Some a else None),
     va_new = (\<lambda>a. if canonical a then Some a else None),
     va_add = (\<lambda>a n. if canonical (a + n) then Some (a + n) else None),
     va_is_aligned = (\<lambda>a n. a mod n = 0),
     page_of = (\<lambda>a. a - a mod PAGE_SIZE),
     frame_of = (\<lambda>a. a - a mod PAGE_SIZE),
     map_to = (\<lambda>page frame flags fa (pt, pm). Some (case pt page of
         None \<Rightarrow> (Inr (), pt(page \<mapsto> (frame, flags)), pm)
       | Some (old, _) \<Rightarrow> (Inl (PageAlreadyMapped old), pt, pm))),
     pt_unmap = (\<lambda>page pt. case pt page of
         None \<Rightarrow> (Inl PageNotMapped, pt)
       | Some (frame, _) \<Rightarrow> (Inr frame, pt(page := None))),
     pt_new = (\<lambda>_ _ _. None),
     pt_root = (\<lambda>_. 0)\<rparr>"

lemma flat_x86_addr: "x86_addr_doc flat_x86"
  by (simp add: x86_addr_doc_def flat_x86_def)

lemma flat_x86_doc: "x86_doc flat_x86"
  by (simp add: x86_doc_def flat_x86_addr) (simp add: flat_x86_def)

lemma flat_x86_pt_doc: "pt_doc flat_x86 (\<lambda>pt. pt)"
  by (auto simp: pt_doc_def flat_x86_doc map_to_doc_def unmap_doc_def) (auto simp: flat_x86_def split: option.splits)

subsection \<open>Mapping and unmapping one page\<close>

lemma pt_docD:
  assumes "pt_doc x tr"
  shows "x86_doc x" "x86_addr_doc x" "a mod PAGE_SIZE = 0 \<Longrightarrow> page_of x a = a" "a mod PAGE_SIZE = 0 \<Longrightarrow> frame_of x a = a"
    "va_is_aligned x a PAGE_SIZE \<longleftrightarrow> a mod PAGE_SIZE = 0"
  using assms by (simp_all add: pt_doc_def x86_doc_def)

lemma map_single_page_tr:
  assumes "pt_doc x tr" "map_single_page x hhdm a p flags (pt, pm) = Some (r, pt', pm')" "a mod PAGE_SIZE = 0" "p mod PAGE_SIZE = 0" "PRESENT \<in> flags"
  shows "case r of Inl _ \<Rightarrow> tr pt' = tr pt | Inr _ \<Rightarrow> tr pt a = None \<and> tr pt' = (tr pt)(a \<mapsto> (p, flags))"
proof -
  obtain r0 where m: "map_to x a p flags (allocate_frame x hhdm) (pt, pm) = Some (r0, pt', pm')" "r = map_err map_error_str r0"
    using assms by (auto simp: map_single_page_def pt_docD split: Option.bind_splits)
  have "case r0 of Inl _ \<Rightarrow> tr pt' = tr pt | Inr _ \<Rightarrow> tr pt a = None \<and> tr pt' = (tr pt)(a \<mapsto> (p, flags))"
    using assms(1,5) m(1) unfolding pt_doc_def map_to_doc_def by blast
  then show ?thesis using m(2) by (cases r0) (auto simp: map_err_def)
qed

lemma unmap_single_page_tr:
  assumes "pt_doc x tr" "a mod PAGE_SIZE = 0" "tr pt a = Some (p, flags)"
  shows "\<exists>pt'. unmap_single_page x a pt = (Inr p, pt') \<and> tr pt' = (tr pt)(a := None)"
proof -
  obtain pt' where "pt_unmap x a pt = (Inr p, pt')" "tr pt' = (tr pt)(a := None)"
    using assms(1,3) unfolding pt_doc_def unmap_doc_def by (fastforce split: option.splits)
  then show ?thesis using assms by (simp add: unmap_single_page_def pt_docD map_err_def)
qed

lemma try_loop_append:
  "try_loop f (xs @ ys) s = Option.bind (try_loop f xs s) (\<lambda>(r, s'). case r of Inl e \<Rightarrow> Some (Inl e, s') | Inr _ \<Rightarrow> try_loop f ys s')"
proof (induction xs arbitrary: s)
  case (Cons x xs)
  then show ?case by (auto simp: Option.bind_assoc split: sum.splits intro!: bind_option_cong)
qed simp

lemma try_loop_skip: "(\<And>i st. i \<in> set is \<Longrightarrow> f i st = Some (Inr (), st)) \<Longrightarrow> try_loop f is st = Some (Inr (), st)"
  by (induction "is") auto

end
