(* ===== verification/Addr_Space.thy ===== *)
theory Addr_Space
  imports Vmm
begin

text \<open>
  \<open>scheduler/addr_space.rs\<close>: the address space of a task, an ordered map of virtual memory areas
  next to a page table.
\<close>

subsection \<open>Definitions\<close>

type_synonym MapFlags = u32

definition MAP_READ :: MapFlags where "MAP_READ = push_bit 0 1"
definition MAP_WRITE :: MapFlags where "MAP_WRITE = push_bit 1 1"
definition MAP_EXEC :: MapFlags where "MAP_EXEC = push_bit 2 1"
definition MAP_USER :: MapFlags where "MAP_USER = push_bit 3 1"
definition MAP_NOCACHE :: MapFlags where "MAP_NOCACHE = push_bit 4 1"

text \<open>The truncating constructor of the bit set keeps the bits that have a name.\<close>

definition map_flags_from_bits_truncate :: "u32 \<Rightarrow> MapFlags" where
  "map_flags_from_bits_truncate bits = bits AND (MAP_READ OR MAP_WRITE OR MAP_EXEC OR MAP_USER OR MAP_NOCACHE)"

definition to_page_table_flags :: "MapFlags \<Rightarrow> PageTableFlags" where
  "to_page_table_flags m =
     {PRESENT}
     \<union> (if flag_set m MAP_WRITE then {WRITABLE} else {})
     \<union> (if flag_set m MAP_USER then {USER_ACCESSIBLE} else {})
     \<union> (if flag_set m MAP_NOCACHE then {NO_CACHE} else {})
     \<union> (if \<not> flag_set m MAP_EXEC then {NO_EXECUTE} else {})"

datatype VmaBacking = Physical PhysAddr | Device PhysAddr | ReservedVma

record Vma =
  vma_vaddr :: VirtAddr
  vma_size :: usize
  vma_flags :: MapFlags
  vma_backing :: VmaBacking

definition vma_end :: "'a X86Addr_scheme \<Rightarrow> Vma \<Rightarrow> VirtAddr option" where
  "vma_end x v = do { e \<leftarrow> u_add (vma_vaddr v) (vma_size v); va_new x e }"

definition vma_contains :: "'a X86Addr_scheme \<Rightarrow> Vma \<Rightarrow> VirtAddr \<Rightarrow> bool option" where
  "vma_contains x v addr =
     (if addr \<ge> vma_vaddr v then do { e \<leftarrow> vma_end x v; Some (addr < e) } else Some False)"

definition vma_overlaps :: "'a X86Addr_scheme \<Rightarrow> Vma \<Rightarrow> Vma \<Rightarrow> bool option" where
  "vma_overlaps x v other = do {
     oe \<leftarrow> vma_end x other;
     if vma_vaddr v < oe then do { e \<leftarrow> vma_end x v; Some (vma_vaddr other < e) } else Some False
   }"

record 'pt AddrSpace =
  as_vmas :: "(usize, Vma) btree"
  as_page_table :: 'pt

datatype VmaError = NotAligned | Overlap | NotFound | PageTableError string

definition as_new :: "'pt \<Rightarrow> 'pt AddrSpace" where
  "as_new page_table = \<lparr>as_vmas = [], as_page_table = page_table\<rparr>"

definition get_page_table_phys :: "('pt, 'z) X86_scheme \<Rightarrow> usize \<Rightarrow> 'pt AddrSpace \<Rightarrow> PhysAddr option" where
  "get_page_table_phys x hhdm s = do {
     p \<leftarrow> virt_to_phys hhdm (pt_root x (as_page_table s));
     pa_new x p
   }"

text \<open>\<open>range(..).next_back().map().filter()\<close>: the filter runs on the last area only.\<close>

definition filter_last :: "(Vma \<Rightarrow> bool option) \<Rightarrow> (usize \<times> Vma) option \<Rightarrow> Vma option option" where
  "filter_last P r = (case r of None \<Rightarrow> Some None | Some (_, v) \<Rightarrow> do { ok \<leftarrow> P v; Some (if ok then Some v else None) })"

definition find_overlapping :: "('pt, 'z) X86_scheme \<Rightarrow> 'pt AddrSpace \<Rightarrow> Vma \<Rightarrow> Vma option option" where
  "find_overlapping x s new = do {
     e \<leftarrow> vma_end x new;
     filter_last (\<lambda>v. vma_overlaps x v new) (bt_last_below e (as_vmas s))
   }"

definition as_find :: "('pt, 'z) X86_scheme \<Rightarrow> 'pt AddrSpace \<Rightarrow> VirtAddr \<Rightarrow> Vma option option" where
  "as_find x s addr = filter_last (\<lambda>v. vma_contains x v addr) (bt_last_upto addr (as_vmas s))"

text \<open>The address of page \<open>i\<close> of an area.\<close>

definition vma_page :: "('pt, 'z) X86_scheme \<Rightarrow> Vma \<Rightarrow> usize \<Rightarrow> VirtAddr option" where
  "vma_page x v i = do { off \<leftarrow> u_mul i PAGE_SIZE; a \<leftarrow> u_add (vma_vaddr v) off; va_new x a }"

definition phys_page :: "('pt, 'z) X86_scheme \<Rightarrow> PhysAddr \<Rightarrow> usize \<Rightarrow> PhysAddr option" where
  "phys_page x phys i = do { off \<leftarrow> u_mul i PAGE_SIZE; a \<leftarrow> u_add phys off; pa_new x a }"

definition map_in_page_table ::
  "('pt, 'z) X86_scheme \<Rightarrow> usize \<Rightarrow> Vma \<Rightarrow> 'pt \<times> PhysMem \<Rightarrow> ((string + unit) \<times> 'pt \<times> PhysMem) option" where
  "map_in_page_table x hhdm v st = do {
     let pages = vma_size v div PAGE_SIZE;
     let pt_flags = to_page_table_flags (vma_flags v);
     try_loop (\<lambda>i st. do {
         va \<leftarrow> vma_page x v i;
         case vma_backing v of
           Physical phys \<Rightarrow> do { pa \<leftarrow> phys_page x phys i; map_single_page x hhdm va pa pt_flags st }
         | Device phys \<Rightarrow> do { pa \<leftarrow> phys_page x phys i; map_single_page x hhdm va pa pt_flags st }
         | ReservedVma \<Rightarrow> Some (Inr (), st)
       }) [0..<pages] st
   }"

definition as_map ::
  "('pt, 'z) X86_scheme \<Rightarrow> usize \<Rightarrow> VirtAddr \<Rightarrow> usize \<Rightarrow> VmaBacking \<Rightarrow> MapFlags \<Rightarrow> 'pt AddrSpace \<times> PhysMem
     \<Rightarrow> ((VmaError + unit) \<times> 'pt AddrSpace \<times> PhysMem) option" where
  "as_map x hhdm vaddr sz backing flags = (\<lambda>(s, pm).
     if \<not> va_is_aligned x vaddr PAGE_SIZE \<or> sz mod PAGE_SIZE \<noteq> 0 then Some (Inl NotAligned, s, pm)
     else do {
       let v = \<lparr>vma_vaddr = vaddr, vma_size = sz, vma_flags = flags, vma_backing = backing\<rparr>;
       ov \<leftarrow> find_overlapping x s v;
       if ov \<noteq> None then Some (Inl Overlap, s, pm)
       else do {
         (r, pt, pm') \<leftarrow> map_in_page_table x hhdm v (as_page_table s, pm);
         case r of
           Inl e \<Rightarrow> Some (Inl (PageTableError e), s\<lparr>as_page_table := pt\<rparr>, pm')
         | Inr _ \<Rightarrow> Some (Inr (), s\<lparr>as_page_table := pt, as_vmas := bt_insert vaddr v (as_vmas s)\<rparr>, pm')
       }
     })"

definition as_unmap ::
  "('pt, 'z) X86_scheme \<Rightarrow> VirtAddr \<Rightarrow> 'pt AddrSpace \<Rightarrow> ((VmaError + unit) \<times> 'pt AddrSpace) option" where
  "as_unmap x vaddr s = (case bt_get (as_vmas s) vaddr of
       None \<Rightarrow> Some (Inl NotFound, s)
     | Some v \<Rightarrow> do {
         (r, pt) \<leftarrow> try_loop (\<lambda>i pt. do {
             va \<leftarrow> vma_page x v i;
             let (r, pt') = unmap_single_page x va pt;
             case vma_backing v of
               ReservedVma \<Rightarrow> Some (Inr (), pt')
             | _ \<Rightarrow> Some (case r of Inl e \<Rightarrow> Inl (PageTableError e) | Inr _ \<Rightarrow> Inr (), pt')
           }) [0..<vma_size v div PAGE_SIZE] (as_page_table s);
         Some (r, s\<lparr>as_vmas := bt_remove vaddr (as_vmas s), as_page_table := pt\<rparr>)
       })"

definition as_protect ::
  "('pt, 'z) X86_scheme \<Rightarrow> usize \<Rightarrow> VirtAddr \<Rightarrow> MapFlags \<Rightarrow> 'pt AddrSpace \<times> PhysMem
     \<Rightarrow> ((VmaError + unit) \<times> 'pt AddrSpace \<times> PhysMem) option" where
  "as_protect x hhdm vaddr flags = (\<lambda>(s, pm). case bt_get (as_vmas s) vaddr of
       None \<Rightarrow> Some (Inl NotFound, s, pm)
     | Some v \<Rightarrow> do {
         let pt_flags = to_page_table_flags flags;
         let remap = (\<lambda>va phys i (pt, pm). do {
             pa \<leftarrow> phys_page x phys i;
             let (r, pt1) = unmap_single_page x va pt;
             case r of
               Inl e \<Rightarrow> Some (Inl (PageTableError e), pt1, pm)
             | Inr _ \<Rightarrow> do {
                 (r2, st2) \<leftarrow> map_single_page x hhdm va pa pt_flags (pt1, pm);
                 Some (map_err PageTableError r2, st2)
               }
           });
         (r, pt, pm') \<leftarrow> try_loop (\<lambda>i st. do {
             va \<leftarrow> vma_page x v i;
             case vma_backing v of
               Physical phys \<Rightarrow> remap va phys i st
             | Device phys \<Rightarrow> remap va phys i st
             | ReservedVma \<Rightarrow> Some (Inr (), st)
           }) [0..<vma_size v div PAGE_SIZE] (as_page_table s, pm);
         case r of
           Inl e \<Rightarrow> Some (Inl e, s\<lparr>as_page_table := pt\<rparr>, pm')
         | Inr _ \<Rightarrow> Some (Inr (), s\<lparr>as_page_table := pt, as_vmas := bt_insert vaddr (v\<lparr>vma_flags := flags\<rparr>) (as_vmas s)\<rparr>, pm')
       })"

text \<open>The destructor: every area is removed, its pages unmapped and, unless a device owns them, freed.\<close>

definition drop_page :: "('pt, 'z) X86_scheme \<Rightarrow> Vma \<Rightarrow> usize \<Rightarrow> 'pt \<times> PhysMem \<Rightarrow> ('pt \<times> PhysMem) option" where
  "drop_page x v i = (\<lambda>(pt, pm). do {
     va \<leftarrow> vma_page x v i;
     let (r, pt') = unmap_single_page x va pt;
     let freed = (case r of Inl _ \<Rightarrow> Some (pt', pm) | Inr pa \<Rightarrow> do { pm' \<leftarrow> free_pages pa pm; Some (pt', pm') });
     case vma_backing v of
       Physical _ \<Rightarrow> freed
     | Device _ \<Rightarrow> Some (pt', pm)
     | ReservedVma \<Rightarrow> freed
   })"

definition as_drop :: "('pt, 'z) X86_scheme \<Rightarrow> usize \<Rightarrow> 'pt AddrSpace \<times> PhysMem \<Rightarrow> PhysMem option" where
  "as_drop x hhdm = (\<lambda>(s, pm). do {
     (s', pm') \<leftarrow> for_each (\<lambda>vaddr (s, pm). do {
         v \<leftarrow> bt_get (as_vmas s) vaddr;
         (pt, pm') \<leftarrow> for_each (drop_page x v) [0..<vma_size v div PAGE_SIZE] (as_page_table s, pm);
         Some (s\<lparr>as_vmas := bt_remove vaddr (as_vmas s), as_page_table := pt\<rparr>, pm')
       }) (bt_keys (as_vmas s)) (s, pm);
     pt_phys \<leftarrow> get_page_table_phys x hhdm s';
     free_pages pt_phys pm'
   })"

subsection \<open>The areas of an address space\<close>

definition areas :: "'pt AddrSpace \<Rightarrow> VirtAddr \<Rightarrow> Vma option" where
  "areas s = bt_get (as_vmas s)"

definition vma_range :: "Vma \<Rightarrow> VirtAddr set" where
  "vma_range v = {vma_vaddr v..<vma_vaddr v + vma_size v}"

text \<open>A range that lies in one half of the address space, its end included.\<close>

definition valid_range :: "Vma \<Rightarrow> bool" where
  "valid_range v \<longleftrightarrow> canonical (vma_vaddr v) \<and> canonical (vma_vaddr v + vma_size v)
     \<and> (vma_vaddr v < 2 ^ 47 \<longrightarrow> vma_vaddr v + vma_size v < 2 ^ 47)"

definition vma_ok :: "Vma \<Rightarrow> bool" where
  "vma_ok v \<longleftrightarrow> 0 < vma_size v \<and> vma_vaddr v mod PAGE_SIZE = 0 \<and> vma_size v mod PAGE_SIZE = 0 \<and> valid_range v"

definition as_inv :: "'pt AddrSpace \<Rightarrow> bool" where
  "as_inv s \<longleftrightarrow> bt_ok (as_vmas s) \<and> (\<forall>k v. areas s k = Some v \<longrightarrow> vma_vaddr v = k \<and> vma_ok v)
     \<and> (\<forall>j k v w. areas s j = Some v \<longrightarrow> areas s k = Some w \<longrightarrow> j < k \<longrightarrow> j + vma_size v \<le> k)"

definition free_range :: "'pt AddrSpace \<Rightarrow> Vma \<Rightarrow> bool" where
  "free_range s v \<longleftrightarrow> (\<forall>k w. areas s k = Some w \<longrightarrow> vma_range w \<inter> vma_range v = {})"

lemma as_invD:
  assumes "as_inv s" "areas s k = Some v"
  shows "vma_vaddr v = k" "vma_ok v" "0 < vma_size v" "areas s j = Some w \<Longrightarrow> k < j \<Longrightarrow> k + vma_size v \<le> j"
  using assms by (auto simp: as_inv_def vma_ok_def)

lemma canonical_max: "canonical a \<Longrightarrow> a \<le> USIZE_MAX"
  by (auto simp: canonical_def USIZE_MAX_def)

lemma vma_end_ok: "x86_addr_doc x \<Longrightarrow> canonical (vma_vaddr v + vma_size v) \<Longrightarrow> vma_end x v = Some (vma_vaddr v + vma_size v)"
  by (simp add: vma_end_def x86_addr_doc_def canonical_max)

lemma ranges_meet:
  "0 < vma_size v \<Longrightarrow> 0 < vma_size w \<Longrightarrow> vma_range v \<inter> vma_range w \<noteq> {}
     \<longleftrightarrow> vma_vaddr v < vma_vaddr w + vma_size w \<and> vma_vaddr w < vma_vaddr v + vma_size v"
proof
  assume pos: "0 < vma_size v" "0 < vma_size w" and meet: "vma_vaddr v < vma_vaddr w + vma_size w \<and> vma_vaddr w < vma_vaddr v + vma_size v"
  then have "max (vma_vaddr v) (vma_vaddr w) \<in> vma_range v \<inter> vma_range w" by (auto simp: vma_range_def)
  then show "vma_range v \<inter> vma_range w \<noteq> {}" by blast
qed (auto simp: vma_range_def)

lemma bt_last_below_get:
  assumes "bt_ok m"
  shows "case bt_last_below b m of None \<Rightarrow> (\<forall>k v. bt_get m k = Some v \<longrightarrow> b \<le> k)
     | Some (k, v) \<Rightarrow> bt_get m k = Some v \<and> k < b \<and> (\<forall>j w. bt_get m j = Some w \<longrightarrow> j < b \<longrightarrow> j \<le> k)"
  using last_opt_filter[OF assms, of "\<lambda>(j, _). j < b"] bt_get_Some[OF assms]
  by (fastforce simp: bt_last_below_def split: option.splits)

lemma bt_last_upto_get:
  assumes "bt_ok m"
  shows "case bt_last_upto b m of None \<Rightarrow> (\<forall>k v. bt_get m k = Some v \<longrightarrow> b < k)
     | Some (k, v) \<Rightarrow> bt_get m k = Some v \<and> k \<le> b \<and> (\<forall>j w. bt_get m j = Some w \<longrightarrow> j \<le> b \<longrightarrow> j \<le> k)"
  using last_opt_filter[OF assms, of "\<lambda>(j, _). j \<le> b"] bt_get_Some[OF assms]
  by (fastforce simp: bt_last_upto_def split: option.splits)

text \<open>Looking at the last area below the end of the new one is enough, because the areas are disjoint.\<close>

lemma find_overlapping_ok:
  assumes x: "x86_addr_doc x" and inv: "as_inv s" and new: "0 < vma_size n" "canonical (vma_vaddr n + vma_size n)"
  shows "\<exists>r. find_overlapping x s n = Some r \<and> (r = None \<longleftrightarrow> free_range s n)"
proof -
  let ?e = "vma_vaddr n + vma_size n"
  have ok: "bt_ok (as_vmas s)" using inv by (simp add: as_inv_def)
  have fo: "find_overlapping x s n = filter_last (\<lambda>v. vma_overlaps x v n) (bt_last_below ?e (as_vmas s))"
    using vma_end_ok[OF x new(2)] by (simp add: find_overlapping_def)
  show ?thesis
  proof (cases "bt_last_below ?e (as_vmas s)")
    case None
    then have "?e \<le> k" if "areas s k = Some w" for k w using bt_last_below_get[OF ok, of ?e] that by (auto simp: areas_def)
    then have "vma_range w \<inter> vma_range n = {}" if "areas s k = Some w" for k w
      using that as_invD[OF inv that] by (fastforce simp: vma_range_def)
    then have "free_range s n" by (simp add: free_range_def)
    then show ?thesis using fo None by (simp add: filter_last_def)
  next
    case (Some kv)
    obtain k v where kv: "kv = (k, v)" by force
    have v: "areas s k = Some v" "k < ?e" "\<And>j w. areas s j = Some w \<Longrightarrow> j < ?e \<Longrightarrow> j \<le> k"
      using bt_last_below_get[OF ok, of ?e] Some kv by (auto simp: areas_def)
    note vd = as_invD[OF inv v(1)]
    have "vma_end x v = Some (k + vma_size v)" using vma_end_ok[OF x] vd(1,2) by (simp add: vma_ok_def valid_range_def)
    then have res: "find_overlapping x s n = Some (if vma_vaddr n < k + vma_size v then Some v else None)"
      using fo Some kv v(2) vd(1) vma_end_ok[OF x new(2)] by (simp add: filter_last_def vma_overlaps_def)
    have "free_range s n \<longleftrightarrow> \<not> vma_vaddr n < k + vma_size v"
    proof
      assume "free_range s n"
      then have "vma_range v \<inter> vma_range n = {}" using v(1) by (auto simp: free_range_def)
      then show "\<not> vma_vaddr n < k + vma_size v" using ranges_meet[OF vd(3) new(1)] v(2) vd(1) by auto
    next
      assume far: "\<not> vma_vaddr n < k + vma_size v"
      have "vma_range w \<inter> vma_range n = {}" if w: "areas s j = Some w" for j w
      proof (rule ccontr)
        note wd = as_invD[OF inv w]
        assume "vma_range w \<inter> vma_range n \<noteq> {}"
        then have m: "j < ?e" "vma_vaddr n < j + vma_size w" using ranges_meet[OF wd(3) new(1)] wd(1) by auto
        have "j \<le> k" using v(3)[OF w m(1)] .
        show False
        proof (cases "j = k")
          case True
          then show False using w v(1) m(2) far by simp
        next
          case False
          then have "j + vma_size w \<le> k" using \<open>j \<le> k\<close> wd(4)[OF v(1)] by simp
          then show False using m(2) far by linarith
        qed
      qed
      then show "free_range s n" by (simp add: free_range_def)
    qed
    then show ?thesis using res by auto
  qed
qed

text \<open>Lookup finds the one area that holds the address.\<close>

lemma as_find_ok:
  assumes x: "x86_addr_doc x" and inv: "as_inv s"
  shows "\<exists>r. as_find x s a = Some r \<and> (\<forall>v. r = Some v \<longleftrightarrow> (\<exists>k. areas s k = Some v) \<and> a \<in> vma_range v)"
proof -
  have ok: "bt_ok (as_vmas s)" using inv by (simp add: as_inv_def)
  show ?thesis
  proof (cases "bt_last_upto a (as_vmas s)")
    case None
    then have "a < k" if "areas s k = Some w" for k w using bt_last_upto_get[OF ok, of a] that by (auto simp: areas_def)
    then have "a \<notin> vma_range w" if "areas s k = Some w" for k w using that as_invD(1)[OF inv that] by (fastforce simp: vma_range_def)
    then have "\<not> (\<exists>k. areas s k = Some w \<and> a \<in> vma_range w)" for w by blast
    then show ?thesis using None by (simp add: as_find_def filter_last_def)
  next
    case (Some kv)
    obtain k v where kv: "kv = (k, v)" by force
    have v: "areas s k = Some v" "k \<le> a" "\<And>j w. areas s j = Some w \<Longrightarrow> j \<le> a \<Longrightarrow> j \<le> k"
      using bt_last_upto_get[OF ok, of a] Some kv by (auto simp: areas_def)
    note vd = as_invD[OF inv v(1)]
    have "vma_end x v = Some (k + vma_size v)" using vma_end_ok[OF x] vd(1,2) by (simp add: vma_ok_def valid_range_def)
    then have res: "as_find x s a = Some (if a < k + vma_size v then Some v else None)"
      using Some kv v(2) vd(1) by (simp add: as_find_def filter_last_def vma_contains_def)
    have uniq: "w = v" if w: "areas s j = Some w" and a: "a \<in> vma_range w" for j w
    proof (rule ccontr)
      assume ne: "w \<noteq> v"
      note wd = as_invD[OF inv w]
      have "j \<le> k" using v(3)[OF w] a wd(1) by (simp add: vma_range_def)
      moreover have "j \<noteq> k" using ne w v(1) by auto
      ultimately have "j + vma_size w \<le> k" using wd(4)[OF v(1)] by simp
      then show False using a wd(1) v(2) by (simp add: vma_range_def)
    qed
    have mem: "a \<in> vma_range v \<longleftrightarrow> a < k + vma_size v" using v(2) vd(1) by (simp add: vma_range_def)
    have "(if a < k + vma_size v then Some v else None) = Some w \<longleftrightarrow> (\<exists>j. areas s j = Some w) \<and> a \<in> vma_range w" for w
    proof
      assume "(if a < k + vma_size v then Some v else None) = Some w"
      then show "(\<exists>j. areas s j = Some w) \<and> a \<in> vma_range w" using mem v(1) by (auto split: if_splits)
    next
      assume "(\<exists>j. areas s j = Some w) \<and> a \<in> vma_range w"
      then have "w = v" "a \<in> vma_range v" using uniq by blast+
      then show "(if a < k + vma_size v then Some v else None) = Some w" using mem by simp
    qed
    then show ?thesis using res by blast
  qed
qed

lemma as_inv_insert:
  assumes inv: "as_inv s" and v: "vma_ok v" and fr: "free_range s v"
  shows "as_inv (s\<lparr>as_page_table := pt, as_vmas := bt_insert (vma_vaddr v) v (as_vmas s)\<rparr>)"
    "areas (s\<lparr>as_page_table := pt, as_vmas := bt_insert (vma_vaddr v) v (as_vmas s)\<rparr>) = (areas s)(vma_vaddr v \<mapsto> v)"
proof -
  let ?s = "s\<lparr>as_page_table := pt, as_vmas := bt_insert (vma_vaddr v) v (as_vmas s)\<rparr>"
  have ok: "bt_ok (as_vmas s)" using inv by (simp add: as_inv_def)
  show ar: "areas ?s = (areas s)(vma_vaddr v \<mapsto> v)" using bt.lookup_put[OF ok] by (simp add: areas_def)
  have sep: "k + vma_size w \<le> vma_vaddr v" if "areas s k = Some w" "k < vma_vaddr v" for k w
  proof (rule ccontr)
    note wd = as_invD[OF inv that(1)]
    assume "\<not> k + vma_size w \<le> vma_vaddr v"
    then have "vma_range w \<inter> vma_range v \<noteq> {}" using ranges_meet[OF wd(3)] v that(2) wd(1) by (simp add: vma_ok_def)
    then show False using fr that(1) by (auto simp: free_range_def)
  qed
  have sep': "vma_vaddr v + vma_size v \<le> k" if "areas s k = Some w" "vma_vaddr v < k" for k w
  proof (rule ccontr)
    note wd = as_invD[OF inv that(1)]
    assume "\<not> vma_vaddr v + vma_size v \<le> k"
    then have "vma_range w \<inter> vma_range v \<noteq> {}" using ranges_meet[OF wd(3)] v that(2) wd(1) by (simp add: vma_ok_def)
    then show False using fr that(1) by (auto simp: free_range_def)
  qed
  show "as_inv ?s" unfolding as_inv_def ar
    using inv bt_ok_insert[OF ok] v sep sep' by (auto simp: as_inv_def)
qed

subsection \<open>The loops over the pages of an area\<close>

lemma vma_page_ok:
  assumes "x86_addr_doc x" "valid_range v" "i < vma_size v div PAGE_SIZE"
  shows "vma_page x v i = Some (vma_vaddr v + i * PAGE_SIZE)"
proof -
  have lt: "i * PAGE_SIZE < vma_size v" using assms(3) by (simp add: PAGE_SIZE_eq less_eq_div_iff_mult_less_eq Suc_le_eq)
  have c: "canonical (vma_vaddr v + vma_size v)" using assms(2) by (simp add: valid_range_def)
  have "canonical (vma_vaddr v + i * PAGE_SIZE)" using assms(2) lt by (auto simp: canonical_def valid_range_def)
  then show ?thesis using assms(1) lt canonical_max[OF c] by (simp add: vma_page_def x86_addr_doc_def)
qed

lemma map_in_page_table_reserved:
  assumes "x86_addr_doc x" "valid_range v" "vma_backing v = ReservedVma"
  shows "map_in_page_table x hhdm v st = Some (Inr (), st)"
  unfolding map_in_page_table_def Let_def
  by (rule try_loop_skip) (use assms vma_page_ok[OF assms(1,2)] in simp)

text \<open>What a loop that maps or unmaps the pages \<open>a\<close>, \<open>a + PAGE_SIZE\<close>, \dots does to the translation.\<close>

definition page_at :: "VirtAddr \<Rightarrow> nat \<Rightarrow> VirtAddr \<Rightarrow> nat option" where
  "page_at a n p = (if a \<le> p \<and> (p - a) mod PAGE_SIZE = 0 \<and> (p - a) div PAGE_SIZE < n then Some ((p - a) div PAGE_SIZE) else None)"

lemma page_at_Suc: "page_at a (Suc n) p = (if p = a + n * PAGE_SIZE then Some n else page_at a n p)"
proof (cases "a \<le> p \<and> (p - a) mod PAGE_SIZE = 0")
  case True
  then obtain k where "p - a = k * PAGE_SIZE" by (metis mod_0_imp_dvd dvd_def mult.commute)
  then have "p = a + k * PAGE_SIZE" using True by linarith
  then show ?thesis by (auto simp: page_at_def PAGE_SIZE_eq)
next
  case False
  then show ?thesis by (auto simp: page_at_def)
qed

lemma page_at_self [simp]: "page_at a n (a + n * 4096) = None" "i < n \<Longrightarrow> page_at a n (a + i * 4096) = Some i"
  by (simp_all add: page_at_def)

definition with_pages :: "VirtAddr \<Rightarrow> nat \<Rightarrow> (nat \<Rightarrow> 'v option) \<Rightarrow> (VirtAddr \<Rightarrow> 'v option) \<Rightarrow> VirtAddr \<Rightarrow> 'v option" where
  "with_pages a n g t = (\<lambda>p. case page_at a n p of None \<Rightarrow> t p | Some i \<Rightarrow> g i)"

lemma with_pages_Suc: "with_pages a (Suc n) g t = (with_pages a n g t)(a + n * PAGE_SIZE := g n)"
  by (rule ext) (auto simp: with_pages_def page_at_Suc)

lemma with_pages_0 [simp]: "with_pages a 0 g t = t"
  by (simp add: with_pages_def page_at_def)

lemma with_pages_undo:
  assumes "\<And>i. i < n \<Longrightarrow> t (a + i * PAGE_SIZE) = None"
  shows "with_pages a n (\<lambda>_. None) (with_pages a n g t) = t"
proof
  fix p
  show "with_pages a n (\<lambda>_. None) (with_pages a n g t) p = t p"
  proof (cases "page_at a n p")
    case (Some i)
    then have "p = a + i * PAGE_SIZE" "i < n" by (auto simp: page_at_def PAGE_SIZE_eq split: if_splits)
    then show ?thesis using assms Some by (simp add: with_pages_def)
  qed (simp add: with_pages_def)
qed

lemma to_page_table_flags_present: "PRESENT \<in> to_page_table_flags m"
  by (simp add: to_page_table_flags_def)

lemma map_loop_tr:
  assumes doc: "pt_doc x tr" and al: "a mod PAGE_SIZE = 0" "phys mod PAGE_SIZE = 0" and pr: "PRESENT \<in> flags"
    and step: "\<And>i st r. i < n \<Longrightarrow> f i st = Some r \<Longrightarrow> map_single_page x hhdm (a + i * PAGE_SIZE) (phys + i * PAGE_SIZE) flags st = Some r"
  shows "try_loop f [0..<n] (pt, pm) = Some (Inr (), pt', pm') \<Longrightarrow>
    (\<forall>i < n. tr pt (a + i * PAGE_SIZE) = None) \<and> tr pt' = with_pages a n (\<lambda>i. Some (phys + i * PAGE_SIZE, flags)) (tr pt)"
  using step
proof (induction n arbitrary: pt' pm')
  case (Suc n)
  obtain pt1 pm1 where 1: "try_loop f [0..<n] (pt, pm) = Some (Inr (), pt1, pm1)" "try_loop f [n] (pt1, pm1) = Some (Inr (), pt', pm')"
    using Suc.prems(1) by (auto simp: try_loop_append split: Option.bind_splits sum.splits)
  have IH: "(\<forall>i < n. tr pt (a + i * PAGE_SIZE) = None) \<and> tr pt1 = with_pages a n (\<lambda>i. Some (phys + i * PAGE_SIZE, flags)) (tr pt)"
    by (rule Suc.IH[OF 1(1)]) (rule Suc.prems(2), simp_all)
  have "map_single_page x hhdm (a + n * PAGE_SIZE) (phys + n * PAGE_SIZE) flags (pt1, pm1) = Some (Inr (), pt', pm')"
    using 1(2) Suc.prems(2) by (auto split: Option.bind_splits sum.splits)
  then have "tr pt1 (a + n * PAGE_SIZE) = None \<and> tr pt' = (tr pt1)(a + n * PAGE_SIZE \<mapsto> (phys + n * PAGE_SIZE, flags))"
    using map_single_page_tr[OF doc _ _ _ pr] al by fastforce
  then show ?case using IH unfolding with_pages_Suc by (auto simp: less_Suc_eq with_pages_def)
qed simp

lemma unmap_loop_tr:
  assumes doc: "pt_doc x tr" and al: "a mod PAGE_SIZE = 0"
    and step: "\<And>i pt. i < n \<Longrightarrow> f i pt = (let (r, pt') = unmap_single_page x (a + i * PAGE_SIZE) pt
                  in Some (case r of Inl e \<Rightarrow> Inl (g e) | Inr _ \<Rightarrow> Inr (), pt'))"
    and mapped: "\<forall>i < n. tr pt (a + i * PAGE_SIZE) \<noteq> None"
  shows "\<exists>pt'. try_loop f [0..<n] pt = Some (Inr (), pt') \<and> tr pt' = with_pages a n (\<lambda>_. None) (tr pt)"
  using step mapped
proof (induction n)
  case (Suc n)
  obtain pt1 where 1: "try_loop f [0..<n] pt = Some (Inr (), pt1)" "tr pt1 = with_pages a n (\<lambda>_. None) (tr pt)"
    using Suc by auto
  obtain p fl where "tr pt (a + n * PAGE_SIZE) = Some (p, fl)" using Suc.prems(2) by force
  then have "tr pt1 (a + n * PAGE_SIZE) = Some (p, fl)" using 1(2) by (simp add: with_pages_def)
  then obtain pt2 where 2: "unmap_single_page x (a + n * PAGE_SIZE) pt1 = (Inr p, pt2)" "tr pt2 = (tr pt1)(a + n * PAGE_SIZE := None)"
    using unmap_single_page_tr[OF doc, of "a + n * PAGE_SIZE" pt1 p fl] al by auto
  have "f n pt1 = Some (Inr (), pt2)" using Suc.prems(1)[of n pt1] 2(1) by simp
  then show ?case using 1 2(2) by (auto simp: try_loop_append with_pages_Suc)
qed simp

subsection \<open>Properties\<close>

text \<open>
  C28. Reserving an area, the operation behind the mapping system call, never panics for a
  non-empty range inside one half of the address space. It is refused as unaligned exactly when
  the address or the size is not a multiple of the page size, and as overlapping exactly when some
  area meets the range, although only one area is looked at. Otherwise the area is added, and
  nothing else changes. The areas stay disjoint in every case.
\<close>

theorem reserve_area_exact:
  assumes x: "x86_doc x" and inv: "as_inv s" and sz: "0 < sz"
    and v: "v = \<lparr>vma_vaddr = a, vma_size = sz, vma_flags = flags, vma_backing = ReservedVma\<rparr>" "valid_range v"
  shows "\<exists>r s'. as_map x hhdm a sz ReservedVma flags (s, pm) = Some (r, s', pm) \<and> as_inv s' \<and> as_page_table s' = as_page_table s
     \<and> r = (if a mod PAGE_SIZE \<noteq> 0 \<or> sz mod PAGE_SIZE \<noteq> 0 then Inl NotAligned
            else if free_range s v then Inr () else Inl Overlap)
     \<and> areas s' = (if r = Inr () then (areas s)(a \<mapsto> v) else areas s)"
proof (cases "a mod PAGE_SIZE = 0 \<and> sz mod PAGE_SIZE = 0")
  case False
  then have "as_map x hhdm a sz ReservedVma flags (s, pm) = Some (Inl NotAligned, s, pm)"
    using x by (auto simp: as_map_def x86_doc_def)
  then show ?thesis using False inv by auto
next
  case True
  have ad: "x86_addr_doc x" and al: "va_is_aligned x a PAGE_SIZE" using x True by (auto simp: x86_doc_def)
  obtain ov where ov: "find_overlapping x s v = Some ov" "ov = None \<longleftrightarrow> free_range s v"
    using find_overlapping_ok[OF ad inv, of v] v sz by (auto simp: valid_range_def)
  show ?thesis
  proof (cases "free_range s v")
    case fr: True
    have ok: "vma_ok v" using True v sz by (simp add: vma_ok_def)
    have "as_map x hhdm a sz ReservedVma flags (s, pm)
        = Some (Inr (), s\<lparr>as_page_table := as_page_table s, as_vmas := bt_insert a v (as_vmas s)\<rparr>, pm)"
      using ov fr True al map_in_page_table_reserved[OF ad v(2)] by (simp add: as_map_def v(1)[symmetric]) (simp add: v(1))
    then show ?thesis using as_inv_insert[OF inv ok fr, of "as_page_table s"] True fr v(1) by simp
  next
    case False
    then have "as_map x hhdm a sz ReservedVma flags (s, pm) = Some (Inl Overlap, s, pm)"
      using ov True al by (simp add: as_map_def v(1)[symmetric])
    then show ?thesis using inv False True by auto
  qed
qed

definition no_memory :: PhysMem where
  "no_memory = \<lparr>pm_zones = zm_new, pm_sparse = sparse_empty\<rparr>"

definition demo_space :: "flat_pt AddrSpace" where
  "demo_space = \<lparr>as_vmas = [(0x2000, \<lparr>vma_vaddr = 0x2000, vma_size = 0x1000, vma_flags = MAP_WRITE, vma_backing = ReservedVma\<rparr>)],
     as_page_table = (\<lambda>_. None)\<rparr>"

lemma demo_space_areas:
  "areas demo_space = [0x2000 \<mapsto> \<lparr>vma_vaddr = 0x2000, vma_size = 0x1000, vma_flags = MAP_WRITE, vma_backing = ReservedVma\<rparr>]"
  by (auto simp: areas_def demo_space_def bt_get_def)

lemma demo_space_inv: "as_inv demo_space"
  by (auto simp: as_inv_def demo_space_areas vma_ok_def valid_range_def canonical_def split: if_splits)
    (simp add: demo_space_def bt_ok_Cons)

theorem reserve_area_exact_witness:
  "\<exists>s'. as_map flat_x86 0 0x5000 0x2000 ReservedVma MAP_READ (demo_space, no_memory) = Some (Inr (), s', no_memory)
     \<and> as_inv s' \<and> dom (areas s') = {0x2000, 0x5000}"
proof -
  let ?v = "\<lparr>vma_vaddr = 0x5000, vma_size = 0x2000, vma_flags = MAP_READ, vma_backing = ReservedVma\<rparr>"
  have "valid_range ?v" by (simp add: valid_range_def canonical_def)
  moreover have "free_range demo_space ?v" by (auto simp: free_range_def demo_space_areas vma_range_def split: if_splits)
  ultimately show ?thesis
    using reserve_area_exact[OF flat_x86_doc demo_space_inv _ refl, of "0x2000" "0x5000" MAP_READ 0 no_memory] demo_space_areas by auto
qed

text \<open>
  C29. Looking up an address never panics and returns the area that holds it, or nothing when no
  area does. Every area that the map holds is found at each of its addresses.
\<close>

theorem find_exact:
  assumes "x86_addr_doc x" "as_inv s"
  shows "\<exists>r. as_find x s a = Some r \<and> (\<forall>v. r = Some v \<longleftrightarrow> (\<exists>k. areas s k = Some v) \<and> a \<in> vma_range v)"
  using as_find_ok[OF assms] .

theorem find_exact_witness:
  "as_find flat_x86 demo_space 0x2fff = Some (areas demo_space 0x2000) \<and> as_find flat_x86 demo_space 0x3000 = Some None"
proof
  obtain r where r: "as_find flat_x86 demo_space 0x2fff = Some r"
      "\<And>v. r = Some v \<longleftrightarrow> (\<exists>k. areas demo_space k = Some v) \<and> 0x2fff \<in> vma_range v"
    using find_exact[OF flat_x86_addr demo_space_inv, of "0x2fff"] by blast
  have "areas demo_space 0x2000 = Some \<lparr>vma_vaddr = 0x2000, vma_size = 0x1000, vma_flags = MAP_WRITE, vma_backing = ReservedVma\<rparr>"
    by (simp add: demo_space_areas)
  moreover have "r = Some \<lparr>vma_vaddr = 0x2000, vma_size = 0x1000, vma_flags = MAP_WRITE, vma_backing = ReservedVma\<rparr>"
    unfolding r(2) using calculation by (auto simp: vma_range_def)
  ultimately show "as_find flat_x86 demo_space 0x2fff = Some (areas demo_space 0x2000)" using r(1) by simp
next
  obtain r where r: "as_find flat_x86 demo_space 0x3000 = Some r"
      "\<And>v. r = Some v \<longleftrightarrow> (\<exists>k. areas demo_space k = Some v) \<and> 0x3000 \<in> vma_range v"
    using find_exact[OF flat_x86_addr demo_space_inv, of "0x3000"] by blast
  have "r \<noteq> Some v" for v unfolding r(2) by (auto simp: demo_space_areas vma_range_def split: if_splits)
  then show "as_find flat_x86 demo_space 0x3000 = Some None" using r(1) by (cases r) auto
qed

text \<open>
  C30. Mapping an area onto physical memory and unmapping it again is the identity. While the area
  is mapped, each of its pages translates to the page at the same offset of the physical block with
  the flags of the area, and every other page translates as before; after the unmapping both the
  areas and the translation are what they were.
\<close>

theorem map_unmap_roundtrip:
  assumes doc: "pt_doc x tr" and inv: "as_inv s" and sz: "0 < sz" and phys: "phys mod PAGE_SIZE = 0"
    and v: "v = \<lparr>vma_vaddr = a, vma_size = sz, vma_flags = flags, vma_backing = Physical phys\<rparr>" "valid_range v"
    and map: "as_map x hhdm a sz (Physical phys) flags (s, pm) = Some (Inr (), s1, pm1)"
  shows "tr (as_page_table s1) = with_pages a (sz div PAGE_SIZE) (\<lambda>i. Some (phys + i * PAGE_SIZE, to_page_table_flags flags)) (tr (as_page_table s))
     \<and> (\<exists>s2. as_unmap x a s1 = Some (Inr (), s2) \<and> areas s2 = areas s \<and> tr (as_page_table s2) = tr (as_page_table s))"
proof -
  let ?n = "sz div PAGE_SIZE"
  have ad: "x86_addr_doc x" using doc by (rule pt_docD)
  have al: "a mod PAGE_SIZE = 0" "sz mod PAGE_SIZE = 0" and ov: "find_overlapping x s v = Some None"
    and m: "map_in_page_table x hhdm v (as_page_table s, pm) = Some (Inr (), as_page_table s1, pm1)"
    and s1: "s1 = s\<lparr>as_page_table := as_page_table s1, as_vmas := bt_insert a v (as_vmas s)\<rparr>"
    using map pt_docD(5)[OF doc, of a] by (auto simp: as_map_def v(1)[symmetric] split: if_splits Option.bind_splits sum.splits option.splits)
  have fr: "free_range s v" and ok: "vma_ok v"
    using find_overlapping_ok[OF ad inv, of v] ov v sz al by (auto simp: valid_range_def vma_ok_def)
  have ok': "bt_ok (as_vmas s)" using inv by (simp add: as_inv_def)
  have new: "areas s a = None"
  proof (rule ccontr)
    assume "areas s a \<noteq> None"
    then obtain w where w: "areas s a = Some w" by blast
    note wd = as_invD[OF inv w]
    have "vma_range w \<inter> vma_range v \<noteq> {}" using ranges_meet[OF wd(3)] wd(1,3) sz v(1) by simp
    then show False using fr w by (auto simp: free_range_def)
  qed
  have pg: "vma_page x v i = Some (a + i * PAGE_SIZE)" if "i < ?n" for i using vma_page_ok[OF ad v(2)] that v(1) by simp
  have "try_loop (\<lambda>i st. do { va \<leftarrow> vma_page x v i; pa \<leftarrow> phys_page x phys i;
      map_single_page x hhdm va pa (to_page_table_flags flags) st }) [0..<?n] (as_page_table s, pm) = Some (Inr (), as_page_table s1, pm1)"
    using m v(1) by (simp add: map_in_page_table_def Let_def)
  then have tr1: "(\<forall>i < ?n. tr (as_page_table s) (a + i * PAGE_SIZE) = None) \<and>
      tr (as_page_table s1) = with_pages a ?n (\<lambda>i. Some (phys + i * PAGE_SIZE, to_page_table_flags flags)) (tr (as_page_table s))"
    by (rule map_loop_tr[OF doc al(1) phys to_page_table_flags_present, rotated])
      (use pg ad in \<open>auto simp: phys_page_def x86_addr_doc_def checked_Some split: Option.bind_splits if_splits\<close>)
  have get: "bt_get (as_vmas s1) a = Some v" using bt.lookup_put[OF ok', of a v] by (subst s1) simp
  have mapped: "\<forall>i < ?n. tr (as_page_table s1) (a + i * PAGE_SIZE) \<noteq> None" using tr1 by (simp add: with_pages_def)
  obtain pt2 where u: "try_loop (\<lambda>i pt. do { va \<leftarrow> vma_page x v i; let (r, pt') = unmap_single_page x va pt;
        Some (case r of Inl e \<Rightarrow> Inl (PageTableError e) | Inr _ \<Rightarrow> Inr (), pt') }) [0..<?n] (as_page_table s1) = Some (Inr (), pt2)"
      "tr pt2 = with_pages a ?n (\<lambda>_. None) (tr (as_page_table s1))"
    using unmap_loop_tr[OF doc al(1) _ mapped, of "\<lambda>i pt. do { va \<leftarrow> vma_page x v i; let (r, pt') = unmap_single_page x va pt;
        Some (case r of Inl e \<Rightarrow> Inl (PageTableError e) | Inr _ \<Rightarrow> Inr (), pt') }" PageTableError] pg by auto
  let ?s2 = "s1\<lparr>as_vmas := bt_remove a (as_vmas s1), as_page_table := pt2\<rparr>"
  have "as_unmap x a s1 = Some (Inr (), ?s2)" using get u(1) v(1) by (simp add: as_unmap_def Let_def)
  moreover have "areas ?s2 = areas s"
    using bt.del_put[OF ok', of a v] new by (subst s1) (simp add: areas_def)
  moreover have "tr pt2 = tr (as_page_table s)" unfolding u(2) using tr1 with_pages_undo by metis
  ultimately show ?thesis using tr1 by auto
qed

theorem map_unmap_roundtrip_witness:
  "\<exists>s1. as_map flat_x86 0 0x5000 0x2000 (Physical 0x9000) MAP_WRITE (demo_space, no_memory) = Some (Inr (), s1, no_memory)
     \<and> as_page_table s1 0x6000 = Some (0xa000, {PRESENT, WRITABLE, NO_EXECUTE})
     \<and> (\<exists>s2. as_unmap flat_x86 0x5000 s1 = Some (Inr (), s2) \<and> areas s2 = areas demo_space \<and> as_page_table s2 = (\<lambda>_. None))"
proof -
  let ?v = "\<lparr>vma_vaddr = 0x5000, vma_size = 0x2000, vma_flags = MAP_WRITE, vma_backing = Physical 0x9000\<rparr>"
  let ?pt = "[0x5000 \<mapsto> (0x9000, to_page_table_flags MAP_WRITE), 0x6000 \<mapsto> (0xa000, to_page_table_flags MAP_WRITE)]"
  have vr: "valid_range ?v" by (simp add: valid_range_def canonical_def)
  have fr: "free_range demo_space ?v" by (auto simp: free_range_def demo_space_areas vma_range_def split: if_splits)
  have "find_overlapping flat_x86 demo_space ?v = Some None"
    using find_overlapping_ok[OF flat_x86_addr demo_space_inv, of ?v] fr by (simp add: canonical_def)
  moreover have "map_in_page_table flat_x86 0 ?v ((\<lambda>_. None), no_memory) = Some (Inr (), ?pt, no_memory)"
    by (simp add: map_in_page_table_def vma_page_def phys_page_def map_single_page_def flat_x86_def canonical_def upt_rec map_err_def USIZE_MAX_def)
  moreover have "as_page_table demo_space = (\<lambda>_. None)" "va_is_aligned flat_x86 0x5000 PAGE_SIZE"
    by (simp_all add: demo_space_def flat_x86_def)
  ultimately have m: "as_map flat_x86 0 0x5000 0x2000 (Physical 0x9000) MAP_WRITE (demo_space, no_memory)
      = Some (Inr (), demo_space\<lparr>as_page_table := ?pt, as_vmas := bt_insert 0x5000 ?v (as_vmas demo_space)\<rparr>, no_memory)"
    unfolding as_map_def by simp
  have "\<exists>s2. as_unmap flat_x86 0x5000 (demo_space\<lparr>as_page_table := ?pt, as_vmas := bt_insert 0x5000 ?v (as_vmas demo_space)\<rparr>) = Some (Inr (), s2)
      \<and> areas s2 = areas demo_space \<and> as_page_table s2 = as_page_table demo_space"
    by (rule map_unmap_roundtrip[OF flat_x86_pt_doc demo_space_inv _ _ refl vr m, THEN conjunct2]) simp_all
  moreover have "to_page_table_flags MAP_WRITE = {PRESENT, WRITABLE, NO_EXECUTE}" by code_simp
  moreover have "as_page_table demo_space = (\<lambda>_. None)" by (simp add: demo_space_def)
  ultimately show ?thesis using m by simp
qed

text \<open>
  C31. A request of size 0 at the start of an existing area is accepted and replaces the area by an
  empty one. The overlap test stops below the start, because the empty range ends there. After the
  call the addresses of the old area are found in no area, while its pages are still in the page table.
\<close>

theorem empty_map_drops_area:
  assumes x: "x86_doc x" and inv: "as_inv s" and a: "areas s a = Some v"
  shows "\<exists>s'. as_map x hhdm a 0 ReservedVma flags (s, pm) = Some (Inr (), s', pm)
     \<and> as_page_table s' = as_page_table s
     \<and> (\<forall>b \<in> vma_range v. as_find x s b = Some (Some v) \<and> as_find x s' b = Some None)"
proof -
  let ?n = "\<lparr>vma_vaddr = a, vma_size = 0, vma_flags = flags, vma_backing = ReservedVma\<rparr>"
  let ?s = "s\<lparr>as_vmas := bt_insert a ?n (as_vmas s)\<rparr>"
  note vd = as_invD[OF inv a]
  have ad: "x86_addr_doc x" using x by (simp add: x86_doc_def)
  have ok: "bt_ok (as_vmas s)" using inv by (simp add: as_inv_def)
  have can: "canonical a" "a mod PAGE_SIZE = 0" using vd(1,2) by (auto simp: vma_ok_def valid_range_def)
  have ar: "areas ?s = (areas s)(a \<mapsto> ?n)" using bt.lookup_put[OF ok] by (simp add: areas_def)
  have e: "vma_end x ?n = Some a" using vma_end_ok[OF ad, of ?n] can by simp
  have "find_overlapping x s ?n = Some None"
  proof (cases "bt_last_below a (as_vmas s)")
    case None
    then show ?thesis using e by (simp add: find_overlapping_def filter_last_def)
  next
    case (Some kw)
    obtain k w where kw: "kw = (k, w)" by force
    have w: "areas s k = Some w" "k < a" using bt_last_below_get[OF ok, of a] Some kw by (auto simp: areas_def)
    note wd = as_invD[OF inv w(1)]
    have "vma_end x w = Some (k + vma_size w)" using vma_end_ok[OF ad, of w] wd(1,2) by (simp add: vma_ok_def valid_range_def)
    then show ?thesis using e Some kw w(2) wd(1) wd(4)[OF a w(2)]
      by (simp add: find_overlapping_def filter_last_def vma_overlaps_def)
  qed
  then have run: "as_map x hhdm a 0 ReservedVma flags (s, pm) = Some (Inr (), ?s, pm)"
    using x can by (simp add: as_map_def map_in_page_table_def x86_doc_def)
  have ok': "bt_ok (as_vmas ?s)" using bt_ok_insert[OF ok] by simp
  have "as_find x s b = Some (Some v) \<and> as_find x ?s b = Some None" if b: "b \<in> vma_range v" for b
  proof
    obtain r where r: "as_find x s b = Some r" "\<forall>v. r = Some v \<longleftrightarrow> (\<exists>k. areas s k = Some v) \<and> b \<in> vma_range v"
      using as_find_ok[OF ad inv, of b] by blast
    then have "r = Some v" using a b by metis
    then show "as_find x s b = Some (Some v)" using r(1) by simp
    have ab: "a \<le> b" "b < a + vma_size v" using b vd(1) by (auto simp: vma_range_def)
    have an: "bt_get (as_vmas ?s) a = Some ?n" using ar by (simp add: areas_def)
    obtain k w where kw: "bt_last_upto b (as_vmas ?s) = Some (k, w)" and k: "areas ?s k = Some w" "k \<le> b" "a \<le> k"
    proof (cases "bt_last_upto b (as_vmas ?s)")
      case None
      then have "b < a" using bt_last_upto_get[OF ok', of b] an unfolding None option.case by blast
      then show thesis using ab(1) by simp
    next
      case (Some kw)
      then show thesis using that[of "fst kw" "snd kw"] bt_last_upto_get[OF ok', of b] an ab(1)
        unfolding Some option.case areas_def by (cases kw) auto
    qed
    have "k = a"
    proof (rule ccontr)
      assume "k \<noteq> a"
      then have "a + vma_size v \<le> k" using k ar vd(4)[of k w] by simp
      then show False using k(2) ab(2) by simp
    qed
    then have "w = ?n" using k(1) ar by simp
    then show "as_find x ?s b = Some None" using kw e ab(1) by (simp add: as_find_def filter_last_def vma_contains_def)
  qed
  then show ?thesis using run by auto
qed

theorem empty_map_drops_area_witness:
  "\<exists>s'. as_map flat_x86 0 0x2000 0 ReservedVma MAP_READ (demo_space, no_memory) = Some (Inr (), s', no_memory)
     \<and> as_find flat_x86 s' 0x2800 = Some None"
proof -
  have "areas demo_space 0x2000 = Some \<lparr>vma_vaddr = 0x2000, vma_size = 0x1000, vma_flags = MAP_WRITE, vma_backing = ReservedVma\<rparr>"
    by (simp add: demo_space_areas)
  from empty_map_drops_area[OF flat_x86_doc demo_space_inv this, of 0 MAP_READ no_memory]
  show ?thesis by (auto simp: vma_range_def)
qed

text \<open>
  C32. Changing the protection of an area that is backed on demand changes the flags of the area
  and nothing in the page table, so that a page which a fault has mapped before keeps its old
  flags; only pages that are faulted in later get the new ones.
\<close>

theorem protect_reserved_keeps_pages:
  assumes x: "x86_addr_doc x" and inv: "as_inv s" and a: "areas s a = Some v" and v: "vma_backing v = ReservedVma"
  shows "\<exists>s'. as_protect x hhdm a flags (s, pm) = Some (Inr (), s', pm) \<and> as_page_table s' = as_page_table s
     \<and> areas s' = (areas s)(a \<mapsto> v\<lparr>vma_flags := flags\<rparr>)"
proof -
  have ok: "bt_ok (as_vmas s)" using inv by (simp add: as_inv_def)
  have vr: "valid_range v" using as_invD(2)[OF inv a] by (simp add: vma_ok_def)
  have "try_loop (\<lambda>i st. do { va \<leftarrow> vma_page x v i; Some (Inr (), st) }) [0..<vma_size v div PAGE_SIZE] (as_page_table s, pm)
      = Some (Inr () :: VmaError + unit, as_page_table s, pm)"
    by (rule try_loop_skip) (use vma_page_ok[OF x vr] in simp)
  then have "as_protect x hhdm a flags (s, pm)
      = Some (Inr (), s\<lparr>as_page_table := as_page_table s, as_vmas := bt_insert a (v\<lparr>vma_flags := flags\<rparr>) (as_vmas s)\<rparr>, pm)"
    using a v by (simp add: as_protect_def areas_def Let_def)
  moreover have "areas (s\<lparr>as_page_table := as_page_table s, as_vmas := bt_insert a (v\<lparr>vma_flags := flags\<rparr>) (as_vmas s)\<rparr>)
      = (areas s)(a \<mapsto> v\<lparr>vma_flags := flags\<rparr>)"
    using bt.lookup_put[OF ok] by (simp add: areas_def)
  ultimately show ?thesis by auto
qed

theorem protect_reserved_keeps_pages_witness:
  "\<exists>s'. as_protect flat_x86 0 0x2000 MAP_READ (demo_space\<lparr>as_page_table := [0x2000 \<mapsto> (0x9000, {PRESENT, WRITABLE})]\<rparr>, no_memory)
       = Some (Inr (), s', no_memory)
     \<and> as_page_table s' 0x2000 = Some (0x9000, {PRESENT, WRITABLE}) \<and> WRITABLE \<notin> to_page_table_flags MAP_READ"
proof -
  let ?s = "demo_space\<lparr>as_page_table := [0x2000 \<mapsto> (0x9000, {PRESENT, WRITABLE})]\<rparr>"
  have ar: "areas ?s = areas demo_space" by (simp add: areas_def)
  have inv: "as_inv ?s" using demo_space_inv by (simp add: as_inv_def ar)
  have a: "areas ?s 0x2000 = Some \<lparr>vma_vaddr = 0x2000, vma_size = 0x1000, vma_flags = MAP_WRITE, vma_backing = ReservedVma\<rparr>"
    by (simp add: ar demo_space_areas)
  have "WRITABLE \<notin> to_page_table_flags MAP_READ" by code_simp
  then show ?thesis using protect_reserved_keeps_pages[OF flat_x86_addr inv a, of 0 MAP_READ no_memory] by auto
qed

end
