(* ===== verification/Kernel_Va.thy ===== *)
theory Kernel_Va
  imports Addr_Space
begin

text \<open>
  The two users of kernel virtual address ranges: \<open>memory/vmm/v_allocator.rs\<close>, a first-fit
  allocator of mapped ranges, and \<open>scheduler/stack.rs\<close>, the kernel stacks with their guard pages.
\<close>

subsection \<open>Definitions of the range allocator\<close>

record VmallocRegion =
  vr_base :: VirtAddr
  vr_size :: usize
  vr_pages :: "PhysAddr list"

record VmallocManager =
  vm_regions :: "(VirtAddr, VmallocRegion) btree"

definition VMALLOC :: VmallocManager where "VMALLOC = \<lparr>vm_regions = []\<rparr>"

definition VMALLOC_START :: VirtAddr where "VMALLOC_START = 0xffffffffc0000000"
definition VMALLOC_END :: VirtAddr where "VMALLOC_END = 0xfffffffff0000000"

text \<open>The loop over the regions, in the order of their addresses.\<close>

fun find_free_from :: "'a X86Addr_scheme \<Rightarrow> usize \<Rightarrow> VmallocRegion list \<Rightarrow> VirtAddr \<Rightarrow> VirtAddr option option" where
  "find_free_from x sz [] cursor = do {
     e \<leftarrow> u_add cursor sz;
     Some (if e \<le> VMALLOC_END then Some cursor else None)
   }"
| "find_free_from x sz (region # rs) cursor = do {
     e \<leftarrow> u_add cursor sz;
     if e \<le> vr_base region then Some (Some cursor)
     else do {
       region_end \<leftarrow> u_add (vr_base region) (vr_size region);
       cursor' \<leftarrow> va_new x region_end;
       find_free_from x sz rs cursor'
     }
   }"

definition find_free_range :: "'a X86Addr_scheme \<Rightarrow> VmallocManager \<Rightarrow> usize \<Rightarrow> VirtAddr option option" where
  "find_free_range x vm sz = find_free_from x sz (bt_values (vm_regions vm)) VMALLOC_START"

text \<open>
  The loop that backs the range with pages. The inner \<open>None\<close> is the early return of \<open>vmalloc\<close>
  when no page is left.
\<close>

fun vmalloc_pages ::
  "('pt, 'z) X86_scheme \<Rightarrow> usize \<Rightarrow> VirtAddr \<Rightarrow> usize list \<Rightarrow> 'pt \<times> PhysMem \<Rightarrow> (PhysAddr list option \<times> 'pt \<times> PhysMem) option" where
  "vmalloc_pages x hhdm base [] st = Some (Some [], st)"
| "vmalloc_pages x hhdm base (off # offs) st = do {
     (r, pm) \<leftarrow> alloc_pages_by_order x hhdm 0 (PALLOC_ZEROED OR PALLOC_KERNEL) (snd st);
     case r of
       None \<Rightarrow> Some (None, fst st, pm)
     | Some phys \<Rightarrow> do {
         va \<leftarrow> va_add x base off;
         st1 \<leftarrow> kmap_page x hhdm va phys {PRESENT, WRITABLE, NO_EXECUTE, NO_CACHE} (fst st, pm);
         (ps, st2) \<leftarrow> vmalloc_pages x hhdm base offs st1;
         Some (map_option ((#) phys) ps, st2)
       }
   }"

definition vmalloc ::
  "('pt, 'z) X86_scheme \<Rightarrow> usize \<Rightarrow> usize \<Rightarrow> VmallocManager \<times> 'pt \<times> PhysMem
     \<Rightarrow> (VirtAddr option \<times> VmallocManager \<times> 'pt \<times> PhysMem) option" where
  "vmalloc x hhdm sz = (\<lambda>(vm, st). do {
     sz' \<leftarrow> align_up sz PAGE_SIZE;
     r \<leftarrow> find_free_range x vm sz';
     case r of
       None \<Rightarrow> Some (None, vm, st)
     | Some base \<Rightarrow> do {
         (ps, st') \<leftarrow> vmalloc_pages x hhdm base (map (\<lambda>i. i * PAGE_SIZE) [0..<sz' div PAGE_SIZE]) st;
         case ps of
           None \<Rightarrow> Some (None, vm, st')
         | Some pages \<Rightarrow>
             Some (Some base, vm\<lparr>vm_regions := bt_insert base \<lparr>vr_base = base, vr_size = sz', vr_pages = pages\<rparr> (vm_regions vm)\<rparr>, st')
       }
   })"

definition vfree ::
  "('pt, 'z) X86_scheme \<Rightarrow> VirtAddr \<Rightarrow> VmallocManager \<times> 'pt \<times> PhysMem \<Rightarrow> (VmallocManager \<times> 'pt \<times> PhysMem) option" where
  "vfree x p = (\<lambda>(vm, pt, pm). do {
     region \<leftarrow> bt_get (vm_regions vm) p;
     (pt', pm') \<leftarrow> for_each (\<lambda>(i, phys) (pt, pm). do {
         off \<leftarrow> u_mul i PAGE_SIZE;
         virt \<leftarrow> va_add x (vr_base region) off;
         pt1 \<leftarrow> kunmap_page x virt pt;
         pm1 \<leftarrow> free_pages phys pm;
         Some (pt1, pm1)
       }) (List.enumerate 0 (vr_pages region)) (pt, pm);
     Some (vm\<lparr>vm_regions := bt_remove p (vm_regions vm)\<rparr>, pt', pm')
   })"

subsection \<open>Definitions of the kernel stacks\<close>

definition DEFAULT_KERNEL_STACK_SIZE :: usize where "DEFAULT_KERNEL_STACK_SIZE = 16 * PAGE_SIZE"
definition KERNEL_STACKS_VA_BASE :: usize where "KERNEL_STACKS_VA_BASE = 0xFFFFC00000000000"
definition KERNEL_STACKS_VA_SIZE :: usize where "KERNEL_STACKS_VA_SIZE = 256 * 1024 * 1024 * 1024"

text \<open>The state is the counter \<open>STACK_VA_BUMP\<close>, whose \<open>fetch_add\<close> wraps around.\<close>

definition reserve_stack_va :: "'a X86Addr_scheme \<Rightarrow> usize \<Rightarrow> usize \<Rightarrow> (VirtAddr \<times> usize) option" where
  "reserve_stack_va x pages bump = do {
     sz \<leftarrow> u_mul pages PAGE_SIZE;
     let base = bump;
     let bump' = (bump + sz) mod 2 ^ 64;
     e \<leftarrow> u_add base sz;
     lim \<leftarrow> u_add KERNEL_STACKS_VA_BASE KERNEL_STACKS_VA_SIZE;
     rassert (e \<le> lim);
     va \<leftarrow> va_new x base;
     Some (va, bump')
   }"

record KernelStack =
  ks_bottom :: VirtAddr
  ks_top :: VirtAddr
  ks_pages :: "PhysAddr list"

text \<open>Subtracting from a \<open>VirtAddr\<close> panics below 0 and when the result is not canonical.\<close>

definition guard_page_va :: "'a X86Addr_scheme \<Rightarrow> KernelStack \<Rightarrow> VirtAddr option" where
  "guard_page_va x k = do {
     a \<leftarrow> u_sub (ks_bottom k) PAGE_SIZE;
     va_new x a
   }"

fun stack_pages :: "('pt, 'z) X86_scheme \<Rightarrow> usize \<Rightarrow> nat \<Rightarrow> PhysMem \<Rightarrow> (PhysAddr list \<times> PhysMem) option" where
  "stack_pages x hhdm 0 pm = Some ([], pm)"
| "stack_pages x hhdm (Suc n) pm = do {
     (r, pm1) \<leftarrow> alloc_pages_by_order x hhdm 0 (PALLOC_KERNEL OR PALLOC_ZEROED) pm;
     phys \<leftarrow> r;
     (ps, pm2) \<leftarrow> stack_pages x hhdm n pm1;
     Some (phys # ps, pm2)
   }"

text \<open>Both clean-ups of \<open>allocate_kernel_stack\<close> end in a panic.\<close>

definition allocate_kernel_stack ::
  "('pt, 'z) X86_scheme \<Rightarrow> usize \<Rightarrow> usize \<Rightarrow> usize \<times> 'pt \<times> PhysMem \<Rightarrow> (KernelStack \<times> usize \<times> 'pt \<times> PhysMem) option" where
  "allocate_kernel_stack x hhdm sz = (\<lambda>(bump, pt, pm). do {
     rassert (sz > 0 \<and> sz mod PAGE_SIZE = 0);
     let page_count = sz div PAGE_SIZE;
     (phys_pages, pm1) \<leftarrow> stack_pages x hhdm page_count pm;
     n \<leftarrow> u_add 1 page_count;
     (va_base, bump') \<leftarrow> reserve_stack_va x n bump;
     stack_va \<leftarrow> va_add x va_base PAGE_SIZE;
     let flags = {PRESENT, WRITABLE, NO_EXECUTE};
     st \<leftarrow> for_each (\<lambda>(i, phys) st. do {
         off \<leftarrow> u_mul i PAGE_SIZE;
         virt \<leftarrow> va_add x stack_va off;
         (r, st') \<leftarrow> map_single_page x hhdm virt phys flags st;
         _ \<leftarrow> expect_ok r;
         Some st'
       }) (List.enumerate 0 phys_pages) (pt, pm1);
     top \<leftarrow> va_add x stack_va sz;
     Some (\<lparr>ks_bottom = stack_va, ks_top = top, ks_pages = phys_pages\<rparr>, bump', st)
   })"

definition deallocate_kernel_stack ::
  "('pt, 'z) X86_scheme \<Rightarrow> KernelStack \<Rightarrow> 'pt \<times> PhysMem \<Rightarrow> ('pt \<times> PhysMem) option" where
  "deallocate_kernel_stack x k =
     for_each (\<lambda>(i, phys) (pt, pm). do {
         off \<leftarrow> u_mul i PAGE_SIZE;
         virt \<leftarrow> va_add x (ks_bottom k) off;
         let (r, pt') = unmap_single_page x virt pt;
         _ \<leftarrow> expect_ok r;
         pm' \<leftarrow> free_pages phys pm;
         Some (pt', pm')
       }) (List.enumerate 0 (ks_pages k))"

end
