(* ===== verification/Object_Table.thy ===== *)
theory Object_Table
  imports Anvil_Prelude
begin

text \<open>
  \<open>ipc/object_table.rs\<close>: the table of kernel objects. A handle is an index and the generation of
  the slot at the time of insertion; removal advances the generation, so that a stale handle does
  not reach the next object of the slot. The global table behind a lock is passed explicitly.
\<close>

subsection \<open>Definitions\<close>

type_synonym TaskIdIndex = u32

datatype KernelObjType = VSpace | Endpoint | Frame | Thread | Irq | CNode

datatype ObjData = VSpaceData TaskIdIndex | EndpointData TaskIdIndex | CNodeData TaskIdIndex | ThreadData TaskIdIndex

record KernelObject =
  obj_type :: KernelObjType
  refcount :: u32
  obj_data :: ObjData

definition object_new :: "KernelObjType \<Rightarrow> ObjData \<Rightarrow> KernelObject" where
  "object_new t d = \<lparr>obj_type = t, refcount = 1, obj_data = d\<rparr>"

text \<open>The atomic counter operations wrap; both return the value read before the update.\<close>

definition inc_ref :: "KernelObject \<Rightarrow> u32 \<times> KernelObject" where
  "inc_ref k = (refcount k, k\<lparr>refcount := refcount k + 1\<rparr>)"

definition dec_ref :: "KernelObject \<Rightarrow> bool \<times> KernelObject" where
  "dec_ref k = (refcount k = 1, k\<lparr>refcount := refcount k - 1\<rparr>)"

definition MAX_OBJECTS :: usize where "MAX_OBJECTS = 4096"

type_synonym ObjHandle = u32

record Slot =
  slot_generation :: u32
  slot_obj :: "KernelObject option"

record ObjectTable =
  ot_slots :: "Slot list"
  ot_free_head :: usize

record HandleRef =
  h_index :: u16
  h_generation :: u32

definition ot_new :: ObjectTable where
  "ot_new = \<lparr>ot_slots = replicate MAX_OBJECTS \<lparr>slot_generation = 0, slot_obj = None\<rparr>, ot_free_head = 0\<rparr>"

text \<open>The loop of \<open>insert\<close> over the indices that are left.\<close>

fun insert_from :: "usize list \<Rightarrow> KernelObject \<Rightarrow> ObjectTable \<Rightarrow> ((unit + HandleRef) \<times> ObjectTable) option" where
  "insert_from [] k t = Some (Inl (), t)"
| "insert_from (i # is) k t = do {
     s \<leftarrow> arr_get (ot_slots t) i;
     if slot_obj s = None then do {
       slots \<leftarrow> arr_set (ot_slots t) i (s\<lparr>slot_obj := Some k\<rparr>);
       fh \<leftarrow> u_add i 1;
       Some (Inr \<lparr>h_index = of_nat i, h_generation = slot_generation s\<rparr>, t\<lparr>ot_slots := slots, ot_free_head := fh\<rparr>)
     }
     else insert_from is k t
   }"

definition ot_insert :: "KernelObject \<Rightarrow> ObjectTable \<Rightarrow> ((unit + HandleRef) \<times> ObjectTable) option" where
  "ot_insert k t = insert_from [ot_free_head t..<MAX_OBJECTS] k t"

definition ot_get :: "ObjectTable \<Rightarrow> HandleRef \<Rightarrow> KernelObject option option" where
  "ot_get t h = do {
     s \<leftarrow> arr_get (ot_slots t) (unat (h_index h));
     Some (if slot_generation s = h_generation h then slot_obj s else None)
   }"

text \<open>\<open>get_mut\<close> and the update its caller does through the reference.\<close>

definition ot_update :: "HandleRef \<Rightarrow> (KernelObject \<Rightarrow> 'r \<times> KernelObject) \<Rightarrow> ObjectTable \<Rightarrow> ('r option \<times> ObjectTable) option" where
  "ot_update h f t = do {
     s \<leftarrow> arr_get (ot_slots t) (unat (h_index h));
     if slot_generation s = h_generation h then
       (case slot_obj s of
          None \<Rightarrow> Some (None, t)
        | Some k \<Rightarrow> do {
            slots \<leftarrow> arr_set (ot_slots t) (unat (h_index h)) (s\<lparr>slot_obj := Some (snd (f k))\<rparr>);
            Some (Some (fst (f k)), t\<lparr>ot_slots := slots\<rparr>)
          })
     else Some (None, t)
   }"

definition ot_remove :: "HandleRef \<Rightarrow> ObjectTable \<Rightarrow> (KernelObject option \<times> ObjectTable) option" where
  "ot_remove h t = do {
     s \<leftarrow> arr_get (ot_slots t) (unat (h_index h));
     if slot_generation s = h_generation h \<and> slot_obj s \<noteq> None then do {
       let fh = (if unat (h_index h) \<le> ot_free_head t then unat (h_index h) else ot_free_head t);
       slots \<leftarrow> arr_set (ot_slots t) (unat (h_index h)) \<lparr>slot_generation = slot_generation s + 1, slot_obj = None\<rparr>;
       Some (slot_obj s, t\<lparr>ot_slots := slots, ot_free_head := fh\<rparr>)
     }
     else Some (None, t)
   }"

text \<open>The functions over the global table.\<close>

definition obj_insert :: "KernelObject \<Rightarrow> ObjectTable \<Rightarrow> ((unit + HandleRef) \<times> ObjectTable) option" where
  "obj_insert k t = ot_insert k t"

definition with_object :: "ObjectTable \<Rightarrow> HandleRef \<Rightarrow> (KernelObject \<Rightarrow> 'r) \<Rightarrow> 'r option option" where
  "with_object t h f = map_option (map_option f) (ot_get t h)"

definition with_object_mut :: "HandleRef \<Rightarrow> (KernelObject \<Rightarrow> 'r \<times> KernelObject) \<Rightarrow> ObjectTable \<Rightarrow> ('r option \<times> ObjectTable) option" where
  "with_object_mut h f t = ot_update h f t"

subsection \<open>The table as a map from handles to objects\<close>

definition in_bounds :: "HandleRef \<Rightarrow> bool" where
  "in_bounds h \<longleftrightarrow> unat (h_index h) < MAX_OBJECTS"

definition objects :: "ObjectTable \<Rightarrow> HandleRef \<Rightarrow> KernelObject option" where
  "objects t h = (if in_bounds h \<and> slot_generation (ot_slots t ! unat (h_index h)) = h_generation h
     then slot_obj (ot_slots t ! unat (h_index h)) else None)"

text \<open>The slots below \<open>free_head\<close> are all taken, so that a search from there misses no free slot.\<close>

definition ot_inv :: "ObjectTable \<Rightarrow> bool" where
  "ot_inv t \<longleftrightarrow> length (ot_slots t) = MAX_OBJECTS \<and> (\<forall>i < ot_free_head t. i < MAX_OBJECTS \<longrightarrow> slot_obj (ot_slots t ! i) \<noteq> None)"

definition ot_full :: "ObjectTable \<Rightarrow> bool" where
  "ot_full t \<longleftrightarrow> (\<forall>i < MAX_OBJECTS. slot_obj (ot_slots t ! i) \<noteq> None)"

lemma ot_new_inv: "ot_inv ot_new"
  by (simp add: ot_inv_def ot_new_def)

lemma ot_get_objects: "ot_inv t \<Longrightarrow> ot_get t h = (if in_bounds h then Some (objects t h) else None)"
  by (simp add: ot_get_def ot_inv_def in_bounds_def objects_def arr_get_def)

lemma unat_index [simp]: "i < MAX_OBJECTS \<Longrightarrow> unat (of_nat i :: u16) = i"
  by (simp add: MAX_OBJECTS_def unat_of_nat)

lemma insert_from_cases:
  assumes "length (ot_slots t) = MAX_OBJECTS" "\<forall>i \<in> set is. i < MAX_OBJECTS"
  shows "insert_from is k t = Some (case find (\<lambda>i. slot_obj (ot_slots t ! i) = None) is of
      None \<Rightarrow> (Inl (), t)
    | Some i \<Rightarrow> (Inr \<lparr>h_index = of_nat i, h_generation = slot_generation (ot_slots t ! i)\<rparr>,
        t\<lparr>ot_slots := (ot_slots t)[i := (ot_slots t ! i)\<lparr>slot_obj := Some k\<rparr>], ot_free_head := i + 1\<rparr>))"
  using assms by (induction "is") (auto simp: MAX_OBJECTS_def USIZE_MAX_def)

lemma handle_eqI: "h_index h = h_index g \<Longrightarrow> h_generation h = h_generation g \<Longrightarrow> h = (g :: HandleRef)"
  by simp

lemma objects_fill:
  assumes t: "length (ot_slots t) = MAX_OBJECTS" and i: "i < MAX_OBJECTS" and that: "slot_obj (ot_slots t ! i) = None"
  shows "objects (t\<lparr>ot_slots := (ot_slots t)[i := (ot_slots t ! i)\<lparr>slot_obj := Some k\<rparr>], ot_free_head := n\<rparr>)
     = (objects t)(\<lparr>h_index = of_nat i, h_generation = slot_generation (ot_slots t ! i)\<rparr> \<mapsto> k)"
proof (rule ext)
  fix h :: HandleRef
  let ?g = "\<lparr>h_index = of_nat i, h_generation = slot_generation (ot_slots t ! i)\<rparr>"
  have idx: "h_index h = of_nat i \<longleftrightarrow> unat (h_index h) = i"
    using i by (simp add: word_unat_eq_iff)
  show "objects (t\<lparr>ot_slots := (ot_slots t)[i := (ot_slots t ! i)\<lparr>slot_obj := Some k\<rparr>], ot_free_head := n\<rparr>) h = ((objects t)(?g \<mapsto> k)) h"
  proof (cases "h = ?g")
    case True
    then show ?thesis using i t by (simp add: objects_def in_bounds_def)
  next
    case False
    then have "unat (h_index h) \<noteq> i \<or> h_generation h \<noteq> slot_generation (ot_slots t ! i)"
      using idx handle_eqI[of h ?g] by auto
    then show ?thesis using False that t i by (auto simp: objects_def nth_list_update in_bounds_def)
  qed
qed

lemma ot_insert_ok:
  assumes inv: "ot_inv t"
  shows "if ot_full t then ot_insert k t = Some (Inl (), t)
     else \<exists>h t'. ot_insert k t = Some (Inr h, t') \<and> ot_inv t' \<and> in_bounds h \<and> objects t h = None \<and> objects t' = (objects t)(h \<mapsto> k)
       \<and> (\<forall>i < MAX_OBJECTS. slot_generation (ot_slots t' ! i) = slot_generation (ot_slots t ! i))"
proof -
  have len: "length (ot_slots t) = MAX_OBJECTS" and low: "\<And>i. i < ot_free_head t \<Longrightarrow> i < MAX_OBJECTS \<Longrightarrow> slot_obj (ot_slots t ! i) \<noteq> None"
    using inv by (auto simp: ot_inv_def)
  let ?P = "\<lambda>i. slot_obj (ot_slots t ! i) = None" and ?is = "[ot_free_head t..<MAX_OBJECTS]"
  have ins: "ot_insert k t = Some (case find ?P ?is of None \<Rightarrow> (Inl (), t)
    | Some i \<Rightarrow> (Inr \<lparr>h_index = of_nat i, h_generation = slot_generation (ot_slots t ! i)\<rparr>,
        t\<lparr>ot_slots := (ot_slots t)[i := (ot_slots t ! i)\<lparr>slot_obj := Some k\<rparr>], ot_free_head := i + 1\<rparr>))"
    unfolding ot_insert_def by (rule insert_from_cases[OF len]) simp
  show ?thesis
  proof (cases "find ?P ?is")
    case None
    have "ot_full t" unfolding ot_full_def
    proof (intro allI impI)
      fix i assume i: "i < MAX_OBJECTS"
      show "slot_obj (ot_slots t ! i) \<noteq> None"
        using None i low[of i] by (cases "i < ot_free_head t") (auto simp: find_None_iff)
    qed
    then show ?thesis using ins None by simp
  next
    case (Some i)
    then obtain n where n: "n < length ?is" "?is ! n = i" "slot_obj (ot_slots t ! i) = None" "\<forall>j < n. \<not> ?P (?is ! j)"
      by (auto simp: find_Some_iff)
    have i: "i = ot_free_head t + n" "i < MAX_OBJECTS" using n(1,2) by auto
    have before: "slot_obj (ot_slots t ! j) \<noteq> None" if "j < i" for j
    proof (cases "j < ot_free_head t")
      case True
      then show ?thesis using low that i(2) by simp
    next
      case False
      then have "j - ot_free_head t < n" "?is ! (j - ot_free_head t) = j" using that i by auto
      then show ?thesis using n(4) by metis
    qed
    let ?t = "t\<lparr>ot_slots := (ot_slots t)[i := (ot_slots t ! i)\<lparr>slot_obj := Some k\<rparr>], ot_free_head := i + 1\<rparr>"
    have "ot_inv ?t" using before len i(2) by (auto simp: ot_inv_def nth_list_update less_Suc_eq)
    moreover have "\<not> ot_full t" using n(3) i(2) by (auto simp: ot_full_def)
    ultimately show ?thesis
      using ins Some objects_fill[OF len i(2) n(3)] n(3) i(2) len by (simp add: in_bounds_def objects_def nth_list_update)
  qed
qed

lemma ot_remove_ok:
  assumes inv: "ot_inv t" and h: "in_bounds h"
  shows "\<exists>t'. ot_remove h t = Some (objects t h, t') \<and> ot_inv t' \<and> objects t' = (objects t)(h := None)
     \<and> (\<forall>i < MAX_OBJECTS. slot_generation (ot_slots t' ! i) =
          slot_generation (ot_slots t ! i) + (if i = unat (h_index h) \<and> objects t h \<noteq> None then 1 else 0))"
proof -
  let ?i = "unat (h_index h)" and ?s = "ot_slots t ! unat (h_index h)"
  have len: "length (ot_slots t) = MAX_OBJECTS" and low: "\<And>i. i < ot_free_head t \<Longrightarrow> i < MAX_OBJECTS \<Longrightarrow> slot_obj (ot_slots t ! i) \<noteq> None"
    using inv by (auto simp: ot_inv_def)
  have i: "?i < MAX_OBJECTS" using h by (simp add: in_bounds_def)
  show ?thesis
  proof (cases "slot_generation ?s = h_generation h \<and> slot_obj ?s \<noteq> None")
    case True
    let ?fh = "if ?i \<le> ot_free_head t then ?i else ot_free_head t"
    let ?t = "t\<lparr>ot_slots := (ot_slots t)[?i := \<lparr>slot_generation = slot_generation ?s + 1, slot_obj = None\<rparr>], ot_free_head := ?fh\<rparr>"
    have "ot_remove h t = Some (objects t h, ?t)"
      using True i len h by (auto simp: ot_remove_def objects_def Let_def)
    moreover have "ot_inv ?t" using low len by (auto simp: ot_inv_def nth_list_update)
    moreover have "objects ?t = (objects t)(h := None)"
    proof (rule ext)
      fix g :: HandleRef
      show "objects ?t g = ((objects t)(h := None)) g"
      proof (cases "unat (h_index g) = ?i")
        case True
        then have "h_index g = h_index h" by (simp add: word_unat_eq_iff)
        then show ?thesis
          using \<open>slot_generation ?s = h_generation h \<and> slot_obj ?s \<noteq> None\<close> i len handle_eqI[of g h] by (auto simp: objects_def)
      next
        case False
        then show ?thesis by (auto simp: objects_def)
      qed
    qed
    moreover have "objects t h \<noteq> None" using True h by (simp add: objects_def)
    ultimately show ?thesis using len by (intro exI[of _ ?t]) (auto simp: nth_list_update)
  next
    case False
    then have n: "objects t h = None" by (auto simp: objects_def)
    then have "ot_remove h t = Some (objects t h, t)" using False i len by (auto simp: ot_remove_def)
    then show ?thesis using inv n by (intro exI[of _ t]) (auto simp: fun_eq_iff)
  qed
qed

lemma ot_update_ok:
  assumes inv: "ot_inv t" and h: "in_bounds h"
  shows "\<exists>t'. ot_update h f t = Some (map_option (\<lambda>k. fst (f k)) (objects t h), t') \<and> ot_inv t'
     \<and> objects t' = (objects t)(h := map_option (\<lambda>k. snd (f k)) (objects t h))
     \<and> (\<forall>i < MAX_OBJECTS. slot_generation (ot_slots t' ! i) = slot_generation (ot_slots t ! i))"
proof -
  let ?i = "unat (h_index h)" and ?s = "ot_slots t ! unat (h_index h)"
  have len: "length (ot_slots t) = MAX_OBJECTS" using inv by (simp add: ot_inv_def)
  have i: "?i < MAX_OBJECTS" using h by (simp add: in_bounds_def)
  show ?thesis
  proof (cases "objects t h")
    case None
    then have "ot_update h f t = Some (None, t)" using i len h by (auto simp: ot_update_def objects_def split: option.splits)
    then show ?thesis using None inv by (intro exI[of _ t]) (auto simp: fun_eq_iff)
  next
    case (Some k)
    then have k: "slot_generation ?s = h_generation h" "slot_obj ?s = Some k" by (auto simp: objects_def split: if_splits)
    let ?t = "t\<lparr>ot_slots := (ot_slots t)[?i := ?s\<lparr>slot_obj := Some (snd (f k))\<rparr>]\<rparr>"
    have "ot_update h f t = Some (Some (fst (f k)), ?t)" using k i len by (simp add: ot_update_def)
    moreover have "ot_inv ?t" using inv i by (simp add: ot_inv_def nth_list_update)
    moreover have "objects ?t = (objects t)(h := Some (snd (f k)))"
    proof (rule ext)
      fix g :: HandleRef
      show "objects ?t g = ((objects t)(h := Some (snd (f k)))) g"
      proof (cases "unat (h_index g) = ?i")
        case True
        then have "h_index g = h_index h" by (simp add: word_unat_eq_iff)
        then show ?thesis using k i len h handle_eqI[of g h] by (auto simp: objects_def in_bounds_def)
      next
        case False
        then show ?thesis by (auto simp: objects_def)
      qed
    qed
    ultimately show ?thesis using Some len i by (intro exI[of _ ?t]) (auto simp: nth_list_update)
  qed
qed

subsection \<open>Properties\<close>

lemma ot_out_of_bounds:
  assumes "ot_inv t" "\<not> in_bounds h"
  shows "ot_get t h = None" "ot_remove h t = None" "ot_update h f t = None"
proof -
  have "arr_get (ot_slots t) (unat (h_index h)) = None" using assms by (simp add: arr_get_def in_bounds_def ot_inv_def)
  then show "ot_get t h = None" "ot_remove h t = None" "ot_update h f t = None"
    by (simp_all add: ot_get_def ot_remove_def ot_update_def)
qed

text \<open>C13. The object table refines a partial map from handles to objects. Inserting succeeds exactly when a
slot is free, with a handle that reached no object before and now reaches the new one. For a handle
whose index is a slot of the table, looking it up returns its binding; removing it returns what it
reached and unbinds it; updating through it applies the function to the object it reaches, returns
the result and binds the changed object, and does nothing when it reaches none. No other handle
changes, and the invariant is kept. The index of a handle is not checked against the size of the
table: with an index of 4096 or more all three operations panic.\<close>

theorem object_table_refines_map:
  assumes "ot_inv t"
  shows "(\<exists>r t'. ot_insert k t = Some (r, t') \<and> ot_inv t'
        \<and> (case r of Inl _ \<Rightarrow> ot_full t \<and> t' = t
            | Inr h \<Rightarrow> \<not> ot_full t \<and> in_bounds h \<and> objects t h = None \<and> objects t' = (objects t)(h \<mapsto> k)))
     \<and> (if in_bounds h then ot_get t h = Some (objects t h)
          \<and> (\<exists>t'. ot_remove h t = Some (objects t h, t') \<and> ot_inv t' \<and> objects t' = (objects t)(h := None))
          \<and> (\<exists>t'. ot_update h f t = Some (map_option (\<lambda>k. fst (f k)) (objects t h), t') \<and> ot_inv t'
               \<and> objects t' = (objects t)(h := map_option (\<lambda>k. snd (f k)) (objects t h)))
        else ot_get t h = None \<and> ot_remove h t = None \<and> ot_update h f t = None)"
proof -
  have "\<exists>r t'. ot_insert k t = Some (r, t') \<and> ot_inv t'
        \<and> (case r of Inl _ \<Rightarrow> ot_full t \<and> t' = t
            | Inr h \<Rightarrow> \<not> ot_full t \<and> in_bounds h \<and> objects t h = None \<and> objects t' = (objects t)(h \<mapsto> k))"
  proof (cases "ot_full t")
    case True
    then show ?thesis using ot_insert_ok[OF assms, of k] assms by auto
  next
    case False
    then show ?thesis using ot_insert_ok[OF assms, of k] by auto
  qed
  moreover have "ot_get t h = Some (objects t h)
        \<and> (\<exists>t'. ot_remove h t = Some (objects t h, t') \<and> ot_inv t' \<and> objects t' = (objects t)(h := None))
        \<and> (\<exists>t'. ot_update h f t = Some (map_option (\<lambda>k. fst (f k)) (objects t h), t') \<and> ot_inv t'
               \<and> objects t' = (objects t)(h := map_option (\<lambda>k. snd (f k)) (objects t h)))" if "in_bounds h"
    using ot_remove_ok[OF assms that] ot_update_ok[OF assms that, of f] ot_get_objects[OF assms, of h] that by auto
  ultimately show ?thesis using ot_out_of_bounds(1,2)[OF assms, of h] ot_out_of_bounds(3)[OF assms, of h f] by simp
qed

theorem object_table_refines_map_witness:
  "\<exists>h t'. ot_insert (object_new Thread (ThreadData 7)) ot_new = Some (Inr h, t') \<and> objects t' h = Some (object_new Thread (ThreadData 7))"
proof -
  have "\<not> ot_full ot_new" by (auto simp: ot_full_def ot_new_def MAX_OBJECTS_def intro!: exI[of _ "0::nat"])
  moreover obtain r t' where r: "ot_insert (object_new Thread (ThreadData 7)) ot_new = Some (r, t')"
      "case r of Inl _ \<Rightarrow> ot_full ot_new \<and> t' = ot_new
            | Inr h \<Rightarrow> \<not> ot_full ot_new \<and> in_bounds h \<and> objects ot_new h = None
                \<and> objects t' = (objects ot_new)(h \<mapsto> object_new Thread (ThreadData 7))"
    using object_table_refines_map[OF ot_new_inv] by blast
  ultimately show ?thesis by (cases r) auto
qed

subsection \<open>Stale handles\<close>

datatype OtOp = OpInsert KernelObject | OpIncRef HandleRef | OpDecRef HandleRef | OpRemove HandleRef

text \<open>A use of the table by its clients.\<close>

fun ot_step :: "OtOp \<Rightarrow> ObjectTable \<Rightarrow> ObjectTable option" where
  "ot_step (OpInsert k) t = map_option snd (obj_insert k t)"
| "ot_step (OpIncRef h) t = map_option snd (with_object_mut h inc_ref t)"
| "ot_step (OpDecRef h) t = map_option snd (with_object_mut h dec_ref t)"
| "ot_step (OpRemove h) t = map_option snd (ot_remove h t)"

fun op_in_bounds :: "OtOp \<Rightarrow> bool" where
  "op_in_bounds (OpInsert k) = True"
| "op_in_bounds (OpIncRef h) = in_bounds h"
| "op_in_bounds (OpDecRef h) = in_bounds h"
| "op_in_bounds (OpRemove h) = in_bounds h"

fun removals :: "usize \<Rightarrow> OtOp list \<Rightarrow> nat" where
  "removals i [] = 0"
| "removals i (op # ops) = (case op of OpRemove h \<Rightarrow> if unat (h_index h) = i then 1 else 0 | _ \<Rightarrow> 0) + removals i ops"

lemma ot_step_ok:
  assumes inv: "ot_inv t" and ib: "op_in_bounds op" and i: "i < MAX_OBJECTS"
  shows "\<exists>t' r. ot_step op t = Some t' \<and> ot_inv t' \<and> r \<le> removals i [op]
     \<and> slot_generation (ot_slots t' ! i) = slot_generation (ot_slots t ! i) + of_nat r"
proof (cases op)
  case (OpInsert k)
  then show ?thesis
    using ot_insert_ok[OF inv, of k] inv i by (cases "ot_full t") (auto simp: obj_insert_def intro!: exI[of _ "0::nat"])
next
  case (OpIncRef h)
  then show ?thesis
    using ot_update_ok[OF inv, of h inc_ref] ib i by (auto simp: with_object_mut_def intro!: exI[of _ "0::nat"])
next
  case (OpDecRef h)
  then show ?thesis
    using ot_update_ok[OF inv, of h dec_ref] ib i by (auto simp: with_object_mut_def intro!: exI[of _ "0::nat"])
next
  case (OpRemove h)
  then obtain t' where t': "ot_remove h t = Some (objects t h, t')" "ot_inv t'"
      "slot_generation (ot_slots t' ! i) = slot_generation (ot_slots t ! i) + (if i = unat (h_index h) \<and> objects t h \<noteq> None then 1 else 0)"
    using ot_remove_ok[OF inv, of h] ib i by auto
  then show ?thesis using OpRemove
    by (intro exI[of _ t'] exI[of _ "if i = unat (h_index h) \<and> objects t h \<noteq> None then 1 else 0"]) auto
qed

lemma for_each_ot_run:
  assumes "ot_inv t" "list_all op_in_bounds ops" "i < MAX_OBJECTS"
  shows "\<exists>t' r. for_each ot_step ops t = Some t' \<and> ot_inv t' \<and> r \<le> removals i ops
     \<and> slot_generation (ot_slots t' ! i) = slot_generation (ot_slots t ! i) + of_nat r"
  using assms
proof (induction ops arbitrary: t)
  case Nil
  then show ?case by simp
next
  case (Cons op ops)
  obtain t1 r1 where 1: "ot_step op t = Some t1" "ot_inv t1" "r1 \<le> removals i [op]"
      "slot_generation (ot_slots t1 ! i) = slot_generation (ot_slots t ! i) + of_nat r1"
    using ot_step_ok[OF Cons.prems(1) _ Cons.prems(3), of op] Cons.prems(2) by auto
  obtain t2 r2 where 2: "for_each ot_step ops t1 = Some t2" "ot_inv t2" "r2 \<le> removals i ops"
      "slot_generation (ot_slots t2 ! i) = slot_generation (ot_slots t1 ! i) + of_nat r2"
    using Cons.IH[OF 1(2)] Cons.prems by auto
  have "r1 + r2 \<le> removals i (op # ops)" using 1(3) 2(3) by simp
  moreover have "slot_generation (ot_slots t2 ! i) = slot_generation (ot_slots t ! i) + of_nat (r1 + r2)"
    using 1(4) 2(4) by simp
  ultimately show ?case using 1(1) 2(1,2) by (intro exI[of _ t2] exI[of _ "r1 + r2"]) simp
qed

text \<open>C14. A handle whose object was removed never reaches an object again: after any further sequence of
insertions, reference updates and removals by clients that use indices in range, the lookup of the
removed handle finds nothing, as long as the slot is removed fewer than \<open>2 ^ 32 - 1\<close> more times (the
generation is 32 bits wide and wraps).\<close>

theorem stale_handle_never_resolves:
  assumes "ot_inv t" "in_bounds h" "ot_remove h t = Some (Some k, t1)"
    and "list_all op_in_bounds ops" "removals (unat (h_index h)) ops < 2 ^ 32 - 1"
  shows "\<exists>t2. for_each ot_step ops t1 = Some t2 \<and> ot_get t2 h = Some None"
proof -
  have i: "unat (h_index h) < MAX_OBJECTS" using assms(2) by (simp add: in_bounds_def)
  have k: "objects t h = Some k" using ot_remove_ok[OF assms(1,2)] assms(3) by auto
  have r: "ot_inv t1" "slot_generation (ot_slots t1 ! unat (h_index h)) = slot_generation (ot_slots t ! unat (h_index h)) + 1"
    using ot_remove_ok[OF assms(1,2)] assms(3) i k by auto
  then have g: "slot_generation (ot_slots t1 ! unat (h_index h)) = h_generation h + 1"
    using k by (auto simp: objects_def split: if_splits)
  obtain t2 n where 2: "for_each ot_step ops t1 = Some t2" "ot_inv t2" "n \<le> removals (unat (h_index h)) ops"
      "slot_generation (ot_slots t2 ! unat (h_index h)) = h_generation h + 1 + of_nat n"
    using for_each_ot_run[OF r(1) assms(4) i] g by auto
  have "Suc n < 2 ^ 32" using 2(3) assms(5) by linarith
  then have "(of_nat (Suc n) :: u32) \<noteq> 0"
    unfolding word_of_nat_eq_0_iff using dvd_imp_le[of "2 ^ 32" "Suc n"] by auto
  then have "slot_generation (ot_slots t2 ! unat (h_index h)) \<noteq> h_generation h" using 2(4) by (simp add: add.assoc)
  then have "objects t2 h = None" by (simp add: objects_def)
  then show ?thesis using 2(1) ot_get_objects[OF 2(2)] assms(2) by simp
qed

theorem stale_handle_never_resolves_witness:
  "\<exists>h t1 t2 t3. ot_insert (object_new Thread (ThreadData 7)) ot_new = Some (Inr h, t1) \<and> map_option snd (ot_remove h t1) = Some t2
     \<and> for_each ot_step [OpInsert (object_new Thread (ThreadData 8)), OpRemove h] t2 = Some t3 \<and> ot_get t3 h = Some None"
proof -
  let ?k = "object_new Thread (ThreadData 7)"
  have "\<not> ot_full ot_new" by (auto simp: ot_full_def ot_new_def MAX_OBJECTS_def intro!: exI[of _ "0::nat"])
  then obtain h t1 where 1: "ot_insert ?k ot_new = Some (Inr h, t1)" "ot_inv t1" "in_bounds h" "objects t1 = (objects ot_new)(h \<mapsto> ?k)"
    using ot_insert_ok[OF ot_new_inv, of ?k] by auto
  obtain t2 where 2: "ot_remove h t1 = Some (Some ?k, t2)" using ot_remove_ok[OF 1(2,3)] 1(4) by auto
  have ops: "list_all op_in_bounds [OpInsert (object_new Thread (ThreadData 8)), OpRemove h]"
    "removals (unat (h_index h)) [OpInsert (object_new Thread (ThreadData 8)), OpRemove h] < 2 ^ 32 - 1"
    using 1(3) by simp_all
  show ?thesis using stale_handle_never_resolves[OF 1(2,3) 2 ops] 1(1) 2 by auto
qed

end
