(* ===== verification/Capability.thy ===== *)
theory Capability
  imports Object_Table
begin

text \<open>
  \<open>ipc/message.rs\<close> and \<open>ipc/cnode.rs\<close>: rights, capabilities, messages and the capability table of
  a task. Rights are bit sets in a 64-bit word.
\<close>

unbundle bit_operations_syntax

subsection \<open>Definitions: rights, capabilities and messages\<close>

definition MAX_CAPS_PER_MSG :: usize where "MAX_CAPS_PER_MSG = 4"
definition MSG_DATA_WORDS :: usize where "MSG_DATA_WORDS = 4"

type_synonym Rights = u64

definition RIGHTS_NONE :: Rights where "RIGHTS_NONE = 0"
definition RIGHTS_READ :: Rights where "RIGHTS_READ = push_bit 0 1"
definition RIGHTS_WRITE :: Rights where "RIGHTS_WRITE = push_bit 1 1"
definition RIGHTS_EXEC :: Rights where "RIGHTS_EXEC = push_bit 2 1"
definition RIGHTS_GRANT :: Rights where "RIGHTS_GRANT = push_bit 3 1"
definition RIGHTS_ALL :: Rights where "RIGHTS_ALL = 0xF"

definition rights_contains :: "Rights \<Rightarrow> Rights \<Rightarrow> bool" where
  "rights_contains a b \<longleftrightarrow> a AND b = b"

definition rights_intersect :: "Rights \<Rightarrow> Rights \<Rightarrow> Rights" where
  "rights_intersect a b = a AND b"

record Capability =
  cap_handle :: HandleRef
  cap_rights :: Rights
  cap_depth :: u32

definition CAP_NULL :: Capability where
  "CAP_NULL = \<lparr>cap_handle = \<lparr>h_index = 0, h_generation = 0\<rparr>, cap_rights = RIGHTS_NONE, cap_depth = 0\<rparr>"

definition cap_new :: "HandleRef \<Rightarrow> Rights \<Rightarrow> Capability" where
  "cap_new h r = \<lparr>cap_handle = h, cap_rights = r, cap_depth = 0\<rparr>"

definition cap_is_null :: "Capability \<Rightarrow> bool" where
  "cap_is_null c \<longleftrightarrow> cap_rights c = RIGHTS_NONE"

definition cap_obj_type :: "ObjectTable \<Rightarrow> Capability \<Rightarrow> KernelObjType option option" where
  "cap_obj_type t c = with_object t (cap_handle c) obj_type"

text \<open>The addition to the 32-bit depth is checked.\<close>

definition cap_derive :: "Capability \<Rightarrow> Rights \<Rightarrow> Capability option option" where
  "cap_derive c requested =
     (if \<not> rights_contains (cap_rights c) RIGHTS_GRANT then Some None
      else do {
        let child_rights = rights_intersect (cap_rights c) requested;
        rassert (cap_depth c \<noteq> - 1);
        Some (Some \<lparr>cap_handle = cap_handle c, cap_rights = child_rights, cap_depth = cap_depth c + 1\<rparr>)
      })"

type_synonym MsgLabel = u64

definition LABEL_INVALID :: MsgLabel where "LABEL_INVALID = 0"
definition LABEL_REPLY_OK :: MsgLabel where "LABEL_REPLY_OK = 1"
definition LABEL_REPLY_ERR :: MsgLabel where "LABEL_REPLY_ERR = 2"
definition LABEL_NOTIFY :: MsgLabel where "LABEL_NOTIFY = 3"
definition LABEL_CALL :: MsgLabel where "LABEL_CALL = 4"
definition LABEL_USER_BASE :: MsgLabel where "LABEL_USER_BASE = 0x1000"

record FastMessage =
  m_label :: MsgLabel
  m_data :: "u64 list"
  m_caps :: "Capability list"
  m_n_caps :: usize

definition msg_empty :: "MsgLabel \<Rightarrow> FastMessage" where
  "msg_empty l = \<lparr>m_label = l, m_data = replicate MSG_DATA_WORDS 0, m_caps = replicate MAX_CAPS_PER_MSG CAP_NULL, m_n_caps = 0\<rparr>"

definition msg_default :: FastMessage where
  "msg_default = \<lparr>m_label = LABEL_INVALID, m_data = replicate MSG_DATA_WORDS 0,
     m_caps = replicate MAX_CAPS_PER_MSG CAP_NULL, m_n_caps = 0\<rparr>"

definition msg_with_data :: "MsgLabel \<Rightarrow> u64 list \<Rightarrow> FastMessage" where
  "msg_with_data l d = \<lparr>m_label = l, m_data = d, m_caps = replicate MAX_CAPS_PER_MSG CAP_NULL, m_n_caps = 0\<rparr>"

definition msg_add_cap :: "Capability \<Rightarrow> FastMessage \<Rightarrow> (bool \<times> FastMessage) option" where
  "msg_add_cap c m =
     (if m_n_caps m \<ge> MAX_CAPS_PER_MSG then Some (False, m)
      else do {
        caps \<leftarrow> arr_set (m_caps m) (m_n_caps m) c;
        n \<leftarrow> u_add (m_n_caps m) 1;
        Some (True, m\<lparr>m_caps := caps, m_n_caps := n\<rparr>)
      })"

text \<open>The slice \<open>caps[..n_caps]\<close> panics when the count is past the array.\<close>

definition msg_caps :: "FastMessage \<Rightarrow> Capability list option" where
  "msg_caps m = (if m_n_caps m \<le> length (m_caps m) then Some (take (m_n_caps m) (m_caps m)) else None)"

subsection \<open>Definitions: the capability table\<close>

definition CAPABILITY_MAX :: usize where "CAPABILITY_MAX = 50"

type_synonym CapIdx = u32

record CNode =
  cn_slots :: "Capability list"

definition cnode_new :: CNode where
  "cnode_new = \<lparr>cn_slots = replicate CAPABILITY_MAX CAP_NULL\<rparr>"

definition cnode_insert_at :: "CapIdx \<Rightarrow> Capability \<Rightarrow> CNode \<Rightarrow> CNode option" where
  "cnode_insert_at i c n = do {
     slots \<leftarrow> arr_set (cn_slots n) (unat i) c;
     Some (n\<lparr>cn_slots := slots\<rparr>)
   }"

definition cnode_get :: "CNode \<Rightarrow> CapIdx \<Rightarrow> Capability option option" where
  "cnode_get n i =
     (if i \<ge> of_nat CAPABILITY_MAX then Some None
      else do {
        c \<leftarrow> arr_get (cn_slots n) (unat i);
        Some (if cap_is_null c then None else Some c)
      })"

definition cnode_find_free :: "CNode \<Rightarrow> CapIdx option" where
  "cnode_find_free n = map_option (\<lambda>(i, _). of_nat i) (find (\<lambda>(_, c). cap_is_null c) (enumerate 0 (cn_slots n)))"

definition cnode_alloc :: "Capability \<Rightarrow> CNode \<Rightarrow> (CapIdx option \<times> CNode) option" where
  "cnode_alloc c n =
     (case cnode_find_free n of
        None \<Rightarrow> Some (None, n)
      | Some i \<Rightarrow> do {
          slots \<leftarrow> arr_set (cn_slots n) (unat i) c;
          Some (Some i, n\<lparr>cn_slots := slots\<rparr>)
        })"

definition cnode_delete :: "CapIdx \<Rightarrow> CNode \<Rightarrow> CNode option" where
  "cnode_delete i n = do {
     slots \<leftarrow> arr_set (cn_slots n) (unat i) CAP_NULL;
     Some (n\<lparr>cn_slots := slots\<rparr>)
   }"

subsection \<open>Rights as a preorder\<close>

text \<open>What the clients of rights rely on.\<close>

locale rights_order =
  fixes contains :: "'r \<Rightarrow> 'r \<Rightarrow> bool" and meet :: "'r \<Rightarrow> 'r \<Rightarrow> 'r"
  assumes refl: "contains a a"
    and trans: "contains a b \<Longrightarrow> contains b c \<Longrightarrow> contains a c"
    and meet_iff: "contains (meet a b) c \<longleftrightarrow> contains a c \<and> contains b c"
begin

lemma meet_lower: "contains a (meet a b)" "contains b (meet a b)"
  using meet_iff[of a b "meet a b"] refl[of "meet a b"] by auto

lemma meet_glb: "contains a c \<Longrightarrow> contains b c \<Longrightarrow> contains (meet a b) c"
  using meet_iff by blast

lemma chain_contains: "successively contains xs \<Longrightarrow> xs \<noteq> [] \<Longrightarrow> x \<in> set xs \<Longrightarrow> contains (hd xs) x"
proof (induction xs)
  case (Cons y ys)
  show ?case
  proof (cases "x = y")
    case True
    then show ?thesis by (simp add: refl)
  next
    case False
    then have "ys \<noteq> []" "x \<in> set ys" using Cons.prems by auto
    then show ?thesis using Cons trans by (auto simp: successively_Cons)
  qed
qed simp

end

lemma rights_contains_bits: "rights_contains a b \<longleftrightarrow> (\<forall>n. bit b n \<longrightarrow> bit a n)"
proof
  assume "rights_contains a b"
  then have "bit (a AND b) n = bit b n" for n by (simp add: rights_contains_def)
  then show "\<forall>n. bit b n \<longrightarrow> bit a n" unfolding bit_and_iff by blast
next
  assume "\<forall>n. bit b n \<longrightarrow> bit a n"
  then show "rights_contains a b" unfolding rights_contains_def by (intro bit_eqI) (simp add: bit_and_iff, blast)
qed

interpretation rights: rights_order rights_contains rights_intersect
  by unfold_locales (auto simp: rights_contains_bits rights_intersect_def bit_and_iff)

subsection \<open>Derivation\<close>

text \<open>A chain of derivations, each from the result of the last.\<close>

fun derive_chain :: "Capability \<Rightarrow> Rights list \<Rightarrow> Capability option option" where
  "derive_chain c [] = Some (Some c)"
| "derive_chain c (r # rs) = do {
     d \<leftarrow> cap_derive c r;
     case d of None \<Rightarrow> Some None | Some c' \<Rightarrow> derive_chain c' rs
   }"

lemma cap_derive_Some:
  "cap_derive c r = Some (Some d) \<Longrightarrow>
     cap_handle d = cap_handle c \<and> rights_contains (cap_rights c) RIGHTS_GRANT
     \<and> rights_contains (cap_rights c) (cap_rights d) \<and> rights_contains r (cap_rights d)
     \<and> unat (cap_depth d) = unat (cap_depth c) + 1"
proof -
  assume d: "cap_derive c r = Some (Some d)"
  then have g: "rights_contains (cap_rights c) RIGHTS_GRANT" and n: "cap_depth c \<noteq> - 1"
    and e: "d = \<lparr>cap_handle = cap_handle c, cap_rights = rights_intersect (cap_rights c) r, cap_depth = cap_depth c + 1\<rparr>"
    by (auto simp: cap_derive_def Let_def rassert_def split: if_splits)
  have "1 + cap_depth c \<noteq> 0" using n by (metis add.commute add_eq_0_iff2)
  then have "unat (1 + cap_depth c) = Suc (unat (cap_depth c))" by (rule unatSuc)
  then show ?thesis using g e by (simp add: rights.meet_lower add.commute)
qed

lemma cap_derive_total: "unat (cap_depth c) + 1 < 2 ^ 32 \<Longrightarrow> \<exists>d. cap_derive c r = Some d"
proof -
  assume "unat (cap_depth c) + 1 < 2 ^ 32"
  then have "cap_depth c \<noteq> - 1" by (auto simp: unsigned_minus_1_eq_mask mask_eq_exp_minus_1)
  then show ?thesis by (simp add: cap_derive_def Let_def)
qed

text \<open>C15. Rights are never amplified by derivation. A chain of derivations does not panic while the 32-bit
depth has room, and a capability it yields refers to the same object, has no right that the
original or any of the requests along the chain lacks, and has a depth larger by the length of the
chain; a chain of at least one step exists only from a capability with the grant right.\<close>

theorem derive_chain_attenuates:
  "(unat (cap_depth c) + length rs < 2 ^ 32 \<longrightarrow> derive_chain c rs \<noteq> None)
   \<and> (derive_chain c rs = Some (Some d) \<longrightarrow>
        cap_handle d = cap_handle c \<and> rights_contains (cap_rights c) (cap_rights d)
        \<and> (\<forall>r \<in> set rs. rights_contains r (cap_rights d)) \<and> unat (cap_depth d) = unat (cap_depth c) + length rs
        \<and> (rs \<noteq> [] \<longrightarrow> rights_contains (cap_rights c) RIGHTS_GRANT))"
proof (induction rs arbitrary: c)
  case Nil
  then show ?case by (auto simp: rights.refl)
next
  case (Cons r rs)
  show ?case
  proof (intro conjI impI)
    assume len: "unat (cap_depth c) + length (r # rs) < 2 ^ 32"
    then obtain x where x: "cap_derive c r = Some x" using cap_derive_total[of c r] by auto
    show "derive_chain c (r # rs) \<noteq> None"
    proof (cases x)
      case (Some e)
      then have "unat (cap_depth e) = unat (cap_depth c) + 1" using cap_derive_Some x by blast
      then have "derive_chain e rs \<noteq> None" using Cons[of e] len by simp
      then show ?thesis using x Some by simp
    qed (simp add: x)
  next
    assume "derive_chain c (r # rs) = Some (Some d)"
    then obtain e where e: "cap_derive c r = Some (Some e)" "derive_chain e rs = Some (Some d)"
      by (auto split: bind_splits option.splits)
    note de = cap_derive_Some[OF e(1)]
    have ih: "cap_handle d = cap_handle e" "rights_contains (cap_rights e) (cap_rights d)"
        "\<forall>r \<in> set rs. rights_contains r (cap_rights d)" "unat (cap_depth d) = unat (cap_depth e) + length rs"
      using Cons[of e] e(2) by auto
    show "cap_handle d = cap_handle c" "unat (cap_depth d) = unat (cap_depth c) + length (r # rs)" using ih de by auto
    show "rights_contains (cap_rights c) (cap_rights d)" "rights_contains (cap_rights c) RIGHTS_GRANT"
      using de ih(2) rights.trans by blast+
    show "\<forall>x \<in> set (r # rs). rights_contains x (cap_rights d)" using de ih(2,3) rights.trans by auto
  qed
qed

definition demo_cap :: Capability where
  "demo_cap = cap_new \<lparr>h_index = 3, h_generation = 1\<rparr> RIGHTS_ALL"

theorem derive_chain_attenuates_witness:
  "\<exists>d. derive_chain demo_cap [0xB, 0x9] = Some (Some d) \<and> cap_handle d = cap_handle demo_cap
     \<and> rights_contains (cap_rights demo_cap) (cap_rights d) \<and> rights_contains 0x9 (cap_rights d) \<and> unat (cap_depth d) = 2"
proof -
  have ex: "derive_chain demo_cap [0xB, 0x9] = Some (Some \<lparr>cap_handle = cap_handle demo_cap, cap_rights = 0x9, cap_depth = 2\<rparr>)"
    by code_simp
  have "unat (cap_depth demo_cap) = 0" by (simp add: demo_cap_def cap_new_def)
  then show ?thesis
    using derive_chain_attenuates[of demo_cap "[0xB, 0x9]" "\<lparr>cap_handle = cap_handle demo_cap, cap_rights = 0x9, cap_depth = 2\<rparr>"] ex
    by (intro exI[of _ "\<lparr>cap_handle = cap_handle demo_cap, cap_rights = 0x9, cap_depth = 2\<rparr>"]) simp
qed

subsection \<open>Messages\<close>

text \<open>Adding the capabilities of a list one after the other; the flag says whether all had room.\<close>

fun add_caps :: "Capability list \<Rightarrow> FastMessage \<Rightarrow> (bool \<times> FastMessage) option" where
  "add_caps [] m = Some (True, m)"
| "add_caps (c # cs) m = do {
     (ok, m') \<leftarrow> msg_add_cap c m;
     if ok then add_caps cs m' else Some (False, m')
   }"

definition msg_wf :: "FastMessage \<Rightarrow> bool" where
  "msg_wf m \<longleftrightarrow> length (m_caps m) = MAX_CAPS_PER_MSG \<and> m_n_caps m \<le> MAX_CAPS_PER_MSG \<and> length (m_data m) = MSG_DATA_WORDS"

lemma msg_add_cap_ok:
  assumes "msg_wf m"
  shows "\<exists>m'. msg_add_cap c m = Some (m_n_caps m < MAX_CAPS_PER_MSG, m') \<and> msg_wf m' \<and> m_label m' = m_label m \<and> m_data m' = m_data m
     \<and> msg_caps m' = map_option (\<lambda>cs. if m_n_caps m < MAX_CAPS_PER_MSG then cs @ [c] else cs) (msg_caps m)"
  using assms
  by (auto simp: msg_add_cap_def msg_wf_def msg_caps_def MAX_CAPS_PER_MSG_def USIZE_MAX_def take_Suc_conv_app_nth)

text \<open>C16. What is put into a message comes out of it: adding a list of capabilities to an empty message and
reading the message back gives the first four of them in order, and the flag tells whether the
list fitted; label and data stay.\<close>

theorem message_caps_roundtrip:
  "\<exists>m. add_caps cs (msg_with_data l d) = Some (length cs \<le> MAX_CAPS_PER_MSG, m)
     \<and> msg_caps m = Some (take MAX_CAPS_PER_MSG cs) \<and> m_label m = l \<and> m_data m = d"
proof -
  have gen: "\<exists>m'. add_caps cs m = Some (m_n_caps m + length cs \<le> MAX_CAPS_PER_MSG, m')
     \<and> msg_caps m' = Some (take MAX_CAPS_PER_MSG (take (m_n_caps m) (m_caps m) @ cs)) \<and> m_label m' = m_label m \<and> m_data m' = m_data m"
    if "length (m_caps m) = MAX_CAPS_PER_MSG" "m_n_caps m \<le> MAX_CAPS_PER_MSG" for m
    using that
  proof (induction cs arbitrary: m)
    case Nil
    then show ?case by (simp add: msg_caps_def)
  next
    case (Cons c cs)
    show ?case
    proof (cases "m_n_caps m < MAX_CAPS_PER_MSG")
      case True
      let ?m = "m\<lparr>m_caps := (m_caps m)[m_n_caps m := c], m_n_caps := m_n_caps m + 1\<rparr>"
      have "msg_add_cap c m = Some (True, ?m)"
        using True Cons.prems by (simp add: msg_add_cap_def MAX_CAPS_PER_MSG_def USIZE_MAX_def)
      moreover have "take (m_n_caps ?m) (m_caps ?m) = take (m_n_caps m) (m_caps m) @ [c]"
        using True Cons.prems by (simp add: take_Suc_conv_app_nth)
      ultimately show ?thesis using Cons.IH[of ?m] Cons.prems True by simp
    next
      case False
      then have "msg_add_cap c m = Some (False, m)" "m_n_caps m = MAX_CAPS_PER_MSG" using Cons.prems by (simp_all add: msg_add_cap_def)
      then show ?thesis using Cons.prems by (simp add: msg_caps_def)
    qed
  qed
  show ?thesis using gen[of "msg_with_data l d"] by (simp add: msg_with_data_def)
qed

subsection \<open>The capability table\<close>

definition cnode_wf :: "CNode \<Rightarrow> bool" where
  "cnode_wf n \<longleftrightarrow> length (cn_slots n) = CAPABILITY_MAX"

text \<open>The capability at an index, if there is one.\<close>

definition cap_at :: "CNode \<Rightarrow> nat \<Rightarrow> Capability option" where
  "cap_at n i = (if i < CAPABILITY_MAX \<and> \<not> cap_is_null (cn_slots n ! i) then Some (cn_slots n ! i) else None)"

lemma cnode_new_wf: "cnode_wf cnode_new"
  by (simp add: cnode_wf_def cnode_new_def)

lemma cnode_get_eq: "cnode_wf n \<Longrightarrow> cnode_get n i = Some (cap_at n (unat i))"
  by (auto simp: cnode_get_def cap_at_def cnode_wf_def CAPABILITY_MAX_def word_le_nat_alt)

lemma find_enumerate: "find (\<lambda>(_, c). P c) (enumerate k xs) = (case find (\<lambda>i. P (xs ! i)) [0..<length xs] of None \<Rightarrow> None | Some i \<Rightarrow> Some (k + i, xs ! i))"
proof (induction xs arbitrary: k)
  case (Cons x xs)
  have up: "[0..<length (x # xs)] = 0 # map Suc [0..<length xs]" by (simp add: map_Suc_upt upt_conv_Cons del: upt_Suc)
  have sh: "find (\<lambda>i. P ((x # xs) ! i)) (map Suc is) = map_option Suc (find (\<lambda>i. P (xs ! i)) is)" for "is"
    by (induction "is") auto
  show ?case
  proof (cases "P x")
    case True
    then show ?thesis unfolding up by simp
  next
    case False
    then show ?thesis unfolding up using Cons[of "Suc k"]
      by (cases "find (\<lambda>i. P (xs ! i)) [0..<length xs]") (simp_all add: sh)
  qed
qed simp

lemma cnode_find_free_eq:
  assumes "cnode_wf n"
  shows "cnode_find_free n = (if \<exists>i < CAPABILITY_MAX. cap_at n i = None then Some (of_nat (LEAST i. i < CAPABILITY_MAX \<and> cap_at n i = None)) else None)"
proof -
  let ?P = "\<lambda>i. cap_is_null (cn_slots n ! i)"
  have len: "length (cn_slots n) = CAPABILITY_MAX" using assms by (simp add: cnode_wf_def)
  have eq: "cap_at n i = None \<longleftrightarrow> ?P i" if "i < CAPABILITY_MAX" for i using that by (simp add: cap_at_def)
  show ?thesis
  proof (cases "find ?P [0..<CAPABILITY_MAX]")
    case None
    then have "\<not> (\<exists>i < CAPABILITY_MAX. cap_at n i = None)" using eq by (auto simp: find_None_iff)
    then show ?thesis using None len by (simp add: cnode_find_free_def find_enumerate)
  next
    case (Some i)
    then obtain m where m: "m < length [0..<CAPABILITY_MAX]" "?P ([0..<CAPABILITY_MAX] ! m)" "i = [0..<CAPABILITY_MAX] ! m"
        "\<forall>j < m. \<not> ?P ([0..<CAPABILITY_MAX] ! j)"
      unfolding find_Some_iff by blast
    then have i: "i < CAPABILITY_MAX" "?P i" "\<forall>j < i. \<not> ?P j" by simp_all
    have "(LEAST i. i < CAPABILITY_MAX \<and> cap_at n i = None) = i"
    proof (rule Least_equality)
      show "i < CAPABILITY_MAX \<and> cap_at n i = None" using i eq by blast
      show "i \<le> j" if "j < CAPABILITY_MAX \<and> cap_at n j = None" for j using that i(3) eq[of j] not_less by blast
    qed
    moreover have "cnode_find_free n = Some (of_nat i)" using Some len by (simp add: cnode_find_free_def find_enumerate)
    moreover have "\<exists>i < CAPABILITY_MAX. cap_at n i = None" using i eq by blast
    ultimately show ?thesis by simp
  qed
qed

text \<open>C17. The capability table of a task. Allocation stores a capability in the least empty slot, where a
lookup then finds it, and fails exactly when no slot is empty; deletion empties one slot; neither
touches another slot, and a lookup never panics, whatever the index.\<close>

theorem cnode_correct:
  assumes "cnode_wf n"
  shows "(\<exists>r n'. cnode_alloc c n = Some (r, n') \<and> cnode_wf n'
        \<and> (case r of
             None \<Rightarrow> n' = n \<and> (\<forall>j < CAPABILITY_MAX. cap_at n j \<noteq> None)
           | Some i \<Rightarrow> unat i < CAPABILITY_MAX \<and> cap_at n (unat i) = None \<and> (\<forall>j < unat i. cap_at n j \<noteq> None)
               \<and> cap_at n' = (cap_at n)(unat i := (if cap_is_null c then None else Some c))))
     \<and> (\<forall>i. unat i < CAPABILITY_MAX \<longrightarrow> (\<exists>n'. cnode_delete i n = Some n' \<and> cnode_wf n' \<and> cap_at n' = (cap_at n)(unat i := None)))
     \<and> (\<forall>i. cnode_get n i = Some (cap_at n (unat i)))"
proof (intro conjI allI impI)
  have len: "length (cn_slots n) = CAPABILITY_MAX" using assms by (simp add: cnode_wf_def)
  have upd: "cap_at (n\<lparr>cn_slots := (cn_slots n)[j := c]\<rparr>) = (cap_at n)(j := (if cap_is_null c then None else Some c))"
    if "j < CAPABILITY_MAX" for j c using that len by (auto simp: cap_at_def fun_eq_iff nth_list_update)
  show "\<exists>n'. cnode_delete i n = Some n' \<and> cnode_wf n' \<and> cap_at n' = (cap_at n)(unat i := None)" if "unat i < CAPABILITY_MAX" for i
    using that len upd[OF that, of CAP_NULL] by (auto simp: cnode_delete_def cnode_wf_def cap_is_null_def CAP_NULL_def)
  show "cnode_get n i = Some (cap_at n (unat i))" for i by (rule cnode_get_eq[OF assms])
  let ?Q = "\<lambda>i. i < CAPABILITY_MAX \<and> cap_at n i = None"
  show "\<exists>r n'. cnode_alloc c n = Some (r, n') \<and> cnode_wf n'
        \<and> (case r of
             None \<Rightarrow> n' = n \<and> (\<forall>j < CAPABILITY_MAX. cap_at n j \<noteq> None)
           | Some i \<Rightarrow> unat i < CAPABILITY_MAX \<and> cap_at n (unat i) = None \<and> (\<forall>j < unat i. cap_at n j \<noteq> None)
               \<and> cap_at n' = (cap_at n)(unat i := (if cap_is_null c then None else Some c)))"
  proof (cases "\<exists>i. ?Q i")
    case False
    then show ?thesis using assms cnode_find_free_eq[OF assms] by (auto simp: cnode_alloc_def)
  next
    case True
    define m where "m = (LEAST i. ?Q i)"
    have m: "m < CAPABILITY_MAX" "cap_at n m = None" using LeastI_ex[OF True] by (auto simp: m_def)
    have below: "cap_at n j \<noteq> None" if "j < m" for j using not_less_Least[of j ?Q] that m(1) by (auto simp: m_def)
    have um: "unat (of_nat m :: u32) = m" using m(1) by (simp add: CAPABILITY_MAX_def unat_of_nat)
    have "cnode_find_free n = Some (of_nat m)" using True cnode_find_free_eq[OF assms] by (auto simp: m_def)
    then have "cnode_alloc c n = Some (Some (of_nat m), n\<lparr>cn_slots := (cn_slots n)[m := c]\<rparr>)"
      using m(1) um len by (simp add: cnode_alloc_def)
    then show ?thesis using m um below len upd[OF m(1), of c] by (simp add: cnode_wf_def)
  qed
qed

theorem cnode_correct_witness:
  "\<exists>i n'. cnode_alloc demo_cap cnode_new = Some (Some i, n') \<and> cnode_get n' i = Some (Some demo_cap)"
proof -
  have nn: "\<not> cap_is_null demo_cap" by (simp add: cap_is_null_def demo_cap_def cap_new_def RIGHTS_ALL_def RIGHTS_NONE_def)
  have e: "cap_at cnode_new 0 = None" by (simp add: cap_at_def cnode_new_def CAPABILITY_MAX_def cap_is_null_def CAP_NULL_def)
  obtain r n' where r: "cnode_alloc demo_cap cnode_new = Some (r, n')" "cnode_wf n'"
     "case r of
             None \<Rightarrow> n' = cnode_new \<and> (\<forall>j < CAPABILITY_MAX. cap_at cnode_new j \<noteq> None)
           | Some i \<Rightarrow> unat i < CAPABILITY_MAX \<and> cap_at cnode_new (unat i) = None \<and> (\<forall>j < unat i. cap_at cnode_new j \<noteq> None)
               \<and> cap_at n' = (cap_at cnode_new)(unat i := (if cap_is_null demo_cap then None else Some demo_cap))"
    using cnode_correct[OF cnode_new_wf] by blast
  show ?thesis
  proof (cases r)
    case None
    then have "cap_at cnode_new 0 \<noteq> None" using r(3) by (simp add: CAPABILITY_MAX_def)
    then show ?thesis using e by blast
  next
    case (Some i)
    then show ?thesis using r nn by (simp add: cnode_get_eq)
  qed
qed

end
