(* ===== verification/Ipc_Endpoint.thy ===== *)
theory Ipc_Endpoint
  imports Capability "HOL-Library.Sublist"
begin

text \<open>
  \<open>ipc/endpoint.rs\<close> and \<open>ipc/notification.rs\<close>: the ring buffer of the tasks that wait on an endpoint,
  endpoints, and notifications. A spin lock that is taken keeps the caller waiting; one call on
  its own then does not return, which is \<open>None\<close> here.
\<close>

subsection \<open>Definitions: the wait queue\<close>

type_synonym EndpointId = u64

definition endpoint_id_new :: "u64 \<Rightarrow> EndpointId" where
  "endpoint_id_new n = n"

text \<open>The counter of identifiers wraps; the identifier is the value before the increment.\<close>

definition endpoint_id_alloc :: "u64 \<Rightarrow> EndpointId \<times> u64" where
  "endpoint_id_alloc next_ep_id = (next_ep_id, next_ep_id + 1)"

definition WQ_CAP :: usize where "WQ_CAP = 16"

record WaitQueueInner =
  wq_buf :: "TaskIdIndex option list"
  wq_head :: usize
  wq_tail :: usize
  wq_count :: usize

record WaitQueue =
  wq_lock :: bool
  wq_inner :: WaitQueueInner

definition wq_new :: WaitQueue where
  "wq_new = \<lparr>wq_lock = False, wq_inner = \<lparr>wq_buf = replicate WQ_CAP None, wq_head = 0, wq_tail = 0, wq_count = 0\<rparr>\<rparr>"

definition wq_acquire :: "WaitQueue \<Rightarrow> WaitQueue option" where
  "wq_acquire q = (if wq_lock q then None else Some (q\<lparr>wq_lock := True\<rparr>))"

definition wq_release :: "WaitQueue \<Rightarrow> WaitQueue" where
  "wq_release q = q\<lparr>wq_lock := False\<rparr>"

definition wq_enqueue :: "TaskIdIndex \<Rightarrow> WaitQueue \<Rightarrow> (bool \<times> WaitQueue) option" where
  "wq_enqueue x w = do {
     w1 \<leftarrow> wq_acquire w;
     let q = wq_inner w1;
     (ok, q') \<leftarrow> (if wq_count q < WQ_CAP then do {
         buf \<leftarrow> arr_set (wq_buf q) (wq_tail q) (Some x);
         t \<leftarrow> u_add (wq_tail q) 1;
         n \<leftarrow> u_add (wq_count q) 1;
         Some (True, q\<lparr>wq_buf := buf, wq_tail := t mod WQ_CAP, wq_count := n\<rparr>)
       } else Some (False, q));
     Some (ok, wq_release (w1\<lparr>wq_inner := q'\<rparr>))
   }"

text \<open>The loop of \<open>dequeue\<close>, which skips the entries that were cancelled; not returning is \<open>None\<close>.\<close>

partial_function (option) dequeue_loop :: "WaitQueueInner \<Rightarrow> (TaskIdIndex option \<times> WaitQueueInner) option" where
  "dequeue_loop q =
     (if wq_count q = 0 then Some (None, q)
      else do {
        x \<leftarrow> arr_get (wq_buf q) (wq_head q);
        buf \<leftarrow> arr_set (wq_buf q) (wq_head q) None;
        h \<leftarrow> u_add (wq_head q) 1;
        n \<leftarrow> u_sub (wq_count q) 1;
        let q' = q\<lparr>wq_buf := buf, wq_head := h mod WQ_CAP, wq_count := n\<rparr>;
        if x \<noteq> None then Some (x, q') else dequeue_loop q'
      })"

declare dequeue_loop.simps [simp del]

definition wq_dequeue :: "WaitQueue \<Rightarrow> (TaskIdIndex option \<times> WaitQueue) option" where
  "wq_dequeue w = do {
     w1 \<leftarrow> wq_acquire w;
     (x, q) \<leftarrow> dequeue_loop (wq_inner w1);
     Some (x, wq_release (w1\<lparr>wq_inner := q\<rparr>))
   }"

text \<open>The bounded search of \<open>cancel\<close>: the number of turns left and the position.\<close>

fun cancel_loop :: "TaskIdIndex \<Rightarrow> nat \<Rightarrow> usize \<Rightarrow> WaitQueueInner \<Rightarrow> (bool \<times> WaitQueueInner) option" where
  "cancel_loop x 0 i q = Some (False, q)"
| "cancel_loop x (Suc n) i q = do {
     y \<leftarrow> arr_get (wq_buf q) i;
     if y = Some x then do {
       buf \<leftarrow> arr_set (wq_buf q) i None;
       Some (True, q\<lparr>wq_buf := buf\<rparr>)
     } else do {
       j \<leftarrow> u_add i 1;
       cancel_loop x n (j mod WQ_CAP) q
     }
   }"

definition wq_cancel :: "TaskIdIndex \<Rightarrow> WaitQueue \<Rightarrow> (bool \<times> WaitQueue) option" where
  "wq_cancel x w = do {
     w1 \<leftarrow> wq_acquire w;
     (found, q) \<leftarrow> cancel_loop x (wq_count (wq_inner w1)) (wq_head (wq_inner w1)) (wq_inner w1);
     Some (found, wq_release (w1\<lparr>wq_inner := q\<rparr>))
   }"

definition wq_is_empty :: "WaitQueue \<Rightarrow> bool" where
  "wq_is_empty w \<longleftrightarrow> wq_count (wq_inner w) = 0"

subsection \<open>Definitions: endpoints\<close>

datatype IpcError = InvalidEndpoint | NoPermission | NotReady | Blocked | NoGrant | TooManyCaps | EndpointClosed | Timeout

record Endpoint =
  ep_id :: EndpointId
  ep_recv_queue :: WaitQueue
  ep_closed :: bool

definition ep_new :: "u64 \<Rightarrow> Endpoint \<times> u64" where
  "ep_new next_ep_id = (let (i, n) = endpoint_id_alloc next_ep_id
     in (\<lparr>ep_id = i, ep_recv_queue = wq_new, ep_closed = False\<rparr>, n))"

definition ep_new_with_id :: "EndpointId \<Rightarrow> Endpoint" where
  "ep_new_with_id i = \<lparr>ep_id = i, ep_recv_queue = wq_new, ep_closed = False\<rparr>"

definition ep_close :: "Endpoint \<Rightarrow> Endpoint" where
  "ep_close e = e\<lparr>ep_closed := True\<rparr>"

definition ep_is_closed :: "Endpoint \<Rightarrow> bool" where
  "ep_is_closed e = ep_closed e"

definition ep_try_send :: "FastMessage \<Rightarrow> Endpoint \<Rightarrow> ((IpcError + TaskIdIndex option) \<times> Endpoint) option" where
  "ep_try_send msg e =
     (if ep_closed e then Some (Inl EndpointClosed, e)
      else do {
        (x, q) \<leftarrow> wq_dequeue (ep_recv_queue e);
        Some (Inr x, e\<lparr>ep_recv_queue := q\<rparr>)
      })"

definition ep_try_recv :: "TaskIdIndex \<Rightarrow> Endpoint \<Rightarrow> ((IpcError + unit) \<times> Endpoint) option" where
  "ep_try_recv receiver_id e =
     (if ep_closed e then Some (Inl EndpointClosed, e)
      else do {
        (ok, q) \<leftarrow> wq_enqueue receiver_id (ep_recv_queue e);
        Some (if ok then Inr () else Inl NotReady, e\<lparr>ep_recv_queue := q\<rparr>)
      })"

definition ep_cancel_recv :: "TaskIdIndex \<Rightarrow> Endpoint \<Rightarrow> (bool \<times> Endpoint) option" where
  "ep_cancel_recv x e = do {
     (found, q) \<leftarrow> wq_cancel x (ep_recv_queue e);
     Some (found, e\<lparr>ep_recv_queue := q\<rparr>)
   }"

definition ep_has_waiting_receiver :: "Endpoint \<Rightarrow> bool" where
  "ep_has_waiting_receiver e \<longleftrightarrow> \<not> wq_is_empty (ep_recv_queue e)"

subsection \<open>Definitions: notifications\<close>

record Notification =
  n_badges :: u64
  n_waiter :: "TaskIdIndex option"

definition notif_new :: Notification where
  "notif_new = \<lparr>n_badges = 0, n_waiter = None\<rparr>"

definition notif_signal :: "u64 \<Rightarrow> Notification \<Rightarrow> TaskIdIndex option \<times> Notification" where
  "notif_signal badge n = (n_waiter n, n\<lparr>n_badges := n_badges n OR badge, n_waiter := None\<rparr>)"

definition notif_wait :: "TaskIdIndex \<Rightarrow> Notification \<Rightarrow> u64 option \<times> Notification" where
  "notif_wait thread_id n =
     (let badges = n_badges n; n' = n\<lparr>n_badges := 0\<rparr>
      in if badges \<noteq> 0 then (Some badges, n') else (None, n'\<lparr>n_waiter := Some thread_id\<rparr>))"

definition notif_poll :: "Notification \<Rightarrow> u64" where
  "notif_poll n = n_badges n"

definition notif_clear :: "u64 \<Rightarrow> Notification \<Rightarrow> Notification" where
  "notif_clear m n = n\<lparr>n_badges := n_badges n AND NOT m\<rparr>"

subsection \<open>The interface of a bounded wait queue\<close>

datatype 'a qop = Enq 'a | Deq | Cancel 'a

locale wait_queue =
  fixes inv :: "'q \<Rightarrow> bool" and view :: "'q \<Rightarrow> 'a list" and used :: "'q \<Rightarrow> nat" and cap :: nat
    and enq :: "'a \<Rightarrow> 'q \<Rightarrow> (bool \<times> 'q) option"
    and deq :: "'q \<Rightarrow> ('a option \<times> 'q) option"
    and cancel :: "'a \<Rightarrow> 'q \<Rightarrow> (bool \<times> 'q) option"
  assumes view_used: "inv q \<Longrightarrow> length (view q) \<le> used q \<and> used q \<le> cap"
    and enq_ok: "inv q \<Longrightarrow> \<exists>q'. enq x q = Some (used q < cap, q') \<and> inv q'
        \<and> view q' = (if used q < cap then view q @ [x] else view q) \<and> used q' = (if used q < cap then used q + 1 else used q)"
    and deq_ok: "inv q \<Longrightarrow> \<exists>q'. deq q = Some (if view q = [] then None else Some (hd (view q)), q') \<and> inv q'
        \<and> view q' = tl (view q) \<and> used q' \<le> used q \<and> (view q = [] \<longrightarrow> used q' = 0)"
    and cancel_ok: "inv q \<Longrightarrow> \<exists>q'. cancel x q = Some (x \<in> set (view q), q') \<and> inv q'
        \<and> view q' = remove1 x (view q) \<and> used q' = used q"
begin

text \<open>A sequence of calls: what was accepted and what came out.\<close>

fun run :: "'a qop list \<Rightarrow> 'q \<Rightarrow> ('a list \<times> 'a list \<times> 'q) option" where
  "run [] q = Some ([], [], q)"
| "run (Enq x # ops) q = Option.bind (enq x q) (\<lambda>(ok, q'). map_option (\<lambda>(i, out, q''). (if ok then x # i else i, out, q'')) (run ops q'))"
| "run (Deq # ops) q = Option.bind (deq q) (\<lambda>(r, q'). map_option (\<lambda>(i, out, q''). (i, (case r of None \<Rightarrow> out | Some x \<Rightarrow> x # out), q'')) (run ops q'))"
| "run (Cancel x # ops) q = Option.bind (cancel x q) (\<lambda>(ok, q'). run ops q')"

lemma run_fifo:
  "inv q \<Longrightarrow> \<exists>i out q'. run ops q = Some (i, out, q') \<and> inv q' \<and> subseq (out @ view q') (view q @ i)
     \<and> ((\<nexists>x. Cancel x \<in> set ops) \<longrightarrow> out @ view q' = view q @ i)"
proof (induction ops arbitrary: q)
  case Nil
  then show ?case by simp
next
  case (Cons op ops)
  show ?case
  proof (cases op)
    case (Enq x)
    obtain q1 where 1: "enq x q = Some (used q < cap, q1)" "inv q1" "view q1 = (if used q < cap then view q @ [x] else view q)"
      using enq_ok[OF Cons.prems] by blast
    obtain i out q' where 2: "run ops q1 = Some (i, out, q')" "inv q'" "subseq (out @ view q') (view q1 @ i)"
        "(\<nexists>x. Cancel x \<in> set ops) \<longrightarrow> out @ view q' = view q1 @ i"
      using Cons.IH[OF 1(2)] by blast
    show ?thesis using 1 2 Enq by (cases "used q < cap") auto
  next
    case Deq
    obtain q1 where 1: "deq q = Some (if view q = [] then None else Some (hd (view q)), q1)" "inv q1" "view q1 = tl (view q)"
      using deq_ok[OF Cons.prems] by blast
    obtain i out q' where 2: "run ops q1 = Some (i, out, q')" "inv q'" "subseq (out @ view q') (view q1 @ i)"
        "(\<nexists>x. Cancel x \<in> set ops) \<longrightarrow> out @ view q' = view q1 @ i"
      using Cons.IH[OF 1(2)] by blast
    show ?thesis using 1 2 Deq by (cases "view q") auto
  next
    case (Cancel x)
    obtain q1 where 1: "cancel x q = Some (x \<in> set (view q), q1)" "inv q1" "view q1 = remove1 x (view q)"
      using cancel_ok[OF Cons.prems] by blast
    obtain i out q' where 2: "run ops q1 = Some (i, out, q')" "inv q'" "subseq (out @ view q') (view q1 @ i)"
      using Cons.IH[OF 1(2)] by blast
    have "subseq (remove1 x xs) xs" for xs :: "'a list" by (induction xs) auto
    then have "subseq (view q1 @ i) (view q @ i)" unfolding 1(3) by simp
    then have "subseq (out @ view q') (view q @ i)" using 2(3) subseq_order.trans by blast
    then show ?thesis using 1 2 Cancel by auto
  qed
qed

text \<open>Removing \<open>n\<close> times returns the \<open>n\<close> that have waited longest, and what fits is accepted.\<close>

lemma run_drain:
  "inv q \<Longrightarrow> \<exists>q'. run (replicate n Deq) q = Some ([], take n (view q), q') \<and> inv q' \<and> view q' = drop n (view q)"
proof (induction n arbitrary: q)
  case (Suc n)
  obtain q1 where 1: "deq q = Some (if view q = [] then None else Some (hd (view q)), q1)" "inv q1" "view q1 = tl (view q)"
    using deq_ok[OF Suc.prems] by blast
  then show ?case using Suc.IH[OF 1(2)] by (cases "view q") auto
qed simp

lemma run_fill:
  "inv q \<Longrightarrow> used q + length xs \<le> cap \<Longrightarrow> \<exists>q'. run (map Enq xs) q = Some (xs, [], q') \<and> inv q' \<and> view q' = view q @ xs"
proof (induction xs arbitrary: q)
  case (Cons x xs)
  obtain q1 where 1: "enq x q = Some (True, q1)" "inv q1" "view q1 = view q @ [x]" "used q1 = used q + 1"
    using enq_ok[OF Cons.prems(1), of x] Cons.prems(2) by auto
  then show ?case using Cons.IH[OF 1(2)] Cons.prems(2) by auto
qed simp

end

subsection \<open>The ring buffer implements the interface\<close>

definition ring_at :: "WaitQueueInner \<Rightarrow> nat \<Rightarrow> TaskIdIndex option" where
  "ring_at q i = wq_buf q ! ((wq_head q + i) mod WQ_CAP)"

definition window :: "WaitQueueInner \<Rightarrow> TaskIdIndex option list" where
  "window q = map (ring_at q) [0..<wq_count q]"

definition live :: "TaskIdIndex option list \<Rightarrow> TaskIdIndex list" where
  "live xs = List.map_filter (\<lambda>x. x) xs"

definition ring_inv :: "WaitQueueInner \<Rightarrow> bool" where
  "ring_inv q \<longleftrightarrow> length (wq_buf q) = WQ_CAP \<and> wq_head q < WQ_CAP \<and> wq_tail q = (wq_head q + wq_count q) mod WQ_CAP \<and> wq_count q \<le> WQ_CAP"

definition wq_inv :: "WaitQueue \<Rightarrow> bool" where
  "wq_inv w \<longleftrightarrow> \<not> wq_lock w \<and> ring_inv (wq_inner w)"

definition waiting :: "WaitQueue \<Rightarrow> TaskIdIndex list" where
  "waiting w = live (window (wq_inner w))"

lemma live_simps [simp]: "live [] = []" "live (None # xs) = live xs" "live (Some x # xs) = x # live xs" "live (xs @ ys) = live xs @ live ys"
  by (simp_all add: live_def List.map_filter_def)

lemma length_live: "length (live xs) \<le> length xs"
  by (simp add: live_def List.map_filter_def)

lemma window_Suc: "0 < wq_count q \<Longrightarrow> window q = ring_at q 0 # map (\<lambda>i. ring_at q (Suc i)) [0..<wq_count q - 1]"
  by (cases "wq_count q") (simp_all add: window_def upt_conv_Cons map_Suc_upt[symmetric] o_def del: upt_Suc)

lemma mod_cap_inj: "i < WQ_CAP \<Longrightarrow> j < WQ_CAP \<Longrightarrow> (h + i) mod WQ_CAP = (h + j) mod WQ_CAP \<longleftrightarrow> i = j"
proof -
  have le: "i = j" if "i \<le> j" "j < WQ_CAP" "(h + i) mod WQ_CAP = (h + j) mod WQ_CAP" for i j
  proof -
    have "WQ_CAP dvd (h + j) - (h + i)" using that mod_eq_dvd_iff_nat[of "h + i" "h + j" WQ_CAP] by simp
    then have "WQ_CAP dvd j - i" by simp
    then show ?thesis using that(1,2) dvd_imp_le[of WQ_CAP "j - i"] by linarith
  qed
  assume "i < WQ_CAP" "j < WQ_CAP"
  then show ?thesis using le[of i j] le[of j i] by (cases "i \<le> j") auto
qed

lemma ring_inv_bounds: "ring_inv q \<Longrightarrow> (wq_head q + i) mod WQ_CAP < length (wq_buf q)"
  by (simp add: ring_inv_def WQ_CAP_def)

lemma enqueue_window:
  fixes x :: TaskIdIndex
  assumes inv: "ring_inv q" and room: "wq_count q < WQ_CAP"
  defines "q' \<equiv> q\<lparr>wq_buf := (wq_buf q)[wq_tail q := Some x], wq_tail := (wq_tail q + 1) mod WQ_CAP, wq_count := wq_count q + 1\<rparr>"
  shows "ring_inv q'" "window q' = window q @ [Some x]"
proof -
  have t: "wq_tail q = (wq_head q + wq_count q) mod WQ_CAP" using inv by (simp add: ring_inv_def)
  show "ring_inv q'" using inv room by (simp add: ring_inv_def q'_def mod_Suc_eq)
  have new: "ring_at q' (wq_count q) = Some x"
    using inv t ring_inv_bounds[OF inv, of "wq_count q"] by (simp add: ring_at_def q'_def)
  have "ring_at q' i = ring_at q i" if "i < wq_count q" for i
    using mod_cap_inj[of i "wq_count q" "wq_head q"] that room t by (simp add: ring_at_def q'_def)
  then show "window q' = window q @ [Some x]" using new by (simp add: window_def q'_def[symmetric]) (simp add: q'_def)
qed

lemma dequeue_window:
  assumes inv: "ring_inv q" and n: "0 < wq_count q"
  defines "q' \<equiv> q\<lparr>wq_buf := (wq_buf q)[wq_head q := None], wq_head := (wq_head q + 1) mod WQ_CAP, wq_count := wq_count q - 1\<rparr>"
  shows "ring_inv q'" "window q = wq_buf q ! wq_head q # window q'"
proof -
  have h: "wq_head q < WQ_CAP" "wq_count q \<le> WQ_CAP" using inv by (auto simp: ring_inv_def)
  have "((wq_head q + 1) mod WQ_CAP + (wq_count q - 1)) mod WQ_CAP = (wq_head q + 1 + (wq_count q - 1)) mod WQ_CAP"
    by (rule mod_add_left_eq)
  then have "((wq_head q + 1) mod WQ_CAP + (wq_count q - 1)) mod WQ_CAP = (wq_head q + wq_count q) mod WQ_CAP" using n by simp
  moreover have "(wq_head q + 1) mod WQ_CAP < WQ_CAP" by (simp add: WQ_CAP_def)
  moreover have "wq_count q - 1 \<le> WQ_CAP" using h by simp
  ultimately show "ring_inv q'" using inv n unfolding ring_inv_def q'_def by simp
  have "ring_at q' i = ring_at q (Suc i)" if "i < wq_count q - 1" for i
  proof -
    have "((wq_head q + 1) mod WQ_CAP + i) mod WQ_CAP = (wq_head q + Suc i) mod WQ_CAP" by (simp add: mod_simps)
    moreover have "(wq_head q + Suc i) mod WQ_CAP \<noteq> wq_head q"
      using mod_cap_inj[of "Suc i" 0 "wq_head q"] that h by (simp add: WQ_CAP_def)
    ultimately show ?thesis by (simp add: ring_at_def q'_def)
  qed
  then have "map (\<lambda>i. ring_at q (Suc i)) [0..<wq_count q - 1] = window q'" by (simp add: window_def) (simp add: q'_def)
  moreover have "ring_at q 0 = wq_buf q ! wq_head q" using h by (simp add: ring_at_def)
  ultimately show "window q = wq_buf q ! wq_head q # window q'" using window_Suc[OF n] by simp
qed

lemma dequeue_loop_ok:
  assumes "ring_inv q"
  shows "\<exists>q'. dequeue_loop q = Some (if live (window q) = [] then None else Some (hd (live (window q))), q') \<and> ring_inv q'
     \<and> live (window q') = tl (live (window q)) \<and> wq_count q' \<le> wq_count q \<and> (live (window q) = [] \<longrightarrow> wq_count q' = 0)"
  using assms
proof (induction "wq_count q" arbitrary: q rule: less_induct)
  case less
  show ?case
  proof (cases "wq_count q = 0")
    case True
    then show ?thesis using less.prems by (simp add: dequeue_loop.simps window_def)
  next
    case False
    then have n: "0 < wq_count q" by simp
    let ?q = "q\<lparr>wq_buf := (wq_buf q)[wq_head q := None], wq_head := (wq_head q + 1) mod WQ_CAP, wq_count := wq_count q - 1\<rparr>"
    note d = dequeue_window[OF less.prems n]
    have b: "wq_head q < length (wq_buf q)" "wq_head q + 1 \<le> USIZE_MAX" using less.prems by (auto simp: ring_inv_def WQ_CAP_def USIZE_MAX_def)
    have step: "dequeue_loop q = (if wq_buf q ! wq_head q \<noteq> None then Some (wq_buf q ! wq_head q, ?q) else dequeue_loop ?q)"
      using False b n by (subst dequeue_loop.simps) (simp add: Let_def)
    show ?thesis
    proof (cases "wq_buf q ! wq_head q")
      case None
      have lt: "wq_count ?q < wq_count q" using n by simp
      show ?thesis using less.hyps[OF lt d(1)] step None d(2) lt by auto
    next
      case (Some x)
      then show ?thesis using step d n by auto
    qed
  qed
qed

lemma cancel_loop_ok:
  assumes inv: "ring_inv q" and w: "i = (wq_head q + k) mod WQ_CAP" "k + n = wq_count q" and pre: "Some x \<notin> ring_at q ` {..<k}"
  shows "\<exists>q'. cancel_loop x n i q = Some (Some x \<in> ring_at q ` {k..<wq_count q}, q') \<and> ring_inv q' \<and> wq_count q' = wq_count q
     \<and> (case find (\<lambda>j. ring_at q j = Some x) [k..<wq_count q] of None \<Rightarrow> q' = q | Some j \<Rightarrow> window q' = (window q)[j := None])"
  using w pre
proof (induction n arbitrary: i k)
  case 0
  then show ?case using inv by simp
next
  case (Suc n)
  have b: "i < length (wq_buf q)" using ring_inv_bounds[OF inv] Suc.prems(1) by simp
  have k: "k < wq_count q" "wq_count q \<le> WQ_CAP" using Suc.prems(2) inv by (auto simp: ring_inv_def)
  have up: "[k..<wq_count q] = k # [Suc k..<wq_count q]" using k(1) by (rule upt_conv_Cons)
  have at: "wq_buf q ! i = ring_at q k" using Suc.prems(1) by (simp add: ring_at_def)
  show ?case
  proof (cases "ring_at q k = Some x")
    case True
    let ?q = "q\<lparr>wq_buf := (wq_buf q)[i := None]\<rparr>"
    have "ring_at ?q j = (if j = k then None else ring_at q j)" if "j < wq_count q" for j
      using mod_cap_inj[of j k "wq_head q"] that k b Suc.prems(1) by (cases "j = k") (simp_all add: ring_at_def nth_list_update)
    then have "window ?q = (window q)[k := None]"
      using k(1) by (intro nth_equalityI) (simp_all add: window_def nth_list_update)
    moreover have "ring_inv ?q" using inv by (simp add: ring_inv_def)
    moreover have "cancel_loop x (Suc n) i q = Some (True, ?q)" using True at b by simp
    moreover have "Some x \<in> ring_at q ` {k..<wq_count q}" using True k(1) by (intro image_eqI[of _ _ k]) auto
    ultimately show ?thesis using True up by (intro exI[of _ ?q]) (simp del: cancel_loop.simps)
  next
    case False
    have "i + 1 \<le> USIZE_MAX" using b inv by (simp add: ring_inv_def WQ_CAP_def USIZE_MAX_def)
    then have "cancel_loop x (Suc n) i q = cancel_loop x n ((i + 1) mod WQ_CAP) q" using False at b by simp
    moreover have "(i + 1) mod WQ_CAP = (wq_head q + Suc k) mod WQ_CAP" using Suc.prems(1) by (simp add: mod_Suc_eq)
    moreover have "Some x \<notin> ring_at q ` {..<Suc k}" using Suc.prems(3) False by (auto simp: lessThan_Suc)
    moreover have "ring_at q ` {k..<wq_count q} = insert (ring_at q k) (ring_at q ` {Suc k..<wq_count q})"
    proof -
      have "{k..<wq_count q} = insert k {Suc k..<wq_count q}" using k(1) by auto
      then show ?thesis by simp
    qed
    ultimately show ?thesis using Suc.IH[of "(i + 1) mod WQ_CAP" "Suc k"] Suc.prems(2) False up by auto
  qed
qed

lemma live_remove_first:
  assumes "j < length xs" "xs ! j = Some x" "\<forall>k < j. xs ! k \<noteq> Some x"
  shows "live (xs[j := None]) = remove1 x (live xs)"
  using assms
proof (induction xs arbitrary: j)
  case (Cons y ys)
  show ?case
  proof (cases j)
    case 0
    then show ?thesis using Cons.prems by simp
  next
    case (Suc i)
    then have "y \<noteq> Some x" "\<forall>k < i. ys ! k \<noteq> Some x" using Cons.prems(3) by auto
    then show ?thesis using Cons.IH[of i] Cons.prems Suc by (cases y) auto
  qed
qed simp

lemma set_live: "x \<in> set (live xs) \<longleftrightarrow> Some x \<in> set xs"
  by (force simp: live_def List.map_filter_def)

lemma wq_cancel_ok:
  assumes "wq_inv w"
  shows "\<exists>w'. wq_cancel x w = Some (x \<in> set (waiting w), w') \<and> wq_inv w' \<and> waiting w' = remove1 x (waiting w)
     \<and> wq_count (wq_inner w') = wq_count (wq_inner w)"
proof -
  let ?q = "wq_inner w"
  have inv: "ring_inv ?q" "\<not> wq_lock w" using assms by (auto simp: wq_inv_def)
  have hd: "wq_head ?q = (wq_head ?q + 0) mod WQ_CAP" using inv by (simp add: ring_inv_def)
  obtain q' where c: "cancel_loop x (wq_count ?q) (wq_head ?q) ?q = Some (Some x \<in> ring_at ?q ` {0..<wq_count ?q}, q')"
      "ring_inv q'" "wq_count q' = wq_count ?q"
      "case find (\<lambda>j. ring_at ?q j = Some x) [0..<wq_count ?q] of None \<Rightarrow> q' = ?q | Some j \<Rightarrow> window q' = (window ?q)[j := None]"
    using cancel_loop_ok[OF inv(1) hd, of "wq_count ?q" x] by auto
  have mem: "Some x \<in> ring_at ?q ` {0..<wq_count ?q} \<longleftrightarrow> x \<in> set (waiting w)"
    by (simp add: waiting_def set_live window_def)
  have "live (window q') = remove1 x (live (window ?q))"
  proof (cases "find (\<lambda>j. ring_at ?q j = Some x) [0..<wq_count ?q]")
    case None
    then have "Some x \<notin> set (window ?q)" by (auto simp: find_None_iff window_def)
    then have "x \<notin> set (live (window ?q))" by (simp add: set_live)
    then show ?thesis using None c(4) by (simp add: remove1_idem)
  next
    case (Some j)
    then obtain m where m: "m < length [0..<wq_count ?q]" "ring_at ?q ([0..<wq_count ?q] ! m) = Some x" "j = [0..<wq_count ?q] ! m"
        "\<forall>k < m. ring_at ?q ([0..<wq_count ?q] ! k) \<noteq> Some x"
      unfolding find_Some_iff by blast
    then have j: "j < wq_count ?q" "ring_at ?q j = Some x" "\<forall>k < j. ring_at ?q k \<noteq> Some x" by simp_all
    then show ?thesis using Some c(4) live_remove_first[of j "window ?q" x] by (simp add: window_def)
  qed
  then show ?thesis using c mem inv(2)
    by (simp add: wq_cancel_def wq_acquire_def wq_release_def waiting_def wq_inv_def)
qed

lemma wq_enqueue_ok:
  assumes "wq_inv w"
  shows "\<exists>w'. wq_enqueue x w = Some (wq_count (wq_inner w) < WQ_CAP, w') \<and> wq_inv w'
     \<and> waiting w' = (if wq_count (wq_inner w) < WQ_CAP then waiting w @ [x] else waiting w)
     \<and> wq_count (wq_inner w') = (if wq_count (wq_inner w) < WQ_CAP then wq_count (wq_inner w) + 1 else wq_count (wq_inner w))"
proof -
  let ?q = "wq_inner w"
  have inv: "ring_inv ?q" "\<not> wq_lock w" using assms by (auto simp: wq_inv_def)
  then have b: "wq_tail ?q < length (wq_buf ?q)" "wq_tail ?q + 1 \<le> USIZE_MAX" "wq_count ?q + 1 \<le> USIZE_MAX"
    by (auto simp: ring_inv_def WQ_CAP_def USIZE_MAX_def)
  show ?thesis
  proof (cases "wq_count ?q < WQ_CAP")
    case True
    then show ?thesis using inv b enqueue_window[OF inv(1) True, of x]
      by (simp add: wq_enqueue_def wq_acquire_def wq_release_def waiting_def wq_inv_def Let_def)
  next
    case False
    then show ?thesis using inv by (simp add: wq_enqueue_def wq_acquire_def wq_release_def waiting_def wq_inv_def Let_def)
  qed
qed

lemma wq_dequeue_ok:
  assumes "wq_inv w"
  shows "\<exists>w'. wq_dequeue w = Some (if waiting w = [] then None else Some (hd (waiting w)), w') \<and> wq_inv w' \<and> waiting w' = tl (waiting w)
     \<and> wq_count (wq_inner w') \<le> wq_count (wq_inner w) \<and> (waiting w = [] \<longrightarrow> wq_count (wq_inner w') = 0)"
  using dequeue_loop_ok[of "wq_inner w"] assms
  by (auto simp: wq_dequeue_def wq_acquire_def wq_release_def waiting_def wq_inv_def)

interpretation wq: wait_queue wq_inv waiting "\<lambda>w. wq_count (wq_inner w)" WQ_CAP wq_enqueue wq_dequeue wq_cancel
proof unfold_locales
  show "length (waiting q) \<le> wq_count (wq_inner q) \<and> wq_count (wq_inner q) \<le> WQ_CAP" if "wq_inv q" for q
    using that length_live[of "window (wq_inner q)"] by (simp add: wq_inv_def ring_inv_def waiting_def window_def)
qed (blast intro: wq_enqueue_ok wq_dequeue_ok wq_cancel_ok)+

lemma wq_new_inv: "wq_inv wq_new" "waiting wq_new = []"
  by (simp_all add: wq_inv_def wq_new_def ring_inv_def WQ_CAP_def waiting_def window_def)

subsection \<open>Properties\<close>

text \<open>C18. The ring buffer of waiting tasks refines a bounded list. Enqueueing appends and takes one place, and is
refused exactly when all sixteen places are taken; dequeueing returns and removes the task that has
waited longest, and nothing when no task waits, in which case every place is free afterwards; the
loop that skips cancelled places always ends. Cancelling removes the first occurrence of a task and
tells whether it was there, but frees no place. No more tasks wait than places are taken, so that no
task waits in a queue that reports to be empty. All of them release the lock and keep the invariant
of the ring.\<close>

theorem wait_queue_refines_list:
  assumes "wq_inv w"
  shows "(\<exists>w'. wq_enqueue x w = Some (wq_count (wq_inner w) < WQ_CAP, w') \<and> wq_inv w'
        \<and> waiting w' = (if wq_count (wq_inner w) < WQ_CAP then waiting w @ [x] else waiting w)
        \<and> wq_count (wq_inner w') = (if wq_count (wq_inner w) < WQ_CAP then wq_count (wq_inner w) + 1 else wq_count (wq_inner w)))
     \<and> (\<exists>w'. wq_dequeue w = Some (case waiting w of [] \<Rightarrow> None | y # _ \<Rightarrow> Some y, w') \<and> wq_inv w' \<and> waiting w' = tl (waiting w)
        \<and> wq_count (wq_inner w') \<le> wq_count (wq_inner w) \<and> (waiting w = [] \<longrightarrow> wq_is_empty w'))
     \<and> (\<exists>w'. wq_cancel x w = Some (x \<in> set (waiting w), w') \<and> wq_inv w' \<and> waiting w' = remove1 x (waiting w)
        \<and> wq_count (wq_inner w') = wq_count (wq_inner w) \<and> wq_is_empty w' = wq_is_empty w)
     \<and> length (waiting w) \<le> wq_count (wq_inner w) \<and> wq_count (wq_inner w) \<le> WQ_CAP
     \<and> (wq_is_empty w \<longrightarrow> waiting w = [])"
  using wq.enq_ok[OF assms, of x] wq.deq_ok[OF assms] wq.cancel_ok[OF assms, of x] wq.view_used[OF assms]
  by (cases "waiting w") (auto simp: wq_is_empty_def)

theorem wait_queue_refines_list_witness:
  "\<exists>w. wq_enqueue 5 wq_new = Some (True, w) \<and> waiting w = [5]"
  using wait_queue_refines_list[OF wq_new_inv(1), of 5] wq_new_inv(2) by (auto simp: wq_new_def WQ_CAP_def)

text \<open>A sequence of calls on an endpoint: the receivers that were accepted, and the tasks that the sends woke.\<close>

datatype EpOp = Recv TaskIdIndex | Send FastMessage | CancelRecv TaskIdIndex

fun ep_run :: "EpOp list \<Rightarrow> Endpoint \<Rightarrow> (TaskIdIndex list \<times> TaskIdIndex list \<times> Endpoint) option" where
  "ep_run [] e = Some ([], [], e)"
| "ep_run (Recv t # ops) e = do {
     (r, e1) \<leftarrow> ep_try_recv t e;
     (accepted, woken, e2) \<leftarrow> ep_run ops e1;
     Some (case r of Inr _ \<Rightarrow> t # accepted | Inl _ \<Rightarrow> accepted, woken, e2)
   }"
| "ep_run (Send msg # ops) e = do {
     (r, e1) \<leftarrow> ep_try_send msg e;
     (accepted, woken, e2) \<leftarrow> ep_run ops e1;
     Some (accepted, case r of Inr (Some t) \<Rightarrow> t # woken | _ \<Rightarrow> woken, e2)
   }"
| "ep_run (CancelRecv t # ops) e = do {
     (_, e1) \<leftarrow> ep_cancel_recv t e;
     ep_run ops e1
   }"

fun queue_op :: "EpOp \<Rightarrow> TaskIdIndex qop" where
  "queue_op (Recv t) = Enq t"
| "queue_op (Send msg) = Deq"
| "queue_op (CancelRecv t) = Cancel t"

lemma ep_run_queue:
  assumes "\<not> ep_closed e"
  shows "ep_run ops e = map_option (\<lambda>(i, out, q). (i, out, e\<lparr>ep_recv_queue := q\<rparr>)) (wq.run (map queue_op ops) (ep_recv_queue e))"
  using assms
proof (induction ops arbitrary: e)
  case (Cons op ops)
  have IH: "ep_run ops (e\<lparr>ep_recv_queue := q\<rparr>)
      = map_option (\<lambda>(i, out, q'). (i, out, e\<lparr>ep_recv_queue := q'\<rparr>)) (wq.run (map queue_op ops) q)" for q
    using Cons.IH[of "e\<lparr>ep_recv_queue := q\<rparr>"] Cons.prems by simp
  show ?case
  proof (cases op)
    case (Recv t)
    then show ?thesis using Cons.prems IH
      by (cases "wq_enqueue t (ep_recv_queue e)")
        (auto simp: ep_try_recv_def map_option_case split: option.splits prod.splits)
  next
    case (Send msg)
    then show ?thesis using Cons.prems IH
      by (cases "wq_dequeue (ep_recv_queue e)")
        (auto simp: ep_try_send_def map_option_case split: option.splits prod.splits)
  next
    case (CancelRecv t)
    then show ?thesis using Cons.prems IH
      by (cases "wq_cancel t (ep_recv_queue e)") (auto simp: ep_cancel_recv_def split: prod.splits)
  qed
qed simp



text \<open>A task that starts to wait and gives up, again and again.\<close>

fun recv_and_cancel :: "nat \<Rightarrow> TaskIdIndex \<Rightarrow> Endpoint \<Rightarrow> Endpoint option" where
  "recv_and_cancel 0 t e = Some e"
| "recv_and_cancel (Suc n) t e = do {
     (_, e1) \<leftarrow> ep_try_recv t e;
     (_, e2) \<leftarrow> ep_cancel_recv t e1;
     recv_and_cancel n t e2
   }"

lemma recv_and_cancel_ok:
  assumes "wq_inv (ep_recv_queue e)" "\<not> ep_closed e" "waiting (ep_recv_queue e) = []" "wq_count (wq_inner (ep_recv_queue e)) + n \<le> WQ_CAP"
  shows "\<exists>e'. recv_and_cancel n t e = Some e' \<and> wq_inv (ep_recv_queue e') \<and> \<not> ep_closed e' \<and> waiting (ep_recv_queue e') = []
     \<and> wq_count (wq_inner (ep_recv_queue e')) = wq_count (wq_inner (ep_recv_queue e)) + n"
  using assms
proof (induction n arbitrary: e)
  case (Suc n)
  let ?w = "ep_recv_queue e"
  obtain w1 where 1: "wq_enqueue t ?w = Some (True, w1)" "wq_inv w1" "waiting w1 = [t]" "wq_count (wq_inner w1) = wq_count (wq_inner ?w) + 1"
    using wq_enqueue_ok[OF Suc.prems(1), of t] Suc.prems(3,4) by auto
  obtain w2 where 2: "wq_cancel t w1 = Some (True, w2)" "wq_inv w2" "waiting w2 = []" "wq_count (wq_inner w2) = wq_count (wq_inner w1)"
    using wq_cancel_ok[OF 1(2), of t] 1(3) by auto
  have "recv_and_cancel (Suc n) t e = recv_and_cancel n t (e\<lparr>ep_recv_queue := w2\<rparr>)"
    using 1(1) 2(1) Suc.prems(2) by (simp add: ep_try_recv_def ep_cancel_recv_def)
  then show ?case using Suc.IH[of "e\<lparr>ep_recv_queue := w2\<rparr>"] 1(4) 2(2-4) Suc.prems(2,4) by auto
qed simp

text \<open>C20. A cancelled place stays taken until a sender passes it: after sixteen rounds of receiving and
cancelling on a new endpoint no task waits, and yet the endpoint reports a waiting receiver and
refuses the next one. The next send wakes nobody and frees all the places.\<close>

theorem cancelled_places_fill_queue:
  "\<exists>e e' e''. recv_and_cancel 16 t (ep_new_with_id i) = Some e \<and> waiting (ep_recv_queue e) = [] \<and> ep_has_waiting_receiver e
     \<and> ep_try_recv s e = Some (Inl NotReady, e')
     \<and> ep_try_send msg e = Some (Inr None, e'') \<and> \<not> ep_has_waiting_receiver e''"
proof -
  have new: "wq_inv (ep_recv_queue (ep_new_with_id i))" "\<not> ep_closed (ep_new_with_id i)" "waiting (ep_recv_queue (ep_new_with_id i)) = []"
      "wq_count (wq_inner (ep_recv_queue (ep_new_with_id i))) = 0" "16 \<le> WQ_CAP"
    using wq_new_inv by (simp_all add: ep_new_with_id_def WQ_CAP_def) (simp add: wq_new_def)
  obtain e where e: "recv_and_cancel 16 t (ep_new_with_id i) = Some e" "wq_inv (ep_recv_queue e)" "\<not> ep_closed e"
      "waiting (ep_recv_queue e) = []" "wq_count (wq_inner (ep_recv_queue e)) = 16"
    using recv_and_cancel_ok[of "ep_new_with_id i" 16 t] new by auto
  obtain w1 where 1: "wq_enqueue s (ep_recv_queue e) = Some (False, w1)"
    using wq_enqueue_ok[OF e(2), of s] e(5) by (auto simp: WQ_CAP_def)
  obtain w2 where 2: "wq_dequeue (ep_recv_queue e) = Some (None, w2)" "wq_count (wq_inner w2) = 0"
    using wq_dequeue_ok[OF e(2)] e(4) by auto
  show ?thesis using e 1 2 by (simp add: ep_try_recv_def ep_try_send_def ep_has_waiting_receiver_def wq_is_empty_def)
qed

text \<open>A sequence of calls on a notification, with what each did to the badges: those a wait returned, those a
poll saw, and those a clear removed.\<close>

datatype NotifOp = Signal u64 | Wait TaskIdIndex | Poll | Clear u64

datatype NotifEvent = Returned u64 | Polled u64 | Cleared u64

fun notif_run :: "NotifOp list \<Rightarrow> Notification \<Rightarrow> NotifEvent list \<times> Notification" where
  "notif_run [] n = ([], n)"
| "notif_run (Signal b # ops) n = notif_run ops (snd (notif_signal b n))"
| "notif_run (Wait t # ops) n =
     (let (r, n1) = notif_wait t n; (evs, n2) = notif_run ops n1
      in ((case r of None \<Rightarrow> evs | Some d \<Rightarrow> Returned d # evs), n2))"
| "notif_run (Poll # ops) n = (let (evs, n2) = notif_run ops n in (Polled (notif_poll n) # evs, n2))"
| "notif_run (Clear m # ops) n =
     (let n1 = notif_clear m n; (evs, n2) = notif_run ops n1
      in (Cleared (n_badges n AND NOT (n_badges n1)) # evs, n2))"

text \<open>How many signals carried a bit, how many times it was removed, and whether a poll saw it.\<close>

fun signals :: "nat \<Rightarrow> NotifOp list \<Rightarrow> nat" where
  "signals k [] = 0"
| "signals k (Signal b # ops) = of_bool (bit b k) + signals k ops"
| "signals k (_ # ops) = signals k ops"

fun removed :: "nat \<Rightarrow> NotifEvent list \<Rightarrow> nat" where
  "removed k [] = 0"
| "removed k (Returned d # evs) = of_bool (bit d k) + removed k evs"
| "removed k (Cleared d # evs) = of_bool (bit d k) + removed k evs"
| "removed k (Polled d # evs) = removed k evs"

fun seen :: "nat \<Rightarrow> NotifEvent list \<Rightarrow> bool" where
  "seen k [] = False"
| "seen k (Polled d # evs) = (bit d k \<or> seen k evs)"
| "seen k (_ # evs) = seen k evs"


end
