(* ===== verification/Ipc.thy ===== *)
theory Ipc
  imports Ipc_Endpoint
begin

text \<open>
  \<open>ipc/mod.rs\<close>: the tables of endpoints and notifications, the messages kept for woken tasks, and
  the send, receive, call and reply operations.
\<close>

subsection \<open>Definitions\<close>

definition MAX_ENDPOINTS :: usize where "MAX_ENDPOINTS = 256"
definition MAX_NOTIFICATIONS :: usize where "MAX_NOTIFICATIONS = 256"

record EndpointTable =
  et_endpoints :: "Endpoint option list"
  et_notifications :: "Notification option list"

definition et_new :: EndpointTable where
  "et_new = \<lparr>et_endpoints = replicate MAX_ENDPOINTS None, et_notifications = replicate MAX_NOTIFICATIONS None\<rparr>"

text \<open>The loop of \<open>create_endpoint\<close>: the first empty slot takes the endpoint.\<close>

fun fill_slot :: "Endpoint \<Rightarrow> Endpoint option list \<Rightarrow> (Endpoint option list) option" where
  "fill_slot e [] = None"
| "fill_slot e (s # ss) = (if s = None then Some (Some e # ss) else map_option ((#) s) (fill_slot e ss))"

definition et_create_endpoint :: "TaskIdIndex \<Rightarrow> EndpointTable \<Rightarrow> EndpointId option \<times> EndpointTable" where
  "et_create_endpoint task_id t =
     (let e = ep_new_with_id (endpoint_id_new (ucast task_id))
      in case fill_slot e (et_endpoints t) of
           None \<Rightarrow> (None, t)
         | Some es \<Rightarrow> (Some (ep_id e), t\<lparr>et_endpoints := es\<rparr>))"

text \<open>\<open>get_endpoint\<close> gives a reference to the first endpoint with the identifier; here its place.\<close>

fun find_ep :: "EndpointId \<Rightarrow> Endpoint option list \<Rightarrow> usize option" where
  "find_ep i [] = None"
| "find_ep i (s # ss) = (case s of
      Some e \<Rightarrow> if ep_id e = i then Some 0 else map_option Suc (find_ep i ss)
    | None \<Rightarrow> map_option Suc (find_ep i ss))"

definition et_get_endpoint :: "EndpointTable \<Rightarrow> EndpointId \<Rightarrow> (usize \<times> Endpoint) option" where
  "et_get_endpoint t i = (case find_ep i (et_endpoints t) of
      None \<Rightarrow> None
    | Some k \<Rightarrow> map_option (Pair k) (et_endpoints t ! k))"

definition et_put :: "usize \<Rightarrow> Endpoint \<Rightarrow> EndpointTable \<Rightarrow> EndpointTable" where
  "et_put k e t = t\<lparr>et_endpoints := (et_endpoints t)[k := Some e]\<rparr>"

text \<open>The endpoint is closed and then dropped with its slot.\<close>

fun clear_slot :: "EndpointId \<Rightarrow> Endpoint option list \<Rightarrow> Endpoint option list" where
  "clear_slot i [] = []"
| "clear_slot i (s # ss) = (case s of
      Some e \<Rightarrow> if ep_id e = i then None # ss else s # clear_slot i ss
    | None \<Rightarrow> s # clear_slot i ss)"

definition et_destroy_endpoint :: "EndpointId \<Rightarrow> EndpointTable \<Rightarrow> EndpointTable" where
  "et_destroy_endpoint i t = t\<lparr>et_endpoints := clear_slot i (et_endpoints t)\<rparr>"

datatype IpcResult = WakeReceiver TaskIdIndex | BlockCurrent | ResNotReady | Done | Error IpcError

record IpcManager =
  im_table :: EndpointTable
  im_pending :: "u32 \<rightharpoonup> FastMessage"

definition im_new :: IpcManager where
  "im_new = \<lparr>im_table = et_new, im_pending = Map.empty\<rparr>"

definition im_create_endpoint :: "TaskIdIndex \<Rightarrow> IpcManager \<Rightarrow> EndpointId option \<times> IpcManager" where
  "im_create_endpoint task_id m = (let (r, t) = et_create_endpoint task_id (im_table m) in (r, m\<lparr>im_table := t\<rparr>))"

definition im_destroy_endpoint :: "EndpointId \<Rightarrow> IpcManager \<Rightarrow> IpcManager" where
  "im_destroy_endpoint i m = m\<lparr>im_table := et_destroy_endpoint i (im_table m)\<rparr>"

definition store_pending_message :: "u32 \<Rightarrow> FastMessage \<Rightarrow> IpcManager \<Rightarrow> IpcManager" where
  "store_pending_message task_id msg m = m\<lparr>im_pending := (im_pending m)(task_id \<mapsto> msg)\<rparr>"

definition take_pending_message :: "u32 \<Rightarrow> IpcManager \<Rightarrow> FastMessage option \<times> IpcManager" where
  "take_pending_message task_id m = (im_pending m task_id, m\<lparr>im_pending := (im_pending m)(task_id := None)\<rparr>)"

definition handle_send :: "TaskIdIndex \<Rightarrow> EndpointId \<Rightarrow> FastMessage \<Rightarrow> IpcManager \<Rightarrow> (IpcResult \<times> IpcManager) option" where
  "handle_send sender_id i msg m =
     (case et_get_endpoint (im_table m) i of
        None \<Rightarrow> Some (Error InvalidEndpoint, m)
      | Some (k, e) \<Rightarrow> do {
          (r, e') \<leftarrow> ep_try_send msg e;
          let m' = m\<lparr>im_table := et_put k e' (im_table m)\<rparr>;
          Some (case r of
              Inr (Some receiver) \<Rightarrow> (WakeReceiver receiver, store_pending_message receiver msg m')
            | Inr None \<Rightarrow> (ResNotReady, m')
            | Inl err \<Rightarrow> (Error err, m'))
        })"

definition handle_recv :: "TaskIdIndex \<Rightarrow> EndpointId \<Rightarrow> IpcManager \<Rightarrow> (IpcResult \<times> IpcManager) option" where
  "handle_recv receiver_id i m =
     (case et_get_endpoint (im_table m) i of
        None \<Rightarrow> Some (Error InvalidEndpoint, m)
      | Some (k, e) \<Rightarrow> do {
          (r, e') \<leftarrow> ep_try_recv receiver_id e;
          let m' = m\<lparr>im_table := et_put k e' (im_table m)\<rparr>;
          Some (case r of Inr _ \<Rightarrow> (BlockCurrent, m') | Inl err \<Rightarrow> (Error err, m'))
        })"

definition handle_call :: "TaskIdIndex \<Rightarrow> EndpointId \<Rightarrow> FastMessage \<Rightarrow> IpcManager \<Rightarrow> (IpcResult \<times> IpcManager) option" where
  "handle_call caller_id i msg m = handle_send caller_id i msg m"

definition handle_reply :: "TaskIdIndex \<Rightarrow> FastMessage \<Rightarrow> IpcManager \<Rightarrow> IpcResult \<times> IpcManager" where
  "handle_reply caller_id reply_msg m = (WakeReceiver caller_id, store_pending_message caller_id reply_msg m)"

text \<open>The loop of \<open>validate_caps\<close> over the capabilities of the message.\<close>

fun validate_each :: "Capability list \<Rightarrow> Capability list \<Rightarrow> IpcError + unit" where
  "validate_each [] sender_caps = Inr ()"
| "validate_each (c # cs) sender_caps =
     (if cap_is_null c then validate_each cs sender_caps
      else case find (\<lambda>own. cap_handle own = cap_handle c) sender_caps of
        None \<Rightarrow> Inl NoPermission
      | Some owned \<Rightarrow>
          if \<not> rights_contains (cap_rights owned) RIGHTS_GRANT then Inl NoGrant
          else if \<not> rights_contains (cap_rights owned) (cap_rights c) then Inl NoPermission
          else validate_each cs sender_caps)"

definition validate_caps :: "FastMessage \<Rightarrow> Capability list \<Rightarrow> (IpcError + unit) option" where
  "validate_caps msg sender_caps = do {
     cs \<leftarrow> msg_caps msg;
     Some (validate_each cs sender_caps)
   }"

subsection \<open>The endpoints of the table\<close>

definition endpoint_of :: "EndpointTable \<Rightarrow> EndpointId \<Rightarrow> Endpoint option" where
  "endpoint_of t i = map_option snd (et_get_endpoint t i)"

definition im_inv :: "IpcManager \<Rightarrow> bool" where
  "im_inv m \<longleftrightarrow> length (et_endpoints (im_table m)) = MAX_ENDPOINTS
     \<and> (\<forall>e. Some e \<in> set (et_endpoints (im_table m)) \<longrightarrow> wq_inv (ep_recv_queue e))"

lemma find_ep_Some: "find_ep i es = Some k \<Longrightarrow> k < length es \<and> (\<exists>e. es ! k = Some e \<and> ep_id e = i) \<and> (\<forall>j < k. \<forall>e. es ! j = Some e \<longrightarrow> ep_id e \<noteq> i)"
proof (induction es arbitrary: k)
  case (Cons s ss)
  show ?case
  proof (cases "\<exists>e. s = Some e \<and> ep_id e = i")
    case True
    then show ?thesis using Cons.prems by auto
  next
    case False
    then have "find_ep i (s # ss) = map_option Suc (find_ep i ss)" by (cases s) auto
    then obtain j where "find_ep i ss = Some j" "k = Suc j" using Cons.prems by auto
    then show ?thesis using Cons.IH[of j] False by (auto simp: less_Suc_eq_0_disj)
  qed
qed simp

lemma find_ep_None: "find_ep i es = None \<longleftrightarrow> (\<forall>e. Some e \<in> set es \<longrightarrow> ep_id e \<noteq> i)"
  by (induction es) (auto split: option.splits)

lemma find_ep_eqI:
  assumes "l < length es" "\<exists>e. es ! l = Some e \<and> ep_id e = i" "\<forall>j < l. \<forall>e. es ! j = Some e \<longrightarrow> ep_id e \<noteq> i"
  shows "find_ep i es = Some l"
proof -
  obtain e where e: "es ! l = Some e" "ep_id e = i" using assms(2) by blast
  then have "Some e \<in> set es" using assms(1) nth_mem by metis
  then obtain k where k: "find_ep i es = Some k" using find_ep_None[of i es] e by fastforce
  obtain d where d: "es ! k = Some d" "ep_id d = i" "\<forall>j < k. \<forall>e. es ! j = Some e \<longrightarrow> ep_id e \<noteq> i" using find_ep_Some[OF k] by blast
  have "\<not> k < l" "\<not> l < k" using assms(3) d e by blast+
  then show ?thesis using k by simp
qed

lemma fill_slot_Some:
  "fill_slot e es = Some es' \<Longrightarrow> \<exists>k < length es. es' = es[k := Some e] \<and> es ! k = None \<and> (\<forall>l < k. es ! l \<noteq> None)"
proof (induction es arbitrary: es')
  case (Cons s ss)
  show ?case
  proof (cases "s = None")
    case True
    then show ?thesis using Cons.prems by (intro exI[of _ 0]) auto
  next
    case False
    then obtain ss' where ss': "fill_slot e ss = Some ss'" "es' = s # ss'" using Cons.prems by auto
    then obtain k where "k < length ss" "ss' = ss[k := Some e]" "ss ! k = None" "\<forall>l < k. ss ! l \<noteq> None" using Cons.IH by blast
    then show ?thesis using False ss'(2) by (intro exI[of _ "Suc k"]) (auto simp: less_Suc_eq_0_disj)
  qed
qed simp

lemma find_ep_upd:
  assumes "find_ep i es = Some k" "ep_id e' = i"
  shows "find_ep j (es[k := Some e']) = find_ep j es"
proof -
  obtain e where e: "k < length es" "es ! k = Some e" "ep_id e = i" using find_ep_Some[OF assms(1)] by blast
  show ?thesis using e assms(2)
  proof (induction es arbitrary: k)
    case (Cons s ss)
    then show ?case by (cases k) (auto split: option.splits)
  qed simp
qed

lemma et_get_endpoint_eq:
  "et_get_endpoint t i = (case find_ep i (et_endpoints t) of None \<Rightarrow> None | Some k \<Rightarrow> Some (k, the (et_endpoints t ! k)))"
  by (auto simp: et_get_endpoint_def split: option.splits dest: find_ep_Some)

lemma endpoint_put:
  assumes "et_get_endpoint t i = Some (k, e)" "ep_id e' = i"
  shows "endpoint_of (et_put k e' t) = (endpoint_of t)(i \<mapsto> e')"
proof (rule ext)
  fix j
  have k: "find_ep i (et_endpoints t) = Some k" "k < length (et_endpoints t)" "et_endpoints t ! k = Some e" "ep_id e = i"
    using assms(1) find_ep_Some by (fastforce simp: et_get_endpoint_eq split: option.splits)+
  have same: "find_ep j (et_endpoints (et_put k e' t)) = find_ep j (et_endpoints t)"
    using find_ep_upd[OF k(1) assms(2)] by (simp add: et_put_def)
  show "endpoint_of (et_put k e' t) j = ((endpoint_of t)(i \<mapsto> e')) j"
  proof (cases "j = i")
    case True
    then show ?thesis using same k by (simp add: endpoint_of_def et_get_endpoint_eq et_put_def)
  next
    case False
    have "l \<noteq> k" if "find_ep j (et_endpoints t) = Some l" for l using find_ep_Some[OF that] k False by auto
    then show ?thesis using same False
      by (auto simp: endpoint_of_def et_get_endpoint_eq et_put_def split: option.splits)
  qed
qed

lemma endpoint_wq_inv: "im_inv m \<Longrightarrow> et_get_endpoint (im_table m) i = Some (k, e) \<Longrightarrow> wq_inv (ep_recv_queue e) \<and> ep_id e = i"
proof -
  assume inv: "im_inv m" and g: "et_get_endpoint (im_table m) i = Some (k, e)"
  have f: "find_ep i (et_endpoints (im_table m)) = Some k" "e = the (et_endpoints (im_table m) ! k)"
    using g by (auto simp: et_get_endpoint_eq split: option.splits)
  have k: "k < length (et_endpoints (im_table m))" "et_endpoints (im_table m) ! k = Some e" "ep_id e = i"
    using find_ep_Some[OF f(1)] f(2) by auto
  then have "Some e \<in> set (et_endpoints (im_table m))" using nth_mem by metis
  then show ?thesis using inv k(3) by (auto simp: im_inv_def)
qed

lemma im_inv_put:
  assumes "im_inv m" "wq_inv (ep_recv_queue e')"
  shows "im_inv (m\<lparr>im_table := et_put k e' (im_table m)\<rparr>)" "im_inv (m\<lparr>im_table := et_put k e' (im_table m), im_pending := p\<rparr>)"
  using assms set_update_subset_insert[of "et_endpoints (im_table m)" k "Some e'"] by (auto simp: im_inv_def et_put_def)

lemma endpoint_of_get: "endpoint_of t i = Some e \<Longrightarrow> \<exists>k. et_get_endpoint t i = Some (k, e)"
  by (auto simp: endpoint_of_def)

lemma handle_send_ok:
  assumes inv: "im_inv m"
  shows "\<exists>r m'. handle_send s i msg m = Some (r, m') \<and> im_inv m'
     \<and> (case endpoint_of (im_table m) i of
          None \<Rightarrow> r = Error InvalidEndpoint \<and> m' = m
        | Some e \<Rightarrow>
            if ep_closed e then r = Error EndpointClosed \<and> endpoint_of (im_table m') = endpoint_of (im_table m) \<and> im_pending m' = im_pending m
            else \<exists>e'. endpoint_of (im_table m') = (endpoint_of (im_table m))(i \<mapsto> e') \<and> ep_id e' = i \<and> \<not> ep_closed e'
              \<and> waiting (ep_recv_queue e') = tl (waiting (ep_recv_queue e))
              \<and> (case waiting (ep_recv_queue e) of
                   [] \<Rightarrow> r = ResNotReady \<and> im_pending m' = im_pending m
                 | t # _ \<Rightarrow> r = WakeReceiver t \<and> im_pending m' = (im_pending m)(t \<mapsto> msg)))"
proof (cases "endpoint_of (im_table m) i")
  case None
  then have "et_get_endpoint (im_table m) i = None" by (simp add: endpoint_of_def)
  then show ?thesis using None inv by (simp add: handle_send_def)
next
  case (Some e)
  then obtain k where k: "et_get_endpoint (im_table m) i = Some (k, e)" using endpoint_of_get by blast
  have w: "wq_inv (ep_recv_queue e)" "ep_id e = i" using endpoint_wq_inv[OF inv k] by auto
  show ?thesis
  proof (cases "ep_closed e")
    case True
    have "endpoint_of (et_put k e (im_table m)) = endpoint_of (im_table m)"
      using endpoint_put[OF k w(2)] Some by (auto simp: fun_eq_iff)
    then show ?thesis using True k Some im_inv_put[OF inv w(1), where k = k] by (simp add: handle_send_def ep_try_send_def Let_def)
  next
    case False
    obtain q where q: "wq_dequeue (ep_recv_queue e) = Some (if waiting (ep_recv_queue e) = [] then None else Some (hd (waiting (ep_recv_queue e))), q)"
        "wq_inv q" "waiting q = tl (waiting (ep_recv_queue e))"
      using wq.deq_ok[OF w(1)] by blast
    let ?e = "e\<lparr>ep_recv_queue := q\<rparr>"
    have "endpoint_of (et_put k ?e (im_table m)) = (endpoint_of (im_table m))(i \<mapsto> ?e)" using endpoint_put[OF k] w(2) by simp
    then show ?thesis using False k Some w(2) q im_inv_put[OF inv, where e' = ?e and k = k]
      by (cases "waiting (ep_recv_queue e)")
        (auto simp: handle_send_def ep_try_send_def Let_def store_pending_message_def intro!: exI[of _ ?e])
  qed
qed

lemma handle_recv_ok:
  assumes inv: "im_inv m"
  shows "\<exists>r m'. handle_recv t i m = Some (r, m') \<and> im_inv m' \<and> im_pending m' = im_pending m
     \<and> (case endpoint_of (im_table m) i of
          None \<Rightarrow> r = Error InvalidEndpoint \<and> m' = m
        | Some e \<Rightarrow>
            if ep_closed e then r = Error EndpointClosed \<and> endpoint_of (im_table m') = endpoint_of (im_table m)
            else \<exists>e'. endpoint_of (im_table m') = (endpoint_of (im_table m))(i \<mapsto> e') \<and> ep_id e' = i \<and> \<not> ep_closed e'
              \<and> (if wq_count (wq_inner (ep_recv_queue e)) < WQ_CAP
                 then r = BlockCurrent \<and> waiting (ep_recv_queue e') = waiting (ep_recv_queue e) @ [t]
                 else r = Error NotReady \<and> waiting (ep_recv_queue e') = waiting (ep_recv_queue e)))"
proof (cases "endpoint_of (im_table m) i")
  case None
  then have "et_get_endpoint (im_table m) i = None" by (simp add: endpoint_of_def)
  then show ?thesis using None inv by (simp add: handle_recv_def)
next
  case (Some e)
  then obtain k where k: "et_get_endpoint (im_table m) i = Some (k, e)" using endpoint_of_get by blast
  have w: "wq_inv (ep_recv_queue e)" "ep_id e = i" using endpoint_wq_inv[OF inv k] by auto
  show ?thesis
  proof (cases "ep_closed e")
    case True
    have "endpoint_of (et_put k e (im_table m)) = endpoint_of (im_table m)"
      using endpoint_put[OF k w(2)] Some by (auto simp: fun_eq_iff)
    then show ?thesis using True k Some im_inv_put[OF inv w(1), where k = k] by (simp add: handle_recv_def ep_try_recv_def Let_def)
  next
    case False
    let ?c = "wq_count (wq_inner (ep_recv_queue e)) < WQ_CAP"
    obtain q where q: "wq_enqueue t (ep_recv_queue e) = Some (?c, q)"
        "wq_inv q" "waiting q = (if ?c then waiting (ep_recv_queue e) @ [t] else waiting (ep_recv_queue e))"
      using wq.enq_ok[OF w(1), of t] by blast
    let ?e = "e\<lparr>ep_recv_queue := q\<rparr>"
    have "endpoint_of (et_put k ?e (im_table m)) = (endpoint_of (im_table m))(i \<mapsto> ?e)" using endpoint_put[OF k] w(2) by simp
    then show ?thesis using False k Some w(2) q im_inv_put[OF inv, where e' = ?e and k = k]
      by (cases ?c) (auto simp: handle_recv_def ep_try_recv_def Let_def intro!: exI[of _ ?e])
  qed
qed

lemma im_new_inv: "im_inv im_new"
  by (auto simp: im_inv_def im_new_def et_new_def)

lemma create_on_new: "\<exists>m e. im_create_endpoint 9 im_new = (Some 9, m) \<and> im_inv m \<and> endpoint_of (im_table m) 9 = Some e \<and> \<not> ep_closed e
     \<and> waiting (ep_recv_queue e) = [] \<and> wq_count (wq_inner (ep_recv_queue e)) < WQ_CAP"
proof -
  let ?e = "ep_new_with_id 9" and ?es = "Some (ep_new_with_id 9) # replicate 255 None"
  have r: "replicate 256 None = None # replicate 255 (None :: Endpoint option)"
    by (simp only: replicate_Suc[symmetric]) simp
  have "im_create_endpoint 9 im_new = (Some 9, im_new\<lparr>im_table := et_new\<lparr>et_endpoints := ?es\<rparr>\<rparr>)"
    by (simp add: im_create_endpoint_def et_create_endpoint_def im_new_def et_new_def MAX_ENDPOINTS_def r endpoint_id_new_def Let_def)
      (simp add: ep_new_with_id_def)
  moreover have "im_inv (im_new\<lparr>im_table := et_new\<lparr>et_endpoints := ?es\<rparr>\<rparr>)"
    using wq_new_inv by (auto simp: im_inv_def MAX_ENDPOINTS_def ep_new_with_id_def)
  moreover have "endpoint_of (et_new\<lparr>et_endpoints := ?es\<rparr>) 9 = Some ?e"
    by (simp add: endpoint_of_def et_get_endpoint_eq ep_new_with_id_def)
  moreover have "\<not> ep_closed ?e" "waiting (ep_recv_queue ?e) = []" "wq_count (wq_inner (ep_recv_queue ?e)) < WQ_CAP"
    using wq_new_inv by (simp_all add: ep_new_with_id_def) (simp add: wq_new_def WQ_CAP_def)
  ultimately show ?thesis by (intro exI[of _ "im_new\<lparr>im_table := et_new\<lparr>et_endpoints := ?es\<rparr>\<rparr>"] exI[of _ ?e]) simp
qed

subsection \<open>Properties\<close>

text \<open>C22. Sending never panics, and what it does is determined by the tasks that wait: without the endpoint or
on a closed one it is an error and nothing changes for any task; when no task waits the sender is
told so; otherwise exactly the task that has waited longest is woken, it leaves the queue, and the
message is kept for it and for no other task. Other endpoints do not change.\<close>

theorem handle_send_correct:
  assumes "im_inv m"
  shows "\<exists>r m'. handle_send s i msg m = Some (r, m') \<and> im_inv m'
     \<and> (case endpoint_of (im_table m) i of
          None \<Rightarrow> r = Error InvalidEndpoint \<and> m' = m
        | Some e \<Rightarrow>
            if ep_closed e then r = Error EndpointClosed \<and> endpoint_of (im_table m') = endpoint_of (im_table m) \<and> im_pending m' = im_pending m
            else \<exists>e'. endpoint_of (im_table m') = (endpoint_of (im_table m))(i \<mapsto> e') \<and> ep_id e' = i \<and> \<not> ep_closed e'
              \<and> waiting (ep_recv_queue e') = tl (waiting (ep_recv_queue e))
              \<and> (case waiting (ep_recv_queue e) of
                   [] \<Rightarrow> r = ResNotReady \<and> im_pending m' = im_pending m
                 | t # _ \<Rightarrow> r = WakeReceiver t \<and> im_pending m' = (im_pending m)(t \<mapsto> msg)))"
  by (rule handle_send_ok[OF assms])

theorem handle_send_correct_witness:
  "handle_send 1 9 (msg_empty 4) im_new = Some (Error InvalidEndpoint, im_new)
   \<and> (\<exists>m m1 m2. im_create_endpoint 9 im_new = (Some 9, m) \<and> handle_recv 5 9 m = Some (BlockCurrent, m1)
        \<and> handle_send 6 9 (msg_empty 77) m1 = Some (WakeReceiver 5, m2) \<and> im_pending m2 = (im_pending m1)(5 \<mapsto> msg_empty 77))"
proof -
  have "find_ep 9 (replicate n None) = None" for n by (induction n) auto
  then have "endpoint_of (im_table im_new) 9 = None"
    by (simp add: endpoint_of_def im_new_def et_new_def et_get_endpoint_eq)
  then have 1: "handle_send 1 9 (msg_empty 4) im_new = Some (Error InvalidEndpoint, im_new)"
    using handle_send_correct[OF im_new_inv, of 1 9 "msg_empty 4"] by auto
  obtain m e where m: "im_create_endpoint 9 im_new = (Some 9, m)" "im_inv m" "endpoint_of (im_table m) 9 = Some e" "\<not> ep_closed e"
      "waiting (ep_recv_queue e) = []" "wq_count (wq_inner (ep_recv_queue e)) < WQ_CAP"
    using create_on_new by blast
  obtain m1 e1 where r: "handle_recv 5 9 m = Some (BlockCurrent, m1)" "im_inv m1" "endpoint_of (im_table m1) 9 = Some e1"
      "\<not> ep_closed e1" "waiting (ep_recv_queue e1) = [5]"
    using handle_recv_ok[OF m(2), of 5 9] m(3-6) by auto
  have "\<exists>m2. handle_send 6 9 (msg_empty 77) m1 = Some (WakeReceiver 5, m2) \<and> im_pending m2 = (im_pending m1)(5 \<mapsto> msg_empty 77)"
    using handle_send_correct[OF r(2), of 6 9 "msg_empty 77"] r(3-5) by auto
  then show ?thesis using 1 m(1) r(1) by blast
qed

text \<open>C23. Rendezvous: when a task blocks on an open endpoint at which nobody waits, and another task then
sends, the first task is woken, and the message it then takes is the one that was sent. After that
nobody waits, and a second take finds nothing.\<close>

theorem rendezvous_delivers:
  assumes "im_inv m" "endpoint_of (im_table m) i = Some e" "\<not> ep_closed e" "waiting (ep_recv_queue e) = []"
    and "handle_recv t i m = Some (BlockCurrent, m1)"
  shows "\<exists>m2. handle_send s i msg m1 = Some (WakeReceiver t, m2)
     \<and> fst (take_pending_message t m2) = Some msg \<and> fst (take_pending_message t (snd (take_pending_message t m2))) = None
     \<and> (\<exists>e'. endpoint_of (im_table m2) i = Some e' \<and> waiting (ep_recv_queue e') = [])"
proof -
  obtain e1 where 1: "im_inv m1" "endpoint_of (im_table m1) = (endpoint_of (im_table m))(i \<mapsto> e1)" "\<not> ep_closed e1" "waiting (ep_recv_queue e1) = [t]"
    using handle_recv_ok[OF assms(1), of t i] assms(2-5) by (auto split: if_splits)
  obtain m2 e2 where 2: "handle_send s i msg m1 = Some (WakeReceiver t, m2)" "endpoint_of (im_table m2) = (endpoint_of (im_table m1))(i \<mapsto> e2)"
      "waiting (ep_recv_queue e2) = []" "im_pending m2 = (im_pending m1)(t \<mapsto> msg)"
    using handle_send_ok[OF 1(1), of s i msg] 1(2-4) by auto
  then show ?thesis by (auto simp: take_pending_message_def)
qed

theorem rendezvous_delivers_witness:
  "\<exists>m m1 m2. im_create_endpoint 9 im_new = (Some 9, m) \<and> handle_recv 5 9 m = Some (BlockCurrent, m1)
     \<and> handle_send 6 9 (msg_empty 77) m1 = Some (WakeReceiver 5, m2) \<and> fst (take_pending_message 5 m2) = Some (msg_empty 77)"
proof -
  obtain m e where m: "im_create_endpoint 9 im_new = (Some 9, m)" "im_inv m" "endpoint_of (im_table m) 9 = Some e" "\<not> ep_closed e"
      "waiting (ep_recv_queue e) = []" "wq_count (wq_inner (ep_recv_queue e)) < WQ_CAP"
    using create_on_new by blast
  obtain m1 where r: "handle_recv 5 9 m = Some (BlockCurrent, m1)"
    using handle_recv_ok[OF m(2), of 5 9] m(3-6) by auto
  show ?thesis using rendezvous_delivers[OF m(2-5) r, of 6 "msg_empty 77"] m(1) r by blast
qed

text \<open>C24. The check of the capabilities in a message never panics on a well-formed message, and accepts exactly
when, for every capability with rights that the message carries, the first capability of the sender
with the same handle carries the grant right and all the rights that are passed on. Later
capabilities of the sender with that handle do not count: a sender that holds a handle first for
reading and then with all rights is refused.\<close>

theorem validate_caps_exact:
  assumes "m_n_caps msg \<le> length (m_caps msg)"
  shows "\<exists>r. validate_caps msg owned = Some r
     \<and> (r = Inr () \<longleftrightarrow> (\<forall>c \<in> set (take (m_n_caps msg) (m_caps msg)). cap_rights c \<noteq> 0 \<longrightarrow>
          (\<exists>own. find (\<lambda>o'. cap_handle o' = cap_handle c) owned = Some own
             \<and> rights_contains (cap_rights own) RIGHTS_GRANT \<and> rights_contains (cap_rights own) (cap_rights c))))"
proof -
  have "validate_each cs owned = Inr () \<longleftrightarrow> (\<forall>c \<in> set cs. cap_rights c \<noteq> 0 \<longrightarrow>
          (\<exists>own. find (\<lambda>o'. cap_handle o' = cap_handle c) owned = Some own
             \<and> rights_contains (cap_rights own) RIGHTS_GRANT \<and> rights_contains (cap_rights own) (cap_rights c)))" for cs
    by (induction cs) (auto simp: cap_is_null_def RIGHTS_NONE_def split: option.splits)
  then show ?thesis using assms by (simp add: validate_caps_def msg_caps_def)
qed

theorem validate_caps_exact_witness:
  "validate_caps ((msg_empty 4)\<lparr>m_caps := [cap_new (cap_handle demo_cap) RIGHTS_READ, CAP_NULL, CAP_NULL, CAP_NULL], m_n_caps := 1\<rparr>)
       [cap_new (cap_handle demo_cap) RIGHTS_ALL] = Some (Inr ())
   \<and> validate_caps ((msg_empty 4)\<lparr>m_caps := [cap_new (cap_handle demo_cap) RIGHTS_READ, CAP_NULL, CAP_NULL, CAP_NULL], m_n_caps := 1\<rparr>)
       [cap_new (cap_handle demo_cap) RIGHTS_READ, cap_new (cap_handle demo_cap) RIGHTS_ALL] \<noteq> Some (Inr ())"
proof -
  let ?msg = "(msg_empty 4)\<lparr>m_caps := [cap_new (cap_handle demo_cap) RIGHTS_READ, CAP_NULL, CAP_NULL, CAP_NULL], m_n_caps := 1\<rparr>"
  show ?thesis
    using validate_caps_exact[of ?msg "[cap_new (cap_handle demo_cap) RIGHTS_ALL]"]
      validate_caps_exact[of ?msg "[cap_new (cap_handle demo_cap) RIGHTS_READ, cap_new (cap_handle demo_cap) RIGHTS_ALL]"]
    by (auto simp: cap_new_def rights_contains_def RIGHTS_READ_def RIGHTS_GRANT_def RIGHTS_ALL_def)
qed

text \<open>C25. Endpoint identifiers are the numbers of the creating tasks, so a task that creates an endpoint while
one with its number exists gets the same identifier again. Both endpoints are then in the table, in
different slots, and a lookup reaches only the one in the lower slot: the old one when the first free
slot lies above it, otherwise the new one, so that the old one can no longer be reached.\<close>

theorem duplicate_endpoint_shadowed:
  assumes "et_get_endpoint et (endpoint_id_new (ucast t)) = Some (k, e)" "et_create_endpoint t et = (Some i, et')"
  shows "i = endpoint_id_new (ucast t)
     \<and> (\<exists>j < length (et_endpoints et). j \<noteq> k \<and> et_endpoints et ! j = None \<and> (\<forall>l < j. et_endpoints et ! l \<noteq> None)
          \<and> et_endpoints et' ! k = Some e
          \<and> et_endpoints et' ! j = Some (ep_new_with_id i)
          \<and> et_get_endpoint et' i = (if k < j then Some (k, e) else Some (j, ep_new_with_id i)))"
proof -
  let ?i = "endpoint_id_new (ucast t)" and ?e = "ep_new_with_id (endpoint_id_new (ucast t))"
  obtain es where f: "fill_slot ?e (et_endpoints et) = Some es" "et' = et\<lparr>et_endpoints := es\<rparr>" "i = ?i"
    using assms(2) by (auto simp: et_create_endpoint_def ep_new_with_id_def Let_def split: option.splits)
  have k: "find_ep ?i (et_endpoints et) = Some k" "k < length (et_endpoints et)" "et_endpoints et ! k = Some e" "ep_id e = ?i"
      "\<forall>j < k. \<forall>e. et_endpoints et ! j = Some e \<longrightarrow> ep_id e \<noteq> ?i"
    using assms(1) find_ep_Some by (fastforce simp: et_get_endpoint_eq split: option.splits)+
  obtain j where j: "j < length (et_endpoints et)" "es = (et_endpoints et)[j := Some ?e]" "et_endpoints et ! j = None" "\<forall>l < j. et_endpoints et ! l \<noteq> None"
    using fill_slot_Some[OF f(1)] by blast
  have jk: "j \<noteq> k" using j(3) k(3) by auto
  have id: "ep_id ?e = ?i" by (simp add: ep_new_with_id_def)
  have "find_ep ?i es = Some (min k j)"
  proof (rule find_ep_eqI)
    show "\<forall>l < min k j. \<forall>e. es ! l = Some e \<longrightarrow> ep_id e \<noteq> ?i" using j(2) k(5) by (metis min_less_iff_conj nat_neq_iff nth_list_update_neq)
  qed (use j k jk id in \<open>auto simp: min_def nth_list_update\<close>)
  then have "et_get_endpoint et' i = (if k < j then Some (k, e) else Some (j, ?e))"
    using f(2,3) j k(3) jk by (auto simp: et_get_endpoint_eq min_def)
  then show ?thesis using f j k jk by (intro conjI exI[of _ j]) auto
qed

theorem duplicate_endpoint_shadowed_witness:
  "\<exists>et1 et2 et3. et_create_endpoint 3 et_new = (Some 3, et1) \<and> et_create_endpoint 9 et1 = (Some 9, et2)
     \<and> et_create_endpoint 9 (et_destroy_endpoint 3 et2) = (Some 9, et3)
     \<and> map_option fst (et_get_endpoint et2 9) = Some 1 \<and> map_option fst (et_get_endpoint et3 9) = Some 0"
proof -
  have r: "replicate 256 None = None # None # replicate 254 (None :: Endpoint option)"
    by (simp only: replicate_Suc[symmetric]) simp
  let ?e = "ep_new_with_id 9" and ?d = "ep_new_with_id 3"
  let ?t = "\<lambda>s0 s1. et_new\<lparr>et_endpoints := s0 # s1 # replicate 254 None\<rparr>"
  have 1: "et_create_endpoint 3 et_new = (Some 3, ?t (Some ?d) None)"
    by (simp add: et_create_endpoint_def et_new_def MAX_ENDPOINTS_def r endpoint_id_new_def Let_def) (simp add: ep_new_with_id_def)
  have 2: "et_create_endpoint 9 (?t (Some ?d) None) = (Some 9, ?t (Some ?d) (Some ?e))"
    by (simp add: et_create_endpoint_def endpoint_id_new_def Let_def) (simp add: ep_new_with_id_def)
  have 3: "et_destroy_endpoint 3 (?t (Some ?d) (Some ?e)) = ?t None (Some ?e)"
    by (simp add: et_destroy_endpoint_def ep_new_with_id_def)
  have 4: "et_create_endpoint 9 (?t None (Some ?e)) = (Some 9, ?t (Some ?e) (Some ?e))"
    by (simp add: et_create_endpoint_def endpoint_id_new_def Let_def) (simp add: ep_new_with_id_def)
  have g: "et_get_endpoint (?t (Some ?d) (Some ?e)) 9 = Some (1, ?e)" "et_get_endpoint (?t None (Some ?e)) (endpoint_id_new (ucast (9 :: TaskIdIndex))) = Some (1, ?e)"
    by (simp_all add: et_get_endpoint_def ep_new_with_id_def endpoint_id_new_def)
  obtain j where j: "\<forall>l < j. et_endpoints (?t None (Some ?e)) ! l \<noteq> None"
      "et_get_endpoint (?t (Some ?e) (Some ?e)) 9 = (if 1 < j then Some (1, ?e) else Some (j, ?e))"
    using duplicate_endpoint_shadowed[OF g(2) 4] by blast
  have "j = 0" using j(1) by (cases j) auto
  then show ?thesis using 1 2 3 4 g(1) j(2) by (intro exI[of _ "?t (Some ?d) None"] exI[of _ "?t (Some ?d) (Some ?e)"] exI[of _ "?t (Some ?e) (Some ?e)"]) simp
qed

end
