(* ===== verification/Run_Queue.thy ===== *)
theory Run_Queue
  imports Anvil_Prelude "HOL-Library.Multiset"
begin

text \<open>
  \<open>scheduler/cpu_local.rs\<close>: the run queue of a processor, a deque from which the owner takes at the
  bottom and the other processors steal at the top, and the per-processor record. The first part
  models each operation run on its own. The second part models the operations at the grain of
  their atomic accesses, one owner and any number of stealers interleaved under sequential
  consistency. A task is named by its address, with 0 for the null pointer.
\<close>

subsection \<open>Definitions\<close>

type_synonym TaskPtr = usize

definition RQ_CAP :: usize where "RQ_CAP = 1024"

record Runqueue =
  rq_top :: usize
  rq_bottom :: usize
  rq_buf :: "TaskPtr list"

definition rq_new :: Runqueue where
  "rq_new = \<lparr>rq_top = 0, rq_bottom = 0, rq_buf = replicate RQ_CAP 0\<rparr>"

definition wrapping_add :: "usize \<Rightarrow> usize \<Rightarrow> usize" where
  "wrapping_add a b = (a + b) mod 2 ^ 64"

definition wrapping_sub :: "usize \<Rightarrow> usize \<Rightarrow> usize" where
  "wrapping_sub a b = (if b \<le> a then a - b else a + 2 ^ 64 - b)"

text \<open>A full queue panics.\<close>

definition rq_push :: "TaskPtr \<Rightarrow> Runqueue \<Rightarrow> Runqueue option" where
  "rq_push ptr q = do {
     let b = rq_bottom q;
     let t = rq_top q;
     rassert (wrapping_sub b t < RQ_CAP);
     buf \<leftarrow> arr_set (rq_buf q) (b mod RQ_CAP) ptr;
     Some (q\<lparr>rq_buf := buf, rq_bottom := wrapping_add b 1\<rparr>)
   }"

definition cas_top :: "usize \<Rightarrow> usize \<Rightarrow> Runqueue \<Rightarrow> bool \<times> Runqueue" where
  "cas_top old new q = (if rq_top q = old then (True, q\<lparr>rq_top := new\<rparr>) else (False, q))"

definition rq_pop :: "Runqueue \<Rightarrow> (TaskPtr option \<times> Runqueue) option" where
  "rq_pop q =
     (let b_orig = rq_bottom q; t_snap = rq_top q
      in if b_orig = t_snap then Some (None, q)
      else
        let b = wrapping_sub b_orig 1; q1 = q\<lparr>rq_bottom := b\<rparr>; t = rq_top q1
        in if t \<le> b then do {
             ptr \<leftarrow> arr_get (rq_buf q1) (b mod RQ_CAP);
             (lost, q2) \<leftarrow>
               Some (if t = b then
                       let (won, q') = cas_top t (wrapping_add t 1) q1
                       in (\<not> won, q'\<lparr>rq_bottom := wrapping_add b 1\<rparr>)
                     else (False, q1));
             if lost then Some (None, q2)
             else do {
               rassert (ptr \<noteq> 0);
               Some (Some ptr, q2)
             }
           }
           else Some (None, q1\<lparr>rq_bottom := wrapping_add b 1\<rparr>))"

text \<open>The loop of \<open>steal\<close>; not returning is \<open>None\<close>.\<close>

partial_function (option) rq_steal :: "Runqueue \<Rightarrow> (TaskPtr option \<times> Runqueue) option" where
  "rq_steal q =
     (let t = rq_top q; b = rq_bottom q
      in if t \<ge> b then Some (None, q)
      else do {
        ptr \<leftarrow> arr_get (rq_buf q) (t mod RQ_CAP);
        let (ok, q') = cas_top t (wrapping_add t 1) q;
        if ok then (if ptr = 0 then rq_steal q' else Some (Some ptr, q'))
        else rq_steal q'
      })"

declare rq_steal.simps [simp del]

fun rq_steal_n :: "nat \<Rightarrow> Runqueue \<Rightarrow> (TaskPtr list \<times> Runqueue) option" where
  "rq_steal_n 0 q = Some ([], q)"
| "rq_steal_n (Suc n) q = do {
     (r, q1) \<leftarrow> rq_steal q;
     case r of
       None \<Rightarrow> Some ([], q1)
     | Some task \<Rightarrow> do {
         (stolen, q2) \<leftarrow> rq_steal_n n q1;
         Some (task # stolen, q2)
       }
   }"

definition rq_len :: "Runqueue \<Rightarrow> usize" where
  "rq_len q = wrapping_sub (rq_bottom q) (rq_top q)"

record ExecCpu =
  ec_tasks :: Runqueue
  ec_curr_task :: TaskPtr
  ec_idle_task :: TaskPtr

definition ec_new :: "TaskPtr \<Rightarrow> ExecCpu" where
  "ec_new idle_task = \<lparr>ec_tasks = rq_new, ec_curr_task = 0, ec_idle_task = idle_task\<rparr>"

definition ec_accept_n_tasks :: "TaskPtr list \<Rightarrow> ExecCpu \<Rightarrow> ExecCpu option" where
  "ec_accept_n_tasks tasks c =
     for_each (\<lambda>task c. do { q \<leftarrow> rq_push task (ec_tasks c); Some (c\<lparr>ec_tasks := q\<rparr>) }) tasks c"

definition ec_get_curr_task :: "ExecCpu \<Rightarrow> TaskPtr" where
  "ec_get_curr_task c = ec_curr_task c"

definition ec_set_curr_task :: "TaskPtr \<Rightarrow> ExecCpu \<Rightarrow> ExecCpu" where
  "ec_set_curr_task p c = c\<lparr>ec_curr_task := p\<rparr>"

subsection \<open>The queue as a list\<close>

definition cells :: "TaskPtr list \<Rightarrow> usize \<Rightarrow> usize \<Rightarrow> TaskPtr list" where
  "cells buf t b = map (\<lambda>i. buf ! (i mod RQ_CAP)) [t..<b]"

definition rq_view :: "Runqueue \<Rightarrow> TaskPtr list" where
  "rq_view q = cells (rq_buf q) (rq_top q) (rq_bottom q)"

definition rq_inv :: "Runqueue \<Rightarrow> bool" where
  "rq_inv q \<longleftrightarrow> length (rq_buf q) = RQ_CAP \<and> rq_top q \<le> rq_bottom q \<and> rq_bottom q - rq_top q \<le> RQ_CAP
     \<and> rq_bottom q \<le> USIZE_MAX \<and> 0 \<notin> set (rq_view q)"

lemma mod_cap_neq: "i < j \<Longrightarrow> j < i + RQ_CAP \<Longrightarrow> i mod RQ_CAP \<noteq> j mod RQ_CAP"
proof
  assume ij: "i < j" "j < i + RQ_CAP" and eq: "i mod RQ_CAP = j mod RQ_CAP"
  have "RQ_CAP dvd j - i" using eq ij(1) mod_eq_dvd_iff_nat[of i j RQ_CAP] by simp
  then show False using ij dvd_imp_le[of RQ_CAP "j - i"] by linarith
qed

lemma cells_upd: "b < t + RQ_CAP \<Longrightarrow> cells (buf[b mod RQ_CAP := p]) t b = cells buf t b"
  unfolding cells_def by (rule map_cong) (use mod_cap_neq in force)+

lemma cells_Cons: "t < b \<Longrightarrow> cells buf t b = buf ! (t mod RQ_CAP) # cells buf (Suc t) b"
  by (simp add: cells_def upt_conv_Cons)

lemma cells_snoc: "t \<le> b \<Longrightarrow> cells buf t (Suc b) = cells buf t b @ [buf ! (b mod RQ_CAP)]"
  by (simp add: cells_def)

lemma cells_empty [simp]: "b \<le> t \<Longrightarrow> cells buf t b = []"
  by (simp add: cells_def)

lemma length_cells [simp]: "length (cells buf t b) = b - t"
  by (simp add: cells_def)

lemma RQ_CAP_pos [simp]: "0 < RQ_CAP"
  by (simp add: RQ_CAP_def)

lemma wrapping_ok [simp]:
  "b \<le> a \<Longrightarrow> wrapping_sub a b = a - b" "a + b \<le> USIZE_MAX \<Longrightarrow> wrapping_add a b = a + b"
  by (simp_all add: wrapping_sub_def wrapping_add_def USIZE_MAX_def)

lemma rq_push_ok:
  assumes inv: "rq_inv q" and p: "p \<noteq> 0" and room: "length (rq_view q) < RQ_CAP" "rq_bottom q < USIZE_MAX"
  shows "\<exists>q'. rq_push p q = Some q' \<and> rq_inv q' \<and> rq_view q' = rq_view q @ [p] \<and> rq_bottom q' = rq_bottom q + 1"
proof -
  let ?q = "q\<lparr>rq_buf := (rq_buf q)[rq_bottom q mod RQ_CAP := p], rq_bottom := rq_bottom q + 1\<rparr>"
  have len: "length (rq_buf q) = RQ_CAP" "rq_top q \<le> rq_bottom q" "rq_bottom q - rq_top q < RQ_CAP"
    using inv room by (auto simp: rq_inv_def rq_view_def)
  have idx: "rq_bottom q mod RQ_CAP < length (rq_buf q)" using len(1) by simp
  have run: "rq_push p q = Some ?q" using len idx room(2) by (simp add: rq_push_def Let_def)
  have "rq_view ?q = rq_view q @ [p]"
    using len idx cells_upd[of "rq_bottom q" "rq_top q" "rq_buf q" p] by (simp add: rq_view_def cells_snoc)
  moreover have "rq_inv ?q" using calculation inv len room(2) p by (auto simp: rq_inv_def)
  ultimately show ?thesis using run by auto
qed

lemma rq_push_full:
  assumes "rq_inv q" "length (rq_view q) = RQ_CAP"
  shows "rq_push p q = None"
  using assms by (auto simp: rq_push_def rq_inv_def rq_view_def Let_def rassert_def)

lemma rq_pop_ok:
  assumes inv: "rq_inv q"
  shows "\<exists>q'. rq_pop q = Some (if rq_view q = [] then None else Some (last (rq_view q)), q') \<and> rq_inv q' \<and> rq_view q' = butlast (rq_view q)
     \<and> rq_bottom q' \<le> rq_bottom q"
proof (cases "rq_bottom q = rq_top q")
  case True
  then have "rq_view q = []" by (simp add: rq_view_def)
  then show ?thesis using True inv by (simp add: rq_pop_def Let_def)
next
  case False
  have le: "length (rq_buf q) = RQ_CAP" "rq_top q < rq_bottom q" "rq_bottom q \<le> USIZE_MAX" "rq_bottom q - rq_top q \<le> RQ_CAP"
    using inv False by (auto simp: rq_inv_def)
  then obtain b where b: "rq_bottom q = Suc b" "rq_top q \<le> b" by (cases "rq_bottom q") auto
  have view: "rq_view q = cells (rq_buf q) (rq_top q) b @ [rq_buf q ! (b mod RQ_CAP)]" using b by (simp add: rq_view_def cells_snoc)
  have nz: "rq_buf q ! (b mod RQ_CAP) \<noteq> 0" "0 \<notin> set (cells (rq_buf q) (rq_top q) b)" using inv view by (auto simp: rq_inv_def)
  have idx: "b mod RQ_CAP < length (rq_buf q)" using le(1) by simp
  show ?thesis
  proof (cases "rq_top q = b")
    case True
    let ?q = "q\<lparr>rq_top := Suc b, rq_bottom := Suc b\<rparr>"
    have "rq_pop q = Some (Some (rq_buf q ! (b mod RQ_CAP)), ?q)"
      using b True idx nz le(3) by (simp add: rq_pop_def Let_def cas_top_def)
    moreover have "rq_inv ?q" "rq_view ?q = []" using le b by (auto simp: rq_inv_def rq_view_def)
    ultimately show ?thesis using view True b by simp
  next
    case False
    let ?q = "q\<lparr>rq_bottom := b\<rparr>"
    have "rq_pop q = Some (Some (rq_buf q ! (b mod RQ_CAP)), ?q)"
      using b False idx nz le(3) by (simp add: rq_pop_def Let_def)
    moreover have "rq_view ?q = cells (rq_buf q) (rq_top q) b" by (simp add: rq_view_def)
    moreover have "rq_inv ?q" using le b nz calculation(2) by (auto simp: rq_inv_def)
    ultimately show ?thesis using view b by simp
  qed
qed

lemma rq_steal_ok:
  assumes inv: "rq_inv q"
  shows "\<exists>q'. rq_steal q = Some (if rq_view q = [] then None else Some (hd (rq_view q)), q') \<and> rq_inv q' \<and> rq_view q' = tl (rq_view q)
     \<and> rq_bottom q' = rq_bottom q"
proof (cases "rq_top q < rq_bottom q")
  case False
  then have "rq_view q = []" by (simp add: rq_view_def)
  then show ?thesis using False inv by (subst rq_steal.simps) (simp add: Let_def)
next
  case True
  have le: "length (rq_buf q) = RQ_CAP" "rq_bottom q \<le> USIZE_MAX" "rq_bottom q - rq_top q \<le> RQ_CAP" using inv by (auto simp: rq_inv_def)
  have view: "rq_view q = rq_buf q ! (rq_top q mod RQ_CAP) # cells (rq_buf q) (Suc (rq_top q)) (rq_bottom q)"
    using True by (simp add: rq_view_def cells_Cons)
  have nz: "rq_buf q ! (rq_top q mod RQ_CAP) \<noteq> 0" "0 \<notin> set (cells (rq_buf q) (Suc (rq_top q)) (rq_bottom q))" using inv view by (auto simp: rq_inv_def)
  let ?q = "q\<lparr>rq_top := Suc (rq_top q)\<rparr>"
  have idx: "rq_top q mod RQ_CAP < length (rq_buf q)" using le(1) by simp
  have "rq_steal q = Some (Some (rq_buf q ! (rq_top q mod RQ_CAP)), ?q)"
    using True idx nz le by (subst rq_steal.simps) (simp add: Let_def cas_top_def)
  moreover have "rq_inv ?q" using le True nz by (auto simp: rq_inv_def rq_view_def)
  ultimately show ?thesis using view by (simp add: rq_view_def)
qed

lemma rq_steal_n_ok:
  assumes "rq_inv q"
  shows "\<exists>q'. rq_steal_n n q = Some (take n (rq_view q), q') \<and> rq_inv q' \<and> rq_view q' = drop n (rq_view q) \<and> rq_bottom q' = rq_bottom q"
  using assms
proof (induction n arbitrary: q)
  case (Suc n)
  obtain q1 where 1: "rq_steal q = Some (if rq_view q = [] then None else Some (hd (rq_view q)), q1)" "rq_inv q1" "rq_view q1 = tl (rq_view q)"
      "rq_bottom q1 = rq_bottom q"
    using rq_steal_ok[OF Suc.prems] by blast
  show ?case
  proof (cases "rq_view q")
    case Nil
    then show ?thesis using 1 by simp
  next
    case (Cons x xs)
    then show ?thesis using 1 Suc.IH[OF 1(2)] by auto
  qed
qed simp

lemma rq_len_view: "rq_inv q \<Longrightarrow> rq_len q = length (rq_view q)"
  by (simp add: rq_len_def rq_inv_def rq_view_def)

lemma rq_new_inv: "rq_inv rq_new" "rq_view rq_new = []"
  by (simp_all add: rq_inv_def rq_new_def rq_view_def)

subsection \<open>The operations interleaved\<close>

text \<open>
  The program counter of the owner holds the values the running call has loaded. \<open>PopDec b\<close> is
  the state after the store of the decremented bottom, \<open>PopRace b ptr\<close> the race for the last
  element and \<open>PopRestore b\<close> the state before bottom is stored back. The loads of bottom by
  the owner are merged with the next access, since only the owner stores to it.
\<close>

datatype OwnerPc =
    OIdle
  | PushRead TaskPtr usize usize
  | PushStored TaskPtr usize
  | PopBegin usize
  | PopDec usize
  | PopRace usize TaskPtr
  | PopRestore usize

datatype StealerPc = SIdle | STop usize | SBottom usize | SPtr usize TaskPtr

text \<open>The last two fields record every task made visible by a push and every task returned.\<close>

record RqState =
  rs_rq :: Runqueue
  rs_owner :: OwnerPc
  rs_stealer :: "nat \<Rightarrow> StealerPc"
  rs_pushed :: "TaskPtr list"
  rs_taken :: "TaskPtr list"

definition set_stealer :: "nat \<Rightarrow> StealerPc \<Rightarrow> RqState \<Rightarrow> RqState" where
  "set_stealer i pc s = s\<lparr>rs_stealer := (rs_stealer s)(i := pc)\<rparr>"

definition take_task :: "TaskPtr \<Rightarrow> RqState \<Rightarrow> RqState" where
  "take_task ptr s = s\<lparr>rs_taken := rs_taken s @ [ptr]\<rparr>"

text \<open>
  The steps of the owner and of the stealers. One guard is not in the code: \<open>push_publish\<close> requires
  that \<open>bottom\<close> does not wrap around, so that the runs considered are those with fewer than
  \<open>2 ^ 64\<close> pushes more than pops at the bottom.
\<close>

inductive rq_step :: "RqState \<Rightarrow> RqState \<Rightarrow> bool" where
  push_load: "rs_owner s = OIdle \<Longrightarrow> ptr \<noteq> 0 \<Longrightarrow>
     rq_step s (s\<lparr>rs_owner := PushRead ptr (rq_bottom (rs_rq s)) (rq_top (rs_rq s))\<rparr>)"
| push_store: "rs_owner s = PushRead ptr b t \<Longrightarrow> wrapping_sub b t < RQ_CAP \<Longrightarrow>
     rq_step s (s\<lparr>rs_rq := (rs_rq s)\<lparr>rq_buf := (rq_buf (rs_rq s))[b mod RQ_CAP := ptr]\<rparr>, rs_owner := PushStored ptr b\<rparr>)"
| push_publish: "rs_owner s = PushStored ptr b \<Longrightarrow> b < USIZE_MAX \<Longrightarrow>
     rq_step s (s\<lparr>rs_rq := (rs_rq s)\<lparr>rq_bottom := wrapping_add b 1\<rparr>, rs_owner := OIdle, rs_pushed := rs_pushed s @ [ptr]\<rparr>)"
| pop_load: "rs_owner s = OIdle \<Longrightarrow> rq_bottom (rs_rq s) \<noteq> rq_top (rs_rq s) \<Longrightarrow>
     rq_step s (s\<lparr>rs_owner := PopBegin (rq_bottom (rs_rq s))\<rparr>)"
| pop_dec: "rs_owner s = PopBegin b_orig \<Longrightarrow>
     rq_step s (s\<lparr>rs_rq := (rs_rq s)\<lparr>rq_bottom := wrapping_sub b_orig 1\<rparr>, rs_owner := PopDec (wrapping_sub b_orig 1)\<rparr>)"
| pop_take: "rs_owner s = PopDec b \<Longrightarrow> rq_top (rs_rq s) < b \<Longrightarrow> ptr = rq_buf (rs_rq s) ! (b mod RQ_CAP) \<Longrightarrow> ptr \<noteq> 0 \<Longrightarrow>
     rq_step s (take_task ptr (s\<lparr>rs_owner := OIdle\<rparr>))"
| pop_race: "rs_owner s = PopDec b \<Longrightarrow> rq_top (rs_rq s) = b \<Longrightarrow>
     rq_step s (s\<lparr>rs_owner := PopRace b (rq_buf (rs_rq s) ! (b mod RQ_CAP))\<rparr>)"
| pop_gone: "rs_owner s = PopDec b \<Longrightarrow> b < rq_top (rs_rq s) \<Longrightarrow>
     rq_step s (s\<lparr>rs_owner := PopRestore b\<rparr>)"
| pop_won: "rs_owner s = PopRace b ptr \<Longrightarrow> cas_top b (wrapping_add b 1) (rs_rq s) = (True, q) \<Longrightarrow> ptr \<noteq> 0 \<Longrightarrow>
     rq_step s (take_task ptr (s\<lparr>rs_rq := q, rs_owner := PopRestore b\<rparr>))"
| pop_lost: "rs_owner s = PopRace b ptr \<Longrightarrow> cas_top b (wrapping_add b 1) (rs_rq s) = (False, q) \<Longrightarrow>
     rq_step s (s\<lparr>rs_rq := q, rs_owner := PopRestore b\<rparr>)"
| pop_restore: "rs_owner s = PopRestore b \<Longrightarrow>
     rq_step s (s\<lparr>rs_rq := (rs_rq s)\<lparr>rq_bottom := wrapping_add b 1\<rparr>, rs_owner := OIdle\<rparr>)"
| steal_top: "rs_stealer s i = SIdle \<Longrightarrow> rq_step s (set_stealer i (STop (rq_top (rs_rq s))) s)"
| steal_empty: "rs_stealer s i = STop t \<Longrightarrow> rq_bottom (rs_rq s) \<le> t \<Longrightarrow> rq_step s (set_stealer i SIdle s)"
| steal_bottom: "rs_stealer s i = STop t \<Longrightarrow> t < rq_bottom (rs_rq s) \<Longrightarrow> rq_step s (set_stealer i (SBottom t) s)"
| steal_ptr: "rs_stealer s i = SBottom t \<Longrightarrow>
     rq_step s (set_stealer i (SPtr t (rq_buf (rs_rq s) ! (t mod RQ_CAP))) s)"
| steal_won: "rs_stealer s i = SPtr t ptr \<Longrightarrow> cas_top t (wrapping_add t 1) (rs_rq s) = (True, q) \<Longrightarrow>
     rq_step s ((if ptr = 0 then id else take_task ptr) (set_stealer i SIdle (s\<lparr>rs_rq := q\<rparr>)))"
| steal_lost: "rs_stealer s i = SPtr t ptr \<Longrightarrow> cas_top t (wrapping_add t 1) (rs_rq s) = (False, q) \<Longrightarrow>
     rq_step s (set_stealer i SIdle (s\<lparr>rs_rq := q\<rparr>))"

definition rs_init :: RqState where
  "rs_init = \<lparr>rs_rq = rq_new, rs_owner = OIdle, rs_stealer = (\<lambda>_. SIdle), rs_pushed = [], rs_taken = []\<rparr>"

inductive rq_reach :: "RqState \<Rightarrow> bool" where
  reach_init: "rq_reach rs_init"
| reach_step: "rq_reach s \<Longrightarrow> rq_step s s' \<Longrightarrow> rq_reach s'"

subsection \<open>The invariant of the interleaving\<close>

text \<open>
  While the owner is between the decrement of bottom and its decision, the element at the
  decremented index still belongs to the queue.
\<close>

fun owner_end :: "OwnerPc \<Rightarrow> usize \<Rightarrow> usize" where
  "owner_end (PopDec b) _ = Suc b"
| "owner_end (PopRace b _) _ = Suc b"
| "owner_end (PopRestore b) _ = Suc b"
| "owner_end _ bottom = bottom"

definition rs_end :: "RqState \<Rightarrow> usize" where
  "rs_end s = owner_end (rs_owner s) (rq_bottom (rs_rq s))"

definition rs_live :: "RqState \<Rightarrow> TaskPtr list" where
  "rs_live s = cells (rq_buf (rs_rq s)) (rq_top (rs_rq s)) (rs_end s)"

fun owner_ok :: "Runqueue \<Rightarrow> OwnerPc \<Rightarrow> bool" where
  "owner_ok q OIdle \<longleftrightarrow> True"
| "owner_ok q (PushRead p b t) \<longleftrightarrow> b = rq_bottom q \<and> t \<le> rq_top q \<and> p \<noteq> 0"
| "owner_ok q (PushStored p b) \<longleftrightarrow> b = rq_bottom q \<and> b < rq_top q + RQ_CAP \<and> rq_buf q ! (b mod RQ_CAP) = p \<and> p \<noteq> 0"
| "owner_ok q (PopBegin b) \<longleftrightarrow> b = rq_bottom q \<and> 0 < b"
| "owner_ok q (PopDec b) \<longleftrightarrow> b = rq_bottom q"
| "owner_ok q (PopRace b p) \<longleftrightarrow> b = rq_bottom q \<and> b \<le> rq_top q \<and> p = rq_buf q ! (b mod RQ_CAP)"
| "owner_ok q (PopRestore b) \<longleftrightarrow> b = rq_bottom q \<and> rq_top q = Suc b"

fun stealer_ok :: "Runqueue \<Rightarrow> usize \<Rightarrow> StealerPc \<Rightarrow> bool" where
  "stealer_ok q e SIdle \<longleftrightarrow> True"
| "stealer_ok q e (STop t) \<longleftrightarrow> t \<le> rq_top q"
| "stealer_ok q e (SBottom t) \<longleftrightarrow> t \<le> rq_top q \<and> (t = rq_top q \<longrightarrow> t < e)"
| "stealer_ok q e (SPtr t p) \<longleftrightarrow> t \<le> rq_top q \<and> (t = rq_top q \<longrightarrow> t < e \<and> p = rq_buf q ! (t mod RQ_CAP))"

definition rs_shape :: "RqState \<Rightarrow> bool" where
  "rs_shape s \<longleftrightarrow> length (rq_buf (rs_rq s)) = RQ_CAP \<and> rq_top (rs_rq s) \<le> rs_end s
     \<and> rs_end s - rq_top (rs_rq s) \<le> RQ_CAP \<and> rs_end s \<le> USIZE_MAX \<and> owner_ok (rs_rq s) (rs_owner s)"

definition rs_inv :: "RqState \<Rightarrow> bool" where
  "rs_inv s \<longleftrightarrow> rs_shape s \<and> (\<forall>i. stealer_ok (rs_rq s) (rs_end s) (rs_stealer s i))
     \<and> 0 \<notin> set (rs_live s) \<and> mset (rs_taken s) + mset (rs_live s) = mset (rs_pushed s)"

lemma rs_inv_init: "rs_inv rs_init"
  by (simp add: rs_inv_def rs_shape_def rs_init_def rs_live_def rs_end_def rq_new_def)

lemma rs_invD:
  assumes "rs_inv s"
  shows "rs_shape s" "stealer_ok (rs_rq s) (rs_end s) (rs_stealer s i)" "0 \<notin> set (rs_live s)"
    "mset (rs_taken s) + mset (rs_live s) = mset (rs_pushed s)"
  using assms by (auto simp: rs_inv_def)

lemma bottom_le_end: "rs_shape s \<Longrightarrow> rq_bottom (rs_rq s) \<le> rs_end s"
  by (cases "rs_owner s") (auto simp: rs_shape_def rs_end_def)

lemma stealer_ok_mono:
  assumes "stealer_ok q e pc" "rq_top q' = rq_top q" "rq_top q < e \<longrightarrow> rq_top q < e'"
    "rq_top q < e \<longrightarrow> rq_buf q' ! (rq_top q mod RQ_CAP) = rq_buf q ! (rq_top q mod RQ_CAP)"
  shows "stealer_ok q' e' pc"
  using assms by (cases pc) auto

text \<open>A step that keeps top and the live cells keeps what every stealer knows.\<close>

lemma stealers_keep:
  assumes "rs_inv s" "rq_top (rs_rq s') = rq_top (rs_rq s)" "rs_stealer s' = rs_stealer s"
    "rq_top (rs_rq s) < rs_end s \<longrightarrow> rq_top (rs_rq s) < rs_end s'"
    "rq_top (rs_rq s) < rs_end s \<longrightarrow> rq_buf (rs_rq s') ! (rq_top (rs_rq s) mod RQ_CAP) = rq_buf (rs_rq s) ! (rq_top (rs_rq s) mod RQ_CAP)"
  shows "\<forall>i. stealer_ok (rs_rq s') (rs_end s') (rs_stealer s' i)"
  using assms rs_invD(2) stealer_ok_mono by metis

text \<open>After a successful exchange every other stealer holds an index below top.\<close>

lemma stealers_past:
  assumes "rs_inv s" "rq_top q = Suc (rq_top (rs_rq s))"
  shows "stealer_ok q e (rs_stealer s i)"
  using rs_invD(2)[OF assms(1), of i] assms(2) by (cases "rs_stealer s i") auto

lemma wrapping_sub_ge: "a - b \<le> wrapping_sub a b"
  by (simp add: wrapping_sub_def)

lemma cas_topD:
  "cas_top old new q = (True, q') \<longleftrightarrow> rq_top q = old \<and> q' = q\<lparr>rq_top := new\<rparr>"
  "cas_top old new q = (False, q') \<longleftrightarrow> rq_top q \<noteq> old \<and> q' = q"
  by (auto simp: cas_top_def)

lemma push_steps_inv:
  assumes inv: "rs_inv s"
  shows "rs_owner s = OIdle \<Longrightarrow> ptr \<noteq> 0 \<Longrightarrow> rs_inv (s\<lparr>rs_owner := PushRead ptr (rq_bottom (rs_rq s)) (rq_top (rs_rq s))\<rparr>)"
    and "rs_owner s = PushRead ptr b t \<Longrightarrow> wrapping_sub b t < RQ_CAP \<Longrightarrow>
      rs_inv (s\<lparr>rs_rq := (rs_rq s)\<lparr>rq_buf := (rq_buf (rs_rq s))[b mod RQ_CAP := ptr]\<rparr>, rs_owner := PushStored ptr b\<rparr>)"
    and "rs_owner s = PushStored ptr b \<Longrightarrow> b < USIZE_MAX \<Longrightarrow>
      rs_inv (s\<lparr>rs_rq := (rs_rq s)\<lparr>rq_bottom := wrapping_add b 1\<rparr>, rs_owner := OIdle, rs_pushed := rs_pushed s @ [ptr]\<rparr>)"
proof -
  note d = rs_invD[OF inv]
  show "rs_inv (s\<lparr>rs_owner := PushRead ptr (rq_bottom (rs_rq s)) (rq_top (rs_rq s))\<rparr>)" if "rs_owner s = OIdle" "ptr \<noteq> 0"
    using d that by (auto simp: rs_inv_def rs_shape_def rs_live_def rs_end_def)
  show "rs_inv (s\<lparr>rs_rq := (rs_rq s)\<lparr>rq_buf := (rq_buf (rs_rq s))[b mod RQ_CAP := ptr]\<rparr>, rs_owner := PushStored ptr b\<rparr>)" (is "rs_inv ?s")
    if pc: "rs_owner s = PushRead ptr b t" "wrapping_sub b t < RQ_CAP"
  proof -
    have b: "b = rq_bottom (rs_rq s)" "t \<le> rq_top (rs_rq s)" "ptr \<noteq> 0" "rs_end s = b" "length (rq_buf (rs_rq s)) = RQ_CAP"
      using d(1) pc(1) by (auto simp: rs_shape_def rs_end_def)
    have room: "b < rq_top (rs_rq s) + RQ_CAP" using wrapping_sub_ge[of b t] pc(2) b(2) by linarith
    have top: "rq_top (rs_rq s) < b \<longrightarrow> rq_top (rs_rq s) mod RQ_CAP \<noteq> b mod RQ_CAP" using mod_cap_neq room by blast
    have "rs_live ?s = rs_live s" using cells_upd[OF room] b by (simp add: rs_live_def rs_end_def)
    moreover have "rs_shape ?s" using d(1) b room by (auto simp: rs_shape_def rs_end_def)
    moreover have "\<forall>i. stealer_ok (rs_rq ?s) (rs_end ?s) (rs_stealer ?s i)"
      by (rule stealers_keep[OF inv]) (use b top in \<open>auto simp: rs_end_def\<close>)
    ultimately show ?thesis using d(3,4) by (simp add: rs_inv_def)
  qed
  show "rs_inv (s\<lparr>rs_rq := (rs_rq s)\<lparr>rq_bottom := wrapping_add b 1\<rparr>, rs_owner := OIdle, rs_pushed := rs_pushed s @ [ptr]\<rparr>)" (is "rs_inv ?s")
    if pc: "rs_owner s = PushStored ptr b" "b < USIZE_MAX"
  proof -
    have b: "b = rq_bottom (rs_rq s)" "b < rq_top (rs_rq s) + RQ_CAP" "ptr \<noteq> 0" "rs_end s = b" "rq_buf (rs_rq s) ! (b mod RQ_CAP) = ptr"
        "rq_top (rs_rq s) \<le> b"
      using d(1) pc(1) by (auto simp: rs_shape_def rs_end_def)
    have "rs_live ?s = rs_live s @ [ptr]" using b pc by (simp add: rs_live_def rs_end_def cells_snoc)
    moreover have "rs_shape ?s" using d(1) b pc by (auto simp: rs_shape_def rs_end_def)
    moreover have "\<forall>i. stealer_ok (rs_rq ?s) (rs_end ?s) (rs_stealer ?s i)"
      by (rule stealers_keep[OF inv]) (use b pc in \<open>auto simp: rs_end_def\<close>)
    ultimately show ?thesis using d(3) d(4)[symmetric] b(3) by (simp add: rs_inv_def)
  qed
qed

lemma pop_local_inv:
  assumes inv: "rs_inv s"
  shows "rs_owner s = OIdle \<Longrightarrow> rq_bottom (rs_rq s) \<noteq> rq_top (rs_rq s) \<Longrightarrow> rs_inv (s\<lparr>rs_owner := PopBegin (rq_bottom (rs_rq s))\<rparr>)"
    and "rs_owner s = PopDec b \<Longrightarrow> rq_top (rs_rq s) = b \<Longrightarrow> rs_inv (s\<lparr>rs_owner := PopRace b (rq_buf (rs_rq s) ! (b mod RQ_CAP))\<rparr>)"
    and "rs_owner s = PopDec b \<Longrightarrow> b < rq_top (rs_rq s) \<Longrightarrow> rs_inv (s\<lparr>rs_owner := PopRestore b\<rparr>)"
    and "rs_owner s = PopRace b ptr \<Longrightarrow> rq_top (rs_rq s) \<noteq> b \<Longrightarrow> rs_inv (s\<lparr>rs_owner := PopRestore b\<rparr>)"
  using rs_invD[OF inv] by (auto simp: rs_inv_def rs_shape_def rs_live_def rs_end_def)

lemma pop_dec_inv:
  assumes inv: "rs_inv s" and pc: "rs_owner s = PopBegin b"
  shows "rs_inv (s\<lparr>rs_rq := (rs_rq s)\<lparr>rq_bottom := wrapping_sub b 1\<rparr>, rs_owner := PopDec (wrapping_sub b 1)\<rparr>)" (is "rs_inv ?s")
proof -
  note d = rs_invD[OF inv]
  have b: "b = rq_bottom (rs_rq s)" "0 < b" "rs_end s = b" using d(1) pc by (auto simp: rs_shape_def rs_end_def)
  have e: "rs_end ?s = rs_end s" using b by (simp add: rs_end_def)
  have "rs_live ?s = rs_live s" "rs_shape ?s" using d(1) e by (auto simp: rs_live_def rs_shape_def)
  moreover have "\<forall>i. stealer_ok (rs_rq ?s) (rs_end ?s) (rs_stealer ?s i)"
    by (rule stealers_keep[OF inv]) (use e in auto)
  ultimately show ?thesis using d(3,4) by (simp add: rs_inv_def)
qed

lemma pop_restore_inv:
  assumes inv: "rs_inv s" and pc: "rs_owner s = PopRestore b"
  shows "rs_inv (s\<lparr>rs_rq := (rs_rq s)\<lparr>rq_bottom := wrapping_add b 1\<rparr>, rs_owner := OIdle\<rparr>)" (is "rs_inv ?s")
proof -
  note d = rs_invD[OF inv]
  have b: "rs_end s = Suc b" "Suc b \<le> USIZE_MAX" using d(1) pc by (auto simp: rs_shape_def rs_end_def)
  have e: "rs_end ?s = rs_end s" using b by (simp add: rs_end_def)
  have "rs_live ?s = rs_live s" "rs_shape ?s" using d(1) e by (auto simp: rs_live_def rs_shape_def)
  moreover have "\<forall>i. stealer_ok (rs_rq ?s) (rs_end ?s) (rs_stealer ?s i)"
    by (rule stealers_keep[OF inv]) (use e in auto)
  ultimately show ?thesis using d(3,4) by (simp add: rs_inv_def)
qed

text \<open>The owner takes the element at \<open>b\<close> without an exchange: top was below \<open>b\<close>, so no stealer holds \<open>b\<close>.\<close>

lemma pop_take_inv:
  assumes inv: "rs_inv s" and pc: "rs_owner s = PopDec b" and top: "rq_top (rs_rq s) < b"
  shows "rs_inv (take_task (rq_buf (rs_rq s) ! (b mod RQ_CAP)) (s\<lparr>rs_owner := OIdle\<rparr>))" (is "rs_inv ?s")
proof -
  note d = rs_invD[OF inv]
  have b: "rs_end s = Suc b" "b = rq_bottom (rs_rq s)" "rs_end ?s = b"
    using d(1) pc by (auto simp: rs_shape_def rs_end_def take_task_def)
  have live: "rs_live s = rs_live ?s @ [rq_buf (rs_rq s) ! (b mod RQ_CAP)]"
    using b top by (simp add: rs_live_def take_task_def cells_snoc)
  moreover have "rs_shape ?s" using d(1) b top pc by (auto simp: rs_shape_def take_task_def)
  moreover have "\<forall>i. stealer_ok (rs_rq ?s) (rs_end ?s) (rs_stealer ?s i)"
    by (rule stealers_keep[OF inv]) (use b top in \<open>auto simp: take_task_def\<close>)
  moreover have "mset (rs_taken ?s) + mset (rs_live ?s) = mset (rs_pushed ?s)"
    using d(4) live by (simp add: take_task_def)
  ultimately show ?thesis using d(3) live by (simp add: rs_inv_def)
qed

text \<open>A successful exchange takes the first live element.\<close>

lemma cas_live:
  assumes "rs_inv s" "rq_top (rs_rq s) < rs_end s"
  shows "rs_live s = rq_buf (rs_rq s) ! (rq_top (rs_rq s) mod RQ_CAP) # cells (rq_buf (rs_rq s)) (Suc (rq_top (rs_rq s))) (rs_end s)"
    "rq_buf (rs_rq s) ! (rq_top (rs_rq s) mod RQ_CAP) \<noteq> 0"
  using rs_invD(3)[OF assms(1)] assms(2) by (auto simp: rs_live_def cells_Cons)

lemma pop_won_inv:
  assumes inv: "rs_inv s" and pc: "rs_owner s = PopRace b ptr" and top: "rq_top (rs_rq s) = b"
  shows "rs_inv (take_task ptr (s\<lparr>rs_rq := (rs_rq s)\<lparr>rq_top := wrapping_add b 1\<rparr>, rs_owner := PopRestore b\<rparr>))" (is "rs_inv ?s")
proof -
  note d = rs_invD[OF inv]
  have b: "rs_end s = Suc b" "b = rq_bottom (rs_rq s)" "ptr = rq_buf (rs_rq s) ! (b mod RQ_CAP)" "Suc b \<le> USIZE_MAX"
    using d(1) pc by (auto simp: rs_shape_def rs_end_def)
  have live: "rs_live s = [ptr]" "rs_live ?s = []"
    using cas_live(1)[OF inv] b top by (auto simp: rs_live_def rs_end_def take_task_def)
  moreover have "rs_shape ?s" using d(1) b top by (auto simp: rs_shape_def rs_end_def take_task_def)
  moreover have "stealer_ok (rs_rq ?s) (rs_end ?s) (rs_stealer ?s i)" for i
    using stealers_past[OF inv, of "rs_rq ?s"] b top by (simp add: take_task_def)
  moreover have "mset (rs_taken ?s) + mset (rs_live ?s) = mset (rs_pushed ?s)"
    using d(4) live by (simp add: take_task_def)
  ultimately show ?thesis by (simp add: rs_inv_def)
qed

lemma set_stealer_inv:
  assumes "rs_inv s" "stealer_ok (rs_rq s) (rs_end s) pc"
  shows "rs_inv (set_stealer i pc s)"
  using assms by (auto simp: rs_inv_def rs_shape_def rs_live_def rs_end_def set_stealer_def)

lemma steal_local_inv:
  assumes inv: "rs_inv s"
  shows "rs_inv (set_stealer i (STop (rq_top (rs_rq s))) s)"
    and "rs_inv (set_stealer i SIdle s)"
    and "rs_stealer s i = STop t \<Longrightarrow> t < rq_bottom (rs_rq s) \<Longrightarrow> rs_inv (set_stealer i (SBottom t) s)"
    and "rs_stealer s i = SBottom t \<Longrightarrow> rs_inv (set_stealer i (SPtr t (rq_buf (rs_rq s) ! (t mod RQ_CAP))) s)"
  using rs_invD(2)[OF inv, of i] bottom_le_end[OF rs_invD(1)[OF inv]]
  by (auto intro!: set_stealer_inv[OF inv])

lemma steal_won_inv:
  assumes inv: "rs_inv s" and pc: "rs_stealer s i = SPtr t ptr" and top: "rq_top (rs_rq s) = t"
  shows "rs_inv ((if ptr = 0 then id else take_task ptr) (set_stealer i SIdle (s\<lparr>rs_rq := (rs_rq s)\<lparr>rq_top := wrapping_add t 1\<rparr>\<rparr>)))"
proof -
  let ?s = "take_task ptr (set_stealer i SIdle (s\<lparr>rs_rq := (rs_rq s)\<lparr>rq_top := wrapping_add t 1\<rparr>\<rparr>))"
  note d = rs_invD[OF inv]
  have t: "t < rs_end s" "ptr = rq_buf (rs_rq s) ! (t mod RQ_CAP)" "rs_end s \<le> USIZE_MAX"
    using d(1) d(2)[of i] pc top by (auto simp: rs_shape_def)
  have e: "rs_end ?s = rs_end s" by (simp add: rs_end_def take_task_def set_stealer_def)
  have live: "rs_live s = ptr # rs_live ?s" "ptr \<noteq> 0"
    using cas_live[OF inv] t top e by (auto simp: rs_live_def take_task_def set_stealer_def)
  have "owner_ok (rs_rq ?s) (rs_owner ?s)"
    using d(1) t top by (cases "rs_owner s") (auto simp: rs_shape_def rs_end_def take_task_def set_stealer_def)
  then have "rs_shape ?s" using d(1) e t top by (auto simp: rs_shape_def take_task_def set_stealer_def)
  moreover have "stealer_ok (rs_rq ?s) (rs_end ?s) (rs_stealer ?s j)" for j
    using stealers_past[OF inv, of "rs_rq ?s"] t top by (simp add: take_task_def set_stealer_def)
  moreover have "mset (rs_taken ?s) + mset (rs_live ?s) = mset (rs_pushed ?s)"
    using d(4) live by (simp add: take_task_def set_stealer_def)
  ultimately have "rs_inv ?s" using d(3) live by (simp add: rs_inv_def)
  then show ?thesis using live(2) by simp
qed

lemma rq_step_inv: "rq_step s s' \<Longrightarrow> rs_inv s \<Longrightarrow> rs_inv s'"
proof (induction rule: rq_step.induct)
  case (steal_lost s i t ptr q)
  then show ?case using steal_local_inv(2) by (simp add: cas_topD)
next
  case (pop_lost s b ptr q)
  then show ?case using pop_local_inv(4) by (simp add: cas_topD)
qed (auto simp only: cas_topD intro: push_steps_inv pop_local_inv(1,2,3) pop_dec_inv pop_take_inv pop_won_inv pop_restore_inv steal_local_inv steal_won_inv)

lemma rq_reach_inv: "rq_reach s \<Longrightarrow> rs_inv s"
  by (induction rule: rq_reach.induct) (auto intro: rs_inv_init rq_step_inv)

text \<open>
  C26. However the accesses of the owner and of the stealers interleave, as long as the counter
  \<open>bottom\<close> has not wrapped around, no task is lost and none
  is handed out twice: the tasks returned so far and those still in the queue are together the
  tasks pushed, as multisets. The queue never holds more than its capacity, it never holds a null
  pointer, and a stealer about to exchange top at the current top holds the task in that place.
\<close>

theorem run_queue_linear:
  assumes "rq_reach s"
  shows "mset (rs_taken s) + mset (rs_live s) = mset (rs_pushed s) \<and> length (rs_live s) \<le> RQ_CAP \<and> 0 \<notin> set (rs_live s)
     \<and> (\<forall>i ptr. rs_stealer s i = SPtr (rq_top (rs_rq s)) ptr \<longrightarrow> rs_live s \<noteq> [] \<and> hd (rs_live s) = ptr)"
proof (intro conjI allI impI)
  note inv = rq_reach_inv[OF assms]
  show "mset (rs_taken s) + mset (rs_live s) = mset (rs_pushed s)" "0 \<notin> set (rs_live s)" using rs_invD[OF inv] by auto
  show "length (rs_live s) \<le> RQ_CAP" using rs_invD(1)[OF inv] by (simp add: rs_live_def rs_shape_def)
  show "rs_live s \<noteq> []" "hd (rs_live s) = ptr" if "rs_stealer s i = SPtr (rq_top (rs_rq s)) ptr" for i ptr
    using rs_invD(2)[OF inv, of i] that cas_live[OF inv] by auto
qed

text \<open>
  A run in which the owner and stealer 3 race for the only task, at address 7: the owner has
  lowered bottom and found top equal to it, the stealer has loaded the same task, and then the
  stealer exchanges top first.
\<close>

definition race_state :: "OwnerPc \<Rightarrow> StealerPc \<Rightarrow> usize \<Rightarrow> usize \<Rightarrow> TaskPtr list \<Rightarrow> RqState" where
  "race_state owner stealer t b taken =
     \<lparr>rs_rq = \<lparr>rq_top = t, rq_bottom = b, rq_buf = (replicate RQ_CAP 0)[0 := 7]\<rparr>, rs_owner = owner,
      rs_stealer = (\<lambda>_. SIdle)(3 := stealer), rs_pushed = [7], rs_taken = taken\<rparr>"

lemma race_pushed: "rq_reach (race_state OIdle SIdle 0 1 [])"
proof -
  have 1: "rq_reach (rs_init\<lparr>rs_owner := PushRead 7 0 0\<rparr>)"
    using reach_step[OF reach_init push_load[of rs_init 7]] by (simp add: rs_init_def rq_new_def)
  have 2: "rq_reach (rs_init\<lparr>rs_rq := rq_new\<lparr>rq_buf := (replicate RQ_CAP 0)[0 := 7]\<rparr>, rs_owner := PushStored 7 0\<rparr>)"
    using reach_step[OF 1 push_store[of _ 7 0 0]] by (simp add: rs_init_def rq_new_def)
  show ?thesis
    using reach_step[OF 2 push_publish[of _ 7 0]] by (simp add: rs_init_def rq_new_def race_state_def USIZE_MAX_def fun_upd_idem)
qed

lemma race_lost: "rq_reach (race_state (PopRace 0 7) SIdle 1 0 [7])"
proof -
  have 1: "rq_reach (race_state OIdle (STop 0) 0 1 [])"
    using reach_step[OF race_pushed steal_top[of _ 3]] by (simp add: race_state_def set_stealer_def)
  have 2: "rq_reach (race_state OIdle (SBottom 0) 0 1 [])"
    using reach_step[OF 1 steal_bottom[of _ 3 0]] by (simp add: race_state_def set_stealer_def)
  have 3: "rq_reach (race_state OIdle (SPtr 0 7) 0 1 [])"
    using reach_step[OF 2 steal_ptr[of _ 3 0]] by (simp add: race_state_def set_stealer_def)
  have 4: "rq_reach (race_state (PopBegin 1) (SPtr 0 7) 0 1 [])"
    using reach_step[OF 3 pop_load] by (simp add: race_state_def)
  have 5: "rq_reach (race_state (PopDec 0) (SPtr 0 7) 0 0 [])"
    using reach_step[OF 4 pop_dec[of _ 1]] by (simp add: race_state_def)
  have 6: "rq_reach (race_state (PopRace 0 7) (SPtr 0 7) 0 0 [])"
    using reach_step[OF 5 pop_race[of _ 0]] by (simp add: race_state_def)
  show ?thesis
    using reach_step[OF 6 steal_won[of _ 3 0 7]] by (simp add: race_state_def set_stealer_def take_task_def cas_top_def USIZE_MAX_def)
qed

theorem run_queue_linear_witness:
  "rq_reach (race_state (PopRace 0 7) SIdle 1 0 [7]) \<and> rs_live (race_state (PopRace 0 7) SIdle 1 0 [7]) = []
     \<and> mset (rs_pushed (race_state (PopRace 0 7) SIdle 1 0 [7])) = {#7#}"
  using run_queue_linear[OF race_lost] race_lost by (simp add: race_state_def)

text \<open>
  C27. Run without interruption the queue is a deque over the list of its tasks: push adds at the
  end and panics exactly when 1024 tasks are queued, pop takes from the end, steal and
  \<open>steal_n\<close> take from the front, and \<open>len\<close> is the number of tasks. No operation but the push on a
  full queue panics, and the loop of \<open>steal\<close> returns.
\<close>

theorem run_queue_refines_deque:
  assumes "rq_inv q" "rq_bottom q < USIZE_MAX" "p \<noteq> 0"
  shows "(if length (rq_view q) = RQ_CAP then rq_push p q = None
          else \<exists>q'. rq_push p q = Some q' \<and> rq_inv q' \<and> rq_view q' = rq_view q @ [p])
     \<and> (\<exists>q'. rq_pop q = Some (if rq_view q = [] then None else Some (last (rq_view q)), q') \<and> rq_inv q' \<and> rq_view q' = butlast (rq_view q))
     \<and> (\<exists>q'. rq_steal q = Some (if rq_view q = [] then None else Some (hd (rq_view q)), q') \<and> rq_inv q' \<and> rq_view q' = tl (rq_view q))
     \<and> (\<exists>q'. rq_steal_n n q = Some (take n (rq_view q), q') \<and> rq_inv q' \<and> rq_view q' = drop n (rq_view q))
     \<and> rq_len q = length (rq_view q)"
proof (intro conjI)
  have "length (rq_view q) \<le> RQ_CAP" using assms(1) by (simp add: rq_inv_def rq_view_def)
  then show "if length (rq_view q) = RQ_CAP then rq_push p q = None
      else \<exists>q'. rq_push p q = Some q' \<and> rq_inv q' \<and> rq_view q' = rq_view q @ [p]"
    using rq_push_full[OF assms(1)] rq_push_ok[OF assms(1,3) _ assms(2)] by auto
  show "\<exists>q'. rq_pop q = Some (if rq_view q = [] then None else Some (last (rq_view q)), q') \<and> rq_inv q' \<and> rq_view q' = butlast (rq_view q)"
    using rq_pop_ok[OF assms(1)] by blast
  show "\<exists>q'. rq_steal q = Some (if rq_view q = [] then None else Some (hd (rq_view q)), q') \<and> rq_inv q' \<and> rq_view q' = tl (rq_view q)"
    using rq_steal_ok[OF assms(1)] by blast
  show "\<exists>q'. rq_steal_n n q = Some (take n (rq_view q), q') \<and> rq_inv q' \<and> rq_view q' = drop n (rq_view q)"
    using rq_steal_n_ok[OF assms(1)] by blast
  show "rq_len q = length (rq_view q)" using rq_len_view[OF assms(1)] .
qed

definition two_tasks :: Runqueue where
  "two_tasks = \<lparr>rq_top = 1023, rq_bottom = 1025, rq_buf = (replicate RQ_CAP 0)[1023 := 7, 0 := 9]\<rparr>"

theorem run_queue_refines_deque_witness:
  "rq_inv two_tasks \<and> rq_view two_tasks = [7, 9]
     \<and> (\<exists>q'. rq_steal_n 3 two_tasks = Some ([7, 9], q') \<and> rq_view q' = [])
     \<and> (\<exists>q'. rq_push 5 two_tasks = Some q' \<and> rq_view q' = [7, 9, 5])"
proof -
  have view: "rq_view two_tasks = [7, 9]"
    by (simp add: rq_view_def two_tasks_def cells_def RQ_CAP_def upt_rec nth_list_update)
  have inv: "rq_inv two_tasks" using view by (simp add: rq_inv_def) (simp add: two_tasks_def RQ_CAP_def USIZE_MAX_def)
  have "rq_bottom two_tasks < USIZE_MAX" by (simp add: two_tasks_def USIZE_MAX_def)
  then show ?thesis
    using run_queue_refines_deque[OF inv, of 5 3] view inv by (simp add: RQ_CAP_def) blast
qed

end
