(* ===== verification/Tasks.thy ===== *)
theory Tasks
  imports Kernel_Va Ipc Run_Queue
begin

text \<open>
  \<open>scheduler/task.rs\<close> and \<open>scheduler/task_storage.rs\<close>: tasks, the table of all tasks and the global
  run queue. Tasks are shared through reference counted pointers, so the model keeps them in a heap
  and the table and the queues hold their addresses; reference counts are left out. The table and
  the queue exist from \<open>initialize_task_storage\<close> on, and their locks are left out. Reading through an
  address that holds no task is \<open>None\<close>.
\<close>

subsection \<open>Definitions: tasks\<close>

text \<open>\<open>TaskId\<close> is a wrapper of the index; \<open>new\<close> and \<open>id\<close> are the identity here.\<close>

type_synonym TaskId = TaskIdIndex

datatype TaskState = Running | Ready | Exiting | Sleep

record TaskRegisters =
  r15 :: u64
  r14 :: u64
  r13 :: u64
  r12 :: u64
  rbp :: u64
  rbx :: u64
  r11 :: u64
  r10 :: u64
  r9 :: u64
  r8 :: u64
  rax :: u64
  rcx :: u64
  rdx :: u64
  rsi :: u64
  rdi :: u64
  syscall_number_or_irq_or_error_code :: u64
  rip :: u64
  cs :: u64
  rflags :: u64
  rsp :: u64
  ss :: u64

record 'pt Tcb =
  wake_at_tick :: usize
  addr_space :: "'pt AddrSpace"
  kernel_stack :: KernelStack
  cnode :: CNode
  task_state :: TaskState

record 'pt Task =
  task_id :: TaskId
  registers :: TaskRegisters
  tcb :: "'pt Tcb"

subsection \<open>Definitions: the task table and the global run queue\<close>

record 'pt TaskStorage =
  ts_heap :: "TaskPtr \<Rightarrow> 'pt Task option"
  ts_table :: "(TaskIdIndex, TaskPtr) btree"
  ts_global :: "TaskPtr list"

text \<open>A store through a task pointer.\<close>

definition update_tcb :: "('pt Tcb \<Rightarrow> 'pt Tcb) \<Rightarrow> TaskPtr \<Rightarrow> 'pt TaskStorage \<Rightarrow> 'pt TaskStorage option" where
  "update_tcb f p s = do {
     t \<leftarrow> ts_heap s p;
     Some (s\<lparr>ts_heap := (ts_heap s)(p \<mapsto> t\<lparr>tcb := f (tcb t)\<rparr>)\<rparr>)
   }"

definition table_insert :: "TaskPtr \<Rightarrow> 'pt TaskStorage \<Rightarrow> 'pt TaskStorage option" where
  "table_insert p s = do {
     t \<leftarrow> ts_heap s p;
     Some (s\<lparr>ts_table := bt_insert (task_id t) p (ts_table s)\<rparr>)
   }"

definition get_by_index :: "TaskIdIndex \<Rightarrow> 'pt TaskStorage \<Rightarrow> TaskPtr option" where
  "get_by_index idx s = bt_get (ts_table s) idx"

definition table_remove :: "TaskIdIndex \<Rightarrow> 'pt TaskStorage \<Rightarrow> 'pt TaskStorage" where
  "table_remove idx s = s\<lparr>ts_table := bt_remove idx (ts_table s)\<rparr>"

definition global_push :: "TaskPtr \<Rightarrow> 'pt TaskStorage \<Rightarrow> 'pt TaskStorage" where
  "global_push p s = s\<lparr>ts_global := ts_global s @ [p]\<rparr>"

definition global_pop :: "'pt TaskStorage \<Rightarrow> TaskPtr option \<times> 'pt TaskStorage" where
  "global_pop s = (case ts_global s of
      [] \<Rightarrow> (None, s)
    | p # ps \<Rightarrow> (Some p, s\<lparr>ts_global := ps\<rparr>))"

definition global_queue_empty :: "'pt TaskStorage \<Rightarrow> bool" where
  "global_queue_empty s \<longleftrightarrow> ts_global s = []"

text \<open>The heap is not part of the storage that is created; it stays.\<close>

definition initialize_task_storage :: "(TaskPtr \<Rightarrow> 'pt Task option) \<Rightarrow> 'pt TaskStorage" where
  "initialize_task_storage heap = \<lparr>ts_heap = heap, ts_table = [], ts_global = []\<rparr>"

definition add_task_to_execute :: "TaskPtr \<Rightarrow> 'pt TaskStorage \<Rightarrow> (TaskId \<times> 'pt TaskStorage) option" where
  "add_task_to_execute p s = do {
     t \<leftarrow> ts_heap s p;
     s1 \<leftarrow> table_insert p s;
     Some (task_id t, global_push p s1)
   }"

definition get_task_by_index :: "TaskIdIndex \<Rightarrow> 'pt TaskStorage \<Rightarrow> TaskPtr option" where
  "get_task_by_index idx s = get_by_index idx s"

definition remove_task :: "TaskIdIndex \<Rightarrow> 'pt TaskStorage \<Rightarrow> 'pt TaskStorage" where
  "remove_task idx s = table_remove idx s"

definition inject_sleeping_task :: "TaskIdIndex \<Rightarrow> 'pt TaskStorage \<Rightarrow> 'pt TaskStorage" where
  "inject_sleeping_task idx s = (case get_by_index idx s of
      None \<Rightarrow> s
    | Some p \<Rightarrow> global_push p s)"

text \<open>The loop of \<open>steal_from_global\<close> over the places of the buffer that are left.\<close>

fun steal_global_loop :: "usize list \<Rightarrow> usize \<Rightarrow> TaskPtr option list \<Rightarrow> 'pt TaskStorage \<Rightarrow> usize \<times> TaskPtr option list \<times> 'pt TaskStorage" where
  "steal_global_loop [] n buf s = (n, buf, s)"
| "steal_global_loop (i # is) n buf s = (case global_pop s of
      (Some p, s') \<Rightarrow> steal_global_loop is (n + 1) (buf[i := Some p]) s'
    | (None, s') \<Rightarrow> (n, buf, s'))"

definition steal_from_global :: "TaskPtr option list \<Rightarrow> 'pt TaskStorage \<Rightarrow> usize \<times> TaskPtr option list \<times> 'pt TaskStorage" where
  "steal_from_global buf s = steal_global_loop [0..<length buf] 0 buf s"

text \<open>The closure of \<open>for_each_task\<close> changes a state of its caller.\<close>

definition for_each_task :: "('pt Task \<Rightarrow> 's \<Rightarrow> 's option) \<Rightarrow> 'pt TaskStorage \<Rightarrow> 's \<Rightarrow> 's option" where
  "for_each_task f s = for_each (\<lambda>p st. do { t \<leftarrow> ts_heap s p; f t st }) (bt_values (ts_table s))"

end
