(* ===== verification/Scheduler.thy ===== *)
theory Scheduler
  imports Tasks
begin

text \<open>
  \<open>scheduler/mod.rs\<close>: the processors and the data each keeps, blocking and waking of tasks, the loop
  of the idle task and the timer tick. The processor that runs an operation is an argument. A
  context switch is the value an operation returns: the task whose stack pointer is saved, and the
  stack pointer and page table that are loaded. The acknowledgement of the interrupt is left out.
\<close>

subsection \<open>Definitions\<close>

record PerCpuSchedulerData =
  cpu_id :: usize
  curr_task_id :: TaskId
  in_rescheduling :: bool
  top_of_kernel_stack :: VirtAddr
  tss_rsp0 :: VirtAddr

record 'pt Sched =
  sd_tasks :: "'pt TaskStorage"
  sd_cpus :: "ExecCpu list"
  sd_percpu :: "PerCpuSchedulerData list"
  sd_tick_count :: usize

datatype Switch = SwitchTo TaskPtr u64 PhysAddr

definition put_cpu :: "usize \<Rightarrow> ExecCpu \<Rightarrow> 'pt Sched \<Rightarrow> 'pt Sched" where
  "put_cpu i c s = s\<lparr>sd_cpus := (sd_cpus s)[i := c]\<rparr>"

definition put_percpu :: "usize \<Rightarrow> PerCpuSchedulerData \<Rightarrow> 'pt Sched \<Rightarrow> 'pt Sched" where
  "put_percpu me d s = s\<lparr>sd_percpu := (sd_percpu s)[me := d]\<rparr>"

text \<open>The idle tasks are made by \<open>make_kernel_task\<close>; their addresses are arguments here.\<close>

definition cpu_descriptors_new :: "TaskPtr list \<Rightarrow> ExecCpu list" where
  "cpu_descriptors_new idle = map ec_new idle"

text \<open>The inner loop of \<open>try_to_steal_into\<close>; \<open>True\<close> marks the early return.\<close>

fun place_stolen :: "TaskPtr list \<Rightarrow> usize \<Rightarrow> TaskPtr option list \<Rightarrow> bool \<times> usize \<times> TaskPtr option list" where
  "place_stolen [] n buf = (False, n, buf)"
| "place_stolen (p # ps) n buf =
     (if n \<ge> length buf then (True, n, buf) else place_stolen ps (n + 1) (buf[n := Some p]))"

definition STEAL_BATCH_PER_CPU :: usize where "STEAL_BATCH_PER_CPU = 1"

fun steal_cpus :: "usize list \<Rightarrow> usize \<Rightarrow> usize \<Rightarrow> TaskPtr option list \<Rightarrow> ExecCpu list \<Rightarrow> (usize \<times> TaskPtr option list \<times> ExecCpu list) option" where
  "steal_cpus [] me n buf cpus = Some (n, buf, cpus)"
| "steal_cpus (idx # is) me n buf cpus =
     (if idx = me then steal_cpus is me n buf cpus
      else do {
        cpu \<leftarrow> arr_get cpus idx;
        if rq_len (ec_tasks cpu) < length buf then steal_cpus is me n buf cpus
        else do {
          (tasks, q) \<leftarrow> rq_steal_n STEAL_BATCH_PER_CPU (ec_tasks cpu);
          let cpus' = cpus[idx := cpu\<lparr>ec_tasks := q\<rparr>];
          let (stop, n', buf') = place_stolen tasks n buf;
          if stop then Some (n', buf', cpus') else steal_cpus is me n' buf' cpus'
        }
      })"

definition try_to_steal_into :: "usize \<Rightarrow> TaskPtr option list \<Rightarrow> ExecCpu list \<Rightarrow> (usize \<times> TaskPtr option list \<times> ExecCpu list) option" where
  "try_to_steal_into me buf cpus = steal_cpus [0..<length cpus] me 0 buf cpus"

text \<open>
  Putting the current task to sleep and switching to the idle task, which \<open>block_current_on_ipc\<close> and
  \<open>sleep\<close> share. The former checks for a null pointer; reading through one in the latter is \<open>None\<close>.
\<close>

definition switch_to_idle :: "('pt, 'z) X86_scheme \<Rightarrow> usize \<Rightarrow> usize \<Rightarrow> ('pt Tcb \<Rightarrow> 'pt Tcb) \<Rightarrow> 'pt Sched \<Rightarrow> (Switch \<times> 'pt Sched) option" where
  "switch_to_idle x hhdm me f s = do {
     d \<leftarrow> arr_get (sd_percpu s) me;
     c \<leftarrow> arr_get (sd_cpus s) (cpu_id d);
     let curr = ec_get_curr_task c;
     rassert (curr \<noteq> 0);
     ts \<leftarrow> update_tcb f curr (sd_tasks s);
     idle \<leftarrow> ts_heap ts (ec_idle_task c);
     cr3 \<leftarrow> get_page_table_phys x hhdm (addr_space (tcb idle));
     let s1 = put_cpu (cpu_id d) (ec_set_curr_task 0 c) (s\<lparr>sd_tasks := ts\<rparr>);
     let s2 = put_percpu me (d\<lparr>curr_task_id := task_id idle\<rparr>) s1;
     Some (SwitchTo curr (rsp (registers idle)) cr3, s2)
   }"

definition block_current_on_ipc :: "('pt, 'z) X86_scheme \<Rightarrow> usize \<Rightarrow> usize \<Rightarrow> 'pt Sched \<Rightarrow> (Switch \<times> 'pt Sched) option" where
  "block_current_on_ipc x hhdm me s = switch_to_idle x hhdm me (\<lambda>t. t\<lparr>task_state := Sleep\<rparr>) s"

definition sched_sleep :: "('pt, 'z) X86_scheme \<Rightarrow> usize \<Rightarrow> usize \<Rightarrow> usize \<Rightarrow> 'pt Sched \<Rightarrow> (Switch option \<times> 'pt Sched) option" where
  "sched_sleep x hhdm me ns s = do {
     a \<leftarrow> u_add ns 999999;
     let ticks = a div 1000000;
     if ticks = 0 then Some (None, s)
     else do {
       wake_at \<leftarrow> u_add (sd_tick_count s) ticks;
       (sw, s') \<leftarrow> switch_to_idle x hhdm me (\<lambda>t. t\<lparr>wake_at_tick := wake_at, task_state := Sleep\<rparr>) s;
       Some (Some sw, s')
     }
   }"

definition awaken_task :: "TaskPtr \<Rightarrow> 'pt TaskStorage \<Rightarrow> 'pt TaskStorage option" where
  "awaken_task p ts = do {
     ts1 \<leftarrow> update_tcb (\<lambda>t. t\<lparr>task_state := Ready\<rparr>) p ts;
     (_, ts2) \<leftarrow> add_task_to_execute p ts1;
     Some ts2
   }"

text \<open>The filter of \<open>wake_sleeping_tasks\<close> and its second loop.\<close>

definition due :: "usize \<Rightarrow> 'pt Task \<Rightarrow> bool" where
  "due now t \<longleftrightarrow> task_state (tcb t) = Sleep \<and> wake_at_tick (tcb t) \<noteq> 0 \<and> now \<ge> wake_at_tick (tcb t)"

definition collect_due :: "usize \<Rightarrow> 'pt TaskStorage \<Rightarrow> TaskIdIndex list option" where
  "collect_due now ts =
     for_each (\<lambda>p acc. do {
       t \<leftarrow> ts_heap ts p;
       Some (if due now t then acc @ [task_id t] else acc)
     }) (bt_values (ts_table ts)) []"

definition wake_one :: "TaskIdIndex \<Rightarrow> 'pt TaskStorage \<Rightarrow> 'pt TaskStorage option" where
  "wake_one idx ts = (case get_task_by_index idx ts of
      None \<Rightarrow> Some ts
    | Some p \<Rightarrow> do {
        ts1 \<leftarrow> update_tcb (\<lambda>t. t\<lparr>wake_at_tick := 0\<rparr>) p ts;
        ts2 \<leftarrow> update_tcb (\<lambda>t. t\<lparr>task_state := Ready\<rparr>) p ts1;
        awaken_task p ts2
      })"

definition wake_sleeping_tasks :: "usize \<Rightarrow> 'pt Sched \<Rightarrow> 'pt Sched option" where
  "wake_sleeping_tasks me s = do {
     d \<leftarrow> arr_get (sd_percpu s) me;
     if cpu_id d \<noteq> 0 then Some s
     else do {
       to_wake \<leftarrow> collect_due (sd_tick_count s) (sd_tasks s);
       ts \<leftarrow> for_each wake_one to_wake (sd_tasks s);
       Some (s\<lparr>sd_tasks := ts\<rparr>)
     }
   }"

definition IDLE_STEAL_BATCH :: usize where "IDLE_STEAL_BATCH = 4"

definition set_in_rescheduling :: "bool \<Rightarrow> usize \<Rightarrow> 'pt Sched \<Rightarrow> 'pt Sched option" where
  "set_in_rescheduling b me s = do {
     d \<leftarrow> arr_get (sd_percpu s) me;
     Some (put_percpu me (d\<lparr>in_rescheduling := b\<rparr>) s)
   }"

text \<open>Pushing the tasks of the first \<open>n\<close> places of a buffer.\<close>

definition push_slots :: "usize \<Rightarrow> TaskPtr option list \<Rightarrow> ExecCpu \<Rightarrow> ExecCpu option" where
  "push_slots n buf c = for_each (\<lambda>slot c. case slot of
       None \<Rightarrow> Some c
     | Some p \<Rightarrow> do { q \<leftarrow> rq_push p (ec_tasks c); Some (c\<lparr>ec_tasks := q\<rparr>) }) (take n buf) c"

text \<open>One turn of the loop of \<open>idle_task\<close>, up to the \<open>hlt\<close>.\<close>

definition idle_task_turn :: "usize \<Rightarrow> 'pt Sched \<Rightarrow> 'pt Sched option" where
  "idle_task_turn me s = do {
     s1 \<leftarrow> set_in_rescheduling True me s;
     d \<leftarrow> arr_get (sd_percpu s1) me;
     (n, steal_buf, cpus) \<leftarrow> try_to_steal_into (cpu_id d) (replicate IDLE_STEAL_BATCH None) (sd_cpus s1);
     let s2 = s1\<lparr>sd_cpus := cpus\<rparr>;
     c \<leftarrow> arr_get (sd_cpus s2) (cpu_id d);
     s3 \<leftarrow> (if n > 0 then do {
         c' \<leftarrow> push_slots n steal_buf c;
         Some (put_cpu (cpu_id d) c' s2)
       } else do {
         let (m, global_buf, ts) = steal_from_global (replicate IDLE_STEAL_BATCH None) (sd_tasks s2);
         c' \<leftarrow> push_slots m global_buf c;
         Some (put_cpu (cpu_id d) c' (s2\<lparr>sd_tasks := ts\<rparr>))
       });
     set_in_rescheduling False me s3
   }"

text \<open>Making a task the current one of a processor.\<close>

definition install_task :: "TaskPtr \<Rightarrow> usize \<Rightarrow> 'pt Sched \<Rightarrow> 'pt Sched option" where
  "install_task p me s = do {
     ts \<leftarrow> update_tcb (\<lambda>t. t\<lparr>task_state := Running\<rparr>) p (sd_tasks s);
     t \<leftarrow> ts_heap ts p;
     d \<leftarrow> arr_get (sd_percpu s) me;
     c \<leftarrow> arr_get (sd_cpus s) (cpu_id d);
     let s1 = put_cpu (cpu_id d) (ec_set_curr_task p c) (s\<lparr>sd_tasks := ts\<rparr>);
     Some (put_percpu me (d\<lparr>curr_task_id := task_id t,
       top_of_kernel_stack := ks_top (kernel_stack (tcb t)), tss_rsp0 := ks_top (kernel_stack (tcb t))\<rparr>) s1)
   }"

definition load_task :: "('pt, 'z) X86_scheme \<Rightarrow> usize \<Rightarrow> TaskPtr \<Rightarrow> TaskPtr \<Rightarrow> 'pt Sched \<Rightarrow> Switch option" where
  "load_task x hhdm prev p s = do {
     t \<leftarrow> ts_heap (sd_tasks s) p;
     cr3 \<leftarrow> get_page_table_phys x hhdm (addr_space (tcb t));
     Some (SwitchTo prev (rsp (registers t)) cr3)
   }"

definition process_tick :: "('pt, 'z) X86_scheme \<Rightarrow> usize \<Rightarrow> usize \<Rightarrow> 'pt Sched \<Rightarrow> (Switch option \<times> 'pt Sched) option" where
  "process_tick x hhdm me s = do {
     d \<leftarrow> arr_get (sd_percpu s) me;
     if in_rescheduling d then Some (None, s)
     else do {
       c \<leftarrow> arr_get (sd_cpus s) (cpu_id d);
       let curr = ec_get_curr_task c;
       (next_task, q) \<leftarrow> rq_pop (ec_tasks c);
       let s1 = put_cpu (cpu_id d) (c\<lparr>ec_tasks := q\<rparr>) s;
       case next_task of
         None \<Rightarrow> Some (None, s1)
       | Some p \<Rightarrow>
           if curr = 0 then do {
             s2 \<leftarrow> install_task p me s1;
             sw \<leftarrow> load_task x hhdm (ec_idle_task c) p s2;
             Some (Some sw, s2)
           }
           else do {
             ts \<leftarrow> update_tcb (\<lambda>t. t\<lparr>task_state := Ready\<rparr>) curr (sd_tasks s1);
             q' \<leftarrow> rq_push curr q;
             let s2 = put_cpu (cpu_id d) (c\<lparr>ec_tasks := q'\<rparr>) (s1\<lparr>sd_tasks := ts\<rparr>);
             s3 \<leftarrow> install_task p me s2;
             sw \<leftarrow> load_task x hhdm curr p s3;
             Some (Some sw, s3)
           }
     }
   }"

definition scheduler_tick_irq :: "('pt, 'z) X86_scheme \<Rightarrow> usize \<Rightarrow> usize \<Rightarrow> 'pt Sched \<Rightarrow> (Switch option \<times> 'pt Sched) option" where
  "scheduler_tick_irq x hhdm me s = do {
     let s1 = s\<lparr>sd_tick_count := (sd_tick_count s + 1) mod 2 ^ 64\<rparr>;
     s2 \<leftarrow> wake_sleeping_tasks me s1;
     process_tick x hhdm me s2
   }"

subsection \<open>A concrete scheduler state\<close>

definition demo_registers :: TaskRegisters where
  "demo_registers = \<lparr>r15 = 0, r14 = 0, r13 = 0, r12 = 0, rbp = 0, rbx = 0, r11 = 0, r10 = 0, r9 = 0, r8 = 0, rax = 0,
     rcx = 0, rdx = 0, rsi = 0, rdi = 0, syscall_number_or_irq_or_error_code = 0, rip = 0, cs = 0, rflags = 0, rsp = 0, ss = 0\<rparr>"

definition demo_task :: "TaskId \<Rightarrow> TaskState \<Rightarrow> usize \<Rightarrow> flat_pt Task" where
  "demo_task i st w = \<lparr>task_id = i, registers = demo_registers,
     tcb = \<lparr>wake_at_tick = w, addr_space = as_new (\<lambda>_. None), kernel_stack = \<lparr>ks_bottom = 0, ks_top = 0, ks_pages = []\<rparr>,
       cnode = cnode_new, task_state = st\<rparr>\<rparr>"

text \<open>Task 1 runs, tasks 2 and 3 are queued, task 4 sleeps until tick 10, and the tick is 12.\<close>

definition demo_storage :: "flat_pt TaskStorage" where
  "demo_storage = \<lparr>ts_heap = [3 \<mapsto> demo_task 0 Running 0, 5 \<mapsto> demo_task 1 Running 0, 7 \<mapsto> demo_task 2 Ready 0,
       9 \<mapsto> demo_task 3 Ready 0, 11 \<mapsto> demo_task 4 Sleep 10],
     ts_table = [(1, 5), (2, 7), (3, 9), (4, 11)], ts_global = []\<rparr>"

definition demo_sched :: "flat_pt Sched" where
  "demo_sched = \<lparr>sd_tasks = demo_storage, sd_cpus = [\<lparr>ec_tasks = two_tasks, ec_curr_task = 5, ec_idle_task = 3\<rparr>],
     sd_percpu = [\<lparr>cpu_id = 0, curr_task_id = 1, in_rescheduling = False, top_of_kernel_stack = 0, tss_rsp0 = 0\<rparr>],
     sd_tick_count = 12\<rparr>"

lemma two_tasks_queue: "rq_inv two_tasks" "rq_view two_tasks = [7, 9]"
proof -
  have "rq_view two_tasks = [7, 9]"
    by (simp add: rq_view_def two_tasks_def cells_def RQ_CAP_def upt_rec nth_list_update)
  then show "rq_view two_tasks = [7, 9]" "rq_inv two_tasks"
    by (simp_all add: rq_inv_def) (simp add: two_tasks_def RQ_CAP_def USIZE_MAX_def)
qed

subsection \<open>Waking\<close>

text \<open>Every entry of the task table points to a task with that number.\<close>

definition table_wf :: "'pt TaskStorage \<Rightarrow> bool" where
  "table_wf ts \<longleftrightarrow> bt_ok (ts_table ts) \<and> (\<forall>(i, p) \<in> set (ts_table ts). \<exists>t. ts_heap ts p = Some t \<and> task_id t = i)"

definition woken :: "'pt Task \<Rightarrow> 'pt Task" where
  "woken t = t\<lparr>tcb := (tcb t)\<lparr>wake_at_tick := 0, task_state := Ready\<rparr>\<rparr>"

text \<open>The tasks of the table whose time has come, in the order of their numbers.\<close>

definition due_entries :: "usize \<Rightarrow> 'pt TaskStorage \<Rightarrow> (TaskIdIndex \<times> TaskPtr) list" where
  "due_entries now ts = filter (\<lambda>(_, p). case ts_heap ts p of Some t \<Rightarrow> due now t | None \<Rightarrow> False) (ts_table ts)"

lemma bt_insert_same: "bt_ok m \<Longrightarrow> (k, v) \<in> set m \<Longrightarrow> bt_insert k v m = m"
proof (induction m)
  case (Cons e m)
  obtain j w where e: "e = (j, w)" by force
  show ?case
  proof (cases "(k, v) = (j, w)")
    case False
    then have m: "(k, v) \<in> set m" using Cons.prems e by auto
    then have "j < k" using Cons.prems(1) e by (force simp: bt_ok_Cons)
    then show ?thesis using Cons.IH m Cons.prems(1) e by (auto simp: bt_ok_Cons)
  qed (simp add: e)
qed simp

lemma collect_due_ok:
  assumes "table_wf ts"
  shows "collect_due now ts = Some (map fst (due_entries now ts))"
proof -
  have "for_each (\<lambda>p acc. do { t \<leftarrow> ts_heap ts p; Some (if due now t then acc @ [task_id t] else acc) }) (map snd m) acc
      = Some (acc @ map fst (filter (\<lambda>(_, p). case ts_heap ts p of Some t \<Rightarrow> due now t | None \<Rightarrow> False) m))"
    if "\<forall>(i, p) \<in> set m. \<exists>t. ts_heap ts p = Some t \<and> task_id t = i" for m acc
    using that by (induction m arbitrary: acc) auto
  then show ?thesis using assms by (simp add: collect_due_def due_entries_def table_wf_def bt_values_def)
qed

lemma wake_one_ok:
  assumes "table_wf ts" "(i, p) \<in> set (ts_table ts)" "ts_heap ts p = Some t"
  shows "wake_one i ts = Some (ts\<lparr>ts_heap := (ts_heap ts)(p \<mapsto> woken t), ts_global := ts_global ts @ [p]\<rparr>)"
proof -
  have i: "task_id t = i" using assms by (auto simp: table_wf_def)
  have g: "get_task_by_index i ts = Some p"
    using assms(1,2) bt_get_Some[of "ts_table ts" i p] by (simp add: get_task_by_index_def get_by_index_def table_wf_def)
  show ?thesis using assms i g bt_insert_same[of "ts_table ts" i p]
    by (simp add: wake_one_def update_tcb_def awaken_task_def add_task_to_execute_def table_insert_def global_push_def woken_def table_wf_def)
qed

lemma wake_all_ok:
  assumes "table_wf ts" "set es \<subseteq> set (ts_table ts)" "distinct (map snd es)"
  shows "\<exists>ts'. for_each wake_one (map fst es) ts = Some ts' \<and> ts_table ts' = ts_table ts \<and> ts_global ts' = ts_global ts @ map snd es
     \<and> (\<forall>p. ts_heap ts' p = (if p \<in> set (map snd es) then map_option woken (ts_heap ts p) else ts_heap ts p))"
  using assms
proof (induction es arbitrary: ts)
  case (Cons e es)
  obtain i p where e: "e = (i, p)" by force
  then have ip: "(i, p) \<in> set (ts_table ts)" using Cons.prems(2) by simp
  then obtain t where t: "ts_heap ts p = Some t" "task_id t = i" using Cons.prems(1) by (auto simp: table_wf_def)
  let ?ts = "ts\<lparr>ts_heap := (ts_heap ts)(p \<mapsto> woken t), ts_global := ts_global ts @ [p]\<rparr>"
  have w: "wake_one i ts = Some ?ts" using wake_one_ok[OF Cons.prems(1) ip t(1)] .
  have "table_wf ?ts" using Cons.prems(1) t by (force simp: table_wf_def woken_def)
  then obtain ts' where ts': "for_each wake_one (map fst es) ?ts = Some ts'" "ts_table ts' = ts_table ts" "ts_global ts' = ts_global ts @ p # map snd es"
      "\<forall>q. ts_heap ts' q = (if q \<in> set (map snd es) then map_option woken (ts_heap ?ts q) else ts_heap ?ts q)"
    using Cons.IH[of ?ts] Cons.prems(2,3) e by auto
  have "p \<notin> set (map snd es)" using Cons.prems(3) e by simp
  then have "ts_heap ts' q = (if q \<in> set (map snd (e # es)) then map_option woken (ts_heap ts q) else ts_heap ts q)" for q
    using ts'(4) t e by simp
  then show ?case using w ts'(1-3) e by simp
qed simp

lemma table_ptrs_distinct:
  assumes "table_wf ts"
  shows "distinct (map snd (due_entries now ts))"
proof -
  have "inj_on snd (set (ts_table ts))"
  proof (rule inj_onI)
    fix a b assume ab: "a \<in> set (ts_table ts)" "b \<in> set (ts_table ts)" "snd a = snd b"
    have "\<exists>t. ts_heap ts (snd e) = Some t \<and> task_id t = fst e" if "e \<in> set (ts_table ts)" for e
      using assms that by (auto simp: table_wf_def)
    then have "fst a = fst b" using ab by (metis option.inject)
    then show "a = b" using ab(3) by (simp add: prod_eq_iff)
  qed
  moreover have "distinct (ts_table ts)"
    using assms strict_sorted_iff distinct_map by (fastforce simp: table_wf_def bt_ok_def)
  ultimately show ?thesis by (auto simp: due_entries_def distinct_map inj_on_def)
qed

text \<open>
  C1. The timer wakes exactly the tasks whose time has come. On processor 0 every task of the table
  that sleeps with a wake-up tick that is set and reached becomes ready, its wake-up tick is reset,
  and it joins the global run queue once, in the order of the task numbers; no other task and
  nothing else changes. On the other processors nothing happens.
\<close>

theorem wake_sleeping_exact:
  assumes "table_wf (sd_tasks s)" "me < length (sd_percpu s)"
  shows "\<exists>s'. wake_sleeping_tasks me s = Some s'
     \<and> (if cpu_id (sd_percpu s ! me) \<noteq> 0 then s' = s
        else let now = sd_tick_count s; ts = sd_tasks s; ts' = sd_tasks s'
          in s' = s\<lparr>sd_tasks := ts'\<rparr> \<and> ts_table ts' = ts_table ts \<and> ts_global ts' = ts_global ts @ map snd (due_entries now ts)
            \<and> (\<forall>p. ts_heap ts' p = (if p \<in> set (map snd (due_entries now ts)) then map_option woken (ts_heap ts p) else ts_heap ts p)))"
proof (cases "cpu_id (sd_percpu s ! me) = 0")
  case True
  let ?es = "due_entries (sd_tick_count s) (sd_tasks s)"
  have "set ?es \<subseteq> set (ts_table (sd_tasks s))" by (auto simp: due_entries_def)
  then obtain ts' where "for_each wake_one (map fst ?es) (sd_tasks s) = Some ts'" "ts_table ts' = ts_table (sd_tasks s)"
      "ts_global ts' = ts_global (sd_tasks s) @ map snd ?es"
      "\<forall>p. ts_heap ts' p = (if p \<in> set (map snd ?es) then map_option woken (ts_heap (sd_tasks s) p) else ts_heap (sd_tasks s) p)"
    using wake_all_ok[OF assms(1) _ table_ptrs_distinct[OF assms(1)]] by blast
  then show ?thesis using True assms(2) collect_due_ok[OF assms(1)]
    by (intro exI[of _ "s\<lparr>sd_tasks := ts'\<rparr>"]) (simp add: wake_sleeping_tasks_def Let_def)
next
  case False
  then show ?thesis using assms(2) by (simp add: wake_sleeping_tasks_def)
qed

lemma demo_table_wf: "table_wf demo_storage"
  by (simp add: table_wf_def demo_storage_def demo_task_def bt_ok_def)

theorem wake_sleeping_exact_witness:
  "\<exists>s'. wake_sleeping_tasks 0 demo_sched = Some s' \<and> ts_global (sd_tasks s') = [11]
     \<and> ts_heap (sd_tasks s') 11 = Some (demo_task 4 Ready 0) \<and> ts_heap (sd_tasks s') 7 = Some (demo_task 2 Ready 0)"
proof -
  have wf: "table_wf (sd_tasks demo_sched)" using demo_table_wf by (simp add: demo_sched_def)
  have es: "due_entries 12 demo_storage = [(4, 11)]" by (simp add: due_entries_def demo_storage_def demo_task_def due_def)
  show ?thesis using wake_sleeping_exact[OF wf, of 0] es
    by (simp add: demo_sched_def Let_def) (auto simp: demo_storage_def demo_task_def woken_def)
qed

subsection \<open>The timer tick\<close>

definition runnable :: "('pt, 'z) X86_scheme \<Rightarrow> usize \<Rightarrow> 'pt TaskStorage \<Rightarrow> TaskPtr \<Rightarrow> bool" where
  "runnable x hhdm ts p \<longleftrightarrow> p \<noteq> 0 \<and> (\<exists>t. ts_heap ts p = Some t \<and> get_page_table_phys x hhdm (addr_space (tcb t)) \<noteq> None)"

text \<open>The record of processor \<open>me\<close>, and the state in which it takes a tick.\<close>

definition my_cpu :: "usize \<Rightarrow> 'pt Sched \<Rightarrow> ExecCpu" where
  "my_cpu me s = sd_cpus s ! cpu_id (sd_percpu s ! me)"

definition tick_ok :: "('pt, 'z) X86_scheme \<Rightarrow> usize \<Rightarrow> usize \<Rightarrow> 'pt Sched \<Rightarrow> bool" where
  "tick_ok x hhdm me s \<longleftrightarrow> me < length (sd_percpu s) \<and> \<not> in_rescheduling (sd_percpu s ! me)
     \<and> cpu_id (sd_percpu s ! me) < length (sd_cpus s) \<and> rq_inv (ec_tasks (my_cpu me s))
     \<and> (\<forall>p \<in> set (rq_view (ec_tasks (my_cpu me s))). runnable x hhdm (sd_tasks s) p)
     \<and> (ec_curr_task (my_cpu me s) \<noteq> 0 \<longrightarrow> runnable x hhdm (sd_tasks s) (ec_curr_task (my_cpu me s)))"

definition with_state :: "TaskState \<Rightarrow> TaskPtr \<Rightarrow> (TaskPtr \<Rightarrow> 'pt Task option) \<Rightarrow> TaskPtr \<Rightarrow> 'pt Task option" where
  "with_state st p h = h(p := map_option (\<lambda>t. t\<lparr>tcb := (tcb t)\<lparr>task_state := st\<rparr>\<rparr>) (h p))"

lemma update_state: "ts_heap ts p = Some t \<Longrightarrow>
    update_tcb (\<lambda>t. t\<lparr>task_state := st\<rparr>) p ts = Some (ts\<lparr>ts_heap := with_state st p (ts_heap ts)\<rparr>)"
  by (simp add: update_tcb_def with_state_def)

lemma runnable_with_state: "runnable x hhdm (ts\<lparr>ts_heap := with_state st p (ts_heap ts)\<rparr>) q \<longleftrightarrow> runnable x hhdm ts q"
  by (auto simp: runnable_def with_state_def)

lemma runnableE:
  assumes "runnable x hhdm ts p"
  obtains t cr3 where "p \<noteq> 0" "ts_heap ts p = Some t" "get_page_table_phys x hhdm (addr_space (tcb t)) = Some cr3"
  using assms by (auto simp: runnable_def)

lemma install_ok:
  assumes "runnable x hhdm (sd_tasks s) p" "me < length (sd_percpu s)" "cpu_id (sd_percpu s ! me) < length (sd_cpus s)"
  shows "\<exists>s' sw. install_task p me s = Some s' \<and> load_task x hhdm q p s' = Some sw
     \<and> sd_tasks s' = (sd_tasks s)\<lparr>ts_heap := with_state Running p (ts_heap (sd_tasks s))\<rparr>
     \<and> sd_cpus s' = (sd_cpus s)[cpu_id (sd_percpu s ! me) := (my_cpu me s)\<lparr>ec_curr_task := p\<rparr>]
     \<and> length (sd_percpu s') = length (sd_percpu s)
     \<and> cpu_id (sd_percpu s' ! me) = cpu_id (sd_percpu s ! me) \<and> in_rescheduling (sd_percpu s' ! me) = in_rescheduling (sd_percpu s ! me)
     \<and> Some (curr_task_id (sd_percpu s' ! me)) = map_option task_id (ts_heap (sd_tasks s) p)
     \<and> sd_tick_count s' = sd_tick_count s \<and> (\<exists>t. ts_heap (sd_tasks s) p = Some t
         \<and> sw = SwitchTo q (rsp (registers t)) (the (get_page_table_phys x hhdm (addr_space (tcb t)))))"
proof -
  obtain t cr3 where t: "p \<noteq> 0" "ts_heap (sd_tasks s) p = Some t" "get_page_table_phys x hhdm (addr_space (tcb t)) = Some cr3"
    using runnableE[OF assms(1)] by blast
  show ?thesis using assms(2,3) t update_state[OF t(2), of Running]
    by (simp add: install_task_def load_task_def put_cpu_def put_percpu_def ec_set_curr_task_def my_cpu_def with_state_def Let_def)
qed

lemma put_my_cpu:
  assumes "me < length (sd_percpu s)" "cpu_id (sd_percpu s ! me) < length (sd_cpus s)"
  shows "my_cpu me (put_cpu (cpu_id (sd_percpu s ! me)) c s) = c"
  using assms by (simp add: my_cpu_def put_cpu_def)

lemma process_tick_ok:
  assumes ok: "tick_ok x hhdm me s" and b: "rq_bottom (ec_tasks (my_cpu me s)) < USIZE_MAX"
  defines "i \<equiv> cpu_id (sd_percpu s ! me)" and "c \<equiv> my_cpu me s" and "h \<equiv> ts_heap (sd_tasks s)"
  defines "q \<equiv> rq_view (ec_tasks c)" and "cu \<equiv> ec_curr_task c"
  assumes ne: "q \<noteq> []"
  shows "\<exists>sw s'. process_tick x hhdm me s = Some (Some sw, s') \<and> tick_ok x hhdm me s'
     \<and> ec_curr_task (my_cpu me s') = last q \<and> rq_view (ec_tasks (my_cpu me s')) = butlast q @ (if cu = 0 then [] else [cu])
     \<and> sd_tasks s' = (sd_tasks s)\<lparr>ts_heap := with_state Running (last q) (if cu = 0 then h else with_state Ready cu h)\<rparr>
     \<and> Some (curr_task_id (sd_percpu s' ! me)) = map_option task_id (h (last q))
     \<and> cpu_id (sd_percpu s' ! me) = i \<and> (\<forall>j. j \<noteq> i \<longrightarrow> sd_cpus s' ! j = sd_cpus s ! j)
     \<and> (\<exists>t. h (last q) = Some t \<and> sw = SwitchTo (if cu = 0 then ec_idle_task c else cu) (rsp (registers t))
          (the (get_page_table_phys x hhdm (addr_space (tcb t)))))
     \<and> rq_bottom (ec_tasks (my_cpu me s')) \<le> rq_bottom (ec_tasks c) + 1"
proof -
  have me: "me < length (sd_percpu s)" "\<not> in_rescheduling (sd_percpu s ! me)" "i < length (sd_cpus s)" "rq_inv (ec_tasks c)"
      and run: "\<forall>p \<in> set q. runnable x hhdm (sd_tasks s) p" "cu \<noteq> 0 \<Longrightarrow> runnable x hhdm (sd_tasks s) cu"
    using ok by (auto simp: tick_ok_def i_def c_def q_def cu_def)
  have c: "sd_cpus s ! i = c" by (simp add: c_def my_cpu_def i_def)
  obtain q1 where pop: "rq_pop (ec_tasks c) = Some (Some (last q), q1)" "rq_inv q1" "rq_view q1 = butlast q" "rq_bottom q1 \<le> rq_bottom (ec_tasks c)"
    using rq_pop_ok[OF me(4)] ne by (auto simp: q_def)
  have nr: "runnable x hhdm (sd_tasks s) (last q)" using run(1) ne by simp
  show ?thesis
  proof (cases "cu = 0")
    case True
    let ?s1 = "put_cpu i (c\<lparr>ec_tasks := q1\<rparr>) s"
    have my: "my_cpu me ?s1 = c\<lparr>ec_tasks := q1\<rparr>" using put_my_cpu me(1,3) by (simp add: i_def)
    have p1: "sd_percpu ?s1 = sd_percpu s" "sd_tasks ?s1 = sd_tasks s" "length (sd_cpus ?s1) = length (sd_cpus s)" by (simp_all add: put_cpu_def)
    obtain s' sw where i': "install_task (last q) me ?s1 = Some s'" "load_task x hhdm (ec_idle_task c) (last q) s' = Some sw"
        "sd_tasks s' = (sd_tasks s)\<lparr>ts_heap := with_state Running (last q) h\<rparr>"
        "sd_cpus s' = (sd_cpus ?s1)[i := c\<lparr>ec_tasks := q1, ec_curr_task := last q\<rparr>]"
        "length (sd_percpu s') = length (sd_percpu s)" "cpu_id (sd_percpu s' ! me) = i" "\<not> in_rescheduling (sd_percpu s' ! me)"
        "Some (curr_task_id (sd_percpu s' ! me)) = map_option task_id (h (last q))"
        "\<exists>t. h (last q) = Some t \<and> sw = SwitchTo (ec_idle_task c) (rsp (registers t)) (the (get_page_table_phys x hhdm (addr_space (tcb t))))"
      using install_ok[of x hhdm ?s1 "last q" me "ec_idle_task c"] nr me p1 my unfolding i_def h_def by (simp only: simp_thms) metis
    have "my_cpu me s' = c\<lparr>ec_tasks := q1, ec_curr_task := last q\<rparr>" using i'(4,6) me(3) p1(3) by (simp add: my_cpu_def)
    moreover have "process_tick x hhdm me s = Some (Some sw, s')"
      using me c pop(1) True i'(1,2) by (simp add: process_tick_def ec_get_curr_task_def i_def[symmetric] cu_def[symmetric] Let_def)
    moreover have "\<forall>j. j \<noteq> i \<longrightarrow> sd_cpus s' ! j = sd_cpus s ! j" using i'(4) by (simp add: put_cpu_def)
    moreover have "tick_ok x hhdm me s'"
      using calculation(1) i' me p1(3) pop(2,3) run(1) nr
      by (auto simp: tick_ok_def runnable_with_state h_def dest: in_set_butlastD)
    ultimately show ?thesis using True i' pop by (intro exI[of _ sw] exI[of _ s']) simp
  next
    case False
    have cr: "runnable x hhdm (sd_tasks s) cu" using run(2) False by blast
    obtain t0 where t0: "h cu = Some t0" using cr by (auto simp: runnable_def h_def)
    let ?ts = "(sd_tasks s)\<lparr>ts_heap := with_state Ready cu h\<rparr>"
    have upd: "update_tcb (\<lambda>t. t\<lparr>task_state := Ready\<rparr>) cu (sd_tasks s) = Some ?ts" using update_state t0 by (simp add: h_def)
    have "0 < length q" "length q \<le> RQ_CAP" using ne me(4) by (simp, simp add: rq_inv_def q_def rq_view_def)
    moreover have "length (rq_view q1) = length q - 1" using pop(3) by simp
    ultimately have "length (rq_view q1) < RQ_CAP" by linarith
    then obtain q2 where push: "rq_push cu q1 = Some q2" "rq_inv q2" "rq_view q2 = butlast q @ [cu]" "rq_bottom q2 = rq_bottom q1 + 1"
      using rq_push_ok[OF pop(2), of cu] False pop(3,4) b by (auto simp: c_def)
    let ?s2 = "put_cpu i (c\<lparr>ec_tasks := q2\<rparr>) (put_cpu i (c\<lparr>ec_tasks := q1\<rparr>) s\<lparr>sd_tasks := ?ts\<rparr>)"
    have my: "my_cpu me ?s2 = c\<lparr>ec_tasks := q2\<rparr>" using me(1,3) by (simp add: i_def my_cpu_def put_cpu_def)
    have p1: "sd_percpu ?s2 = sd_percpu s" "sd_tasks ?s2 = ?ts" "length (sd_cpus ?s2) = length (sd_cpus s)" by (simp_all add: put_cpu_def)
    have nr2: "runnable x hhdm (sd_tasks ?s2) (last q)" using nr p1(2) by (simp add: runnable_with_state h_def)
    obtain s' sw t where i': "install_task (last q) me ?s2 = Some s'" "load_task x hhdm cu (last q) s' = Some sw"
        "sd_tasks s' = ?ts\<lparr>ts_heap := with_state Running (last q) (with_state Ready cu h)\<rparr>"
        "sd_cpus s' = (sd_cpus ?s2)[i := c\<lparr>ec_tasks := q2, ec_curr_task := last q\<rparr>]"
        "length (sd_percpu s') = length (sd_percpu s)" "cpu_id (sd_percpu s' ! me) = i" "\<not> in_rescheduling (sd_percpu s' ! me)"
        "Some (curr_task_id (sd_percpu s' ! me)) = map_option task_id (with_state Ready cu h (last q))"
        "with_state Ready cu h (last q) = Some t" "sw = SwitchTo cu (rsp (registers t)) (the (get_page_table_phys x hhdm (addr_space (tcb t))))"
      using install_ok[OF nr2, of me cu] me p1 my unfolding i_def by fastforce
    have my': "my_cpu me s' = c\<lparr>ec_tasks := q2, ec_curr_task := last q\<rparr>" using i'(4,6) me(3) p1(3) by (simp add: my_cpu_def)
    have pt: "process_tick x hhdm me s = Some (Some sw, s')"
      using me c pop(1) False i'(1,2) upd push(1)
      by (simp add: process_tick_def ec_get_curr_task_def i_def[symmetric] cu_def[symmetric] Let_def) (simp add: put_cpu_def)
    have oth: "\<forall>j. j \<noteq> i \<longrightarrow> sd_cpus s' ! j = sd_cpus s ! j" using i'(4) by (simp add: put_cpu_def)
    have "runnable x hhdm (sd_tasks s') p \<longleftrightarrow> runnable x hhdm (sd_tasks s) p" for p
      using i'(3) by (simp add: h_def runnable_with_state[where ts = ?ts, unfolded h_def, simplified] runnable_with_state[where ts = "sd_tasks s"])
    then have tk: "tick_ok x hhdm me s'"
      using my' i' me p1(3) push run nr cr by (auto simp: tick_ok_def dest: in_set_butlastD)
    have tt: "\<exists>t'. h (last q) = Some t' \<and> registers t' = registers t \<and> addr_space (tcb t') = addr_space (tcb t) \<and> task_id t' = task_id t"
      using i'(9) by (auto simp: with_state_def split: if_splits)
    then have "Some (curr_task_id (sd_percpu s' ! me)) = map_option task_id (h (last q))" using i'(8,9) by auto
    then show ?thesis using False i' my' pt oth tk tt push pop(4) by (intro exI[of _ sw] exI[of _ s']) auto
  qed
qed

lemma demo_tick_ok: "tick_ok flat_x86 0 0 demo_sched" "my_cpu 0 demo_sched = \<lparr>ec_tasks = two_tasks, ec_curr_task = 5, ec_idle_task = 3\<rparr>"
proof -
  have p: "get_page_table_phys flat_x86 0 (as_new (\<lambda>_. None)) = Some 0" by (simp add: get_page_table_phys_def virt_to_phys_def flat_x86_def)
  show "my_cpu 0 demo_sched = \<lparr>ec_tasks = two_tasks, ec_curr_task = 5, ec_idle_task = 3\<rparr>" by (simp add: my_cpu_def demo_sched_def)
  then show "tick_ok flat_x86 0 0 demo_sched" using two_tasks_queue
    by (simp add: tick_ok_def runnable_def) (simp add: demo_sched_def demo_storage_def demo_task_def p)
qed

lemma demo_bottom: "rq_bottom two_tasks = 1025"
  by (simp add: two_tasks_def)

text \<open>
  C1. What a timer tick does on a processor that is not in its idle loop. With an empty queue nothing
  changes. Otherwise the task at the end of the queue becomes the current one and is running, the
  task that was current goes back to the end of the queue and is ready, the order of the other tasks
  and the other processors stay as they are, and the switch saves the stack pointer of the task that
  was current (of the idle task when there was none) and loads that of the new one. So no task is
  lost and none is duplicated.
\<close>

theorem process_tick_exact:
  assumes "tick_ok x hhdm me s" "rq_bottom (ec_tasks (my_cpu me s)) < USIZE_MAX"
  shows "let i = cpu_id (sd_percpu s ! me); c = my_cpu me s; h = ts_heap (sd_tasks s);
             q = rq_view (ec_tasks c); cu = ec_curr_task c
    in if q = [] then process_tick x hhdm me s = Some (None, s)
       else \<exists>t s'. h (last q) = Some t
         \<and> process_tick x hhdm me s = Some (Some (SwitchTo (if cu = 0 then ec_idle_task c else cu) (rsp (registers t))
             (the (get_page_table_phys x hhdm (addr_space (tcb t))))), s')
         \<and> tick_ok x hhdm me s' \<and> ec_curr_task (my_cpu me s') = last q
         \<and> rq_view (ec_tasks (my_cpu me s')) = butlast q @ (if cu = 0 then [] else [cu])
         \<and> sd_tasks s' = (sd_tasks s)\<lparr>ts_heap := with_state Running (last q) (if cu = 0 then h else with_state Ready cu h)\<rparr>
         \<and> curr_task_id (sd_percpu s' ! me) = task_id t \<and> (\<forall>j. j \<noteq> i \<longrightarrow> sd_cpus s' ! j = sd_cpus s ! j)"
proof (cases "rq_view (ec_tasks (my_cpu me s)) = []")
  case True
  have me: "me < length (sd_percpu s)" "\<not> in_rescheduling (sd_percpu s ! me)" "cpu_id (sd_percpu s ! me) < length (sd_cpus s)"
      "rq_inv (ec_tasks (my_cpu me s))" using assms(1) by (auto simp: tick_ok_def)
  have "rq_bottom (ec_tasks (my_cpu me s)) = rq_top (ec_tasks (my_cpu me s))"
    using True me(4) by (auto simp: rq_view_def rq_inv_def cells_def)
  then have "rq_pop (ec_tasks (my_cpu me s)) = Some (None, ec_tasks (my_cpu me s))" by (simp add: rq_pop_def)
  then have "process_tick x hhdm me s = Some (None, s)"
    using me(1-3) by (simp add: process_tick_def put_cpu_def my_cpu_def Let_def)
  then show ?thesis using True by (simp add: Let_def)
next
  case False
  let ?c = "my_cpu me s" and ?h = "ts_heap (sd_tasks s)"
  let ?q = "rq_view (ec_tasks ?c)" and ?cu = "ec_curr_task ?c"
  obtain sw s' t where "process_tick x hhdm me s = Some (Some sw, s')" "tick_ok x hhdm me s'"
      "ec_curr_task (my_cpu me s') = last ?q" "rq_view (ec_tasks (my_cpu me s')) = butlast ?q @ (if ?cu = 0 then [] else [?cu])"
      "sd_tasks s' = (sd_tasks s)\<lparr>ts_heap := with_state Running (last ?q) (if ?cu = 0 then ?h else with_state Ready ?cu ?h)\<rparr>"
      "Some (curr_task_id (sd_percpu s' ! me)) = map_option task_id (?h (last ?q))"
      "\<forall>j. j \<noteq> cpu_id (sd_percpu s ! me) \<longrightarrow> sd_cpus s' ! j = sd_cpus s ! j" "?h (last ?q) = Some t"
      "sw = SwitchTo (if ?cu = 0 then ec_idle_task ?c else ?cu) (rsp (registers t)) (the (get_page_table_phys x hhdm (addr_space (tcb t))))"
    using process_tick_ok[OF assms False] by blast
  then show ?thesis using False unfolding Let_def by simp
qed

theorem process_tick_exact_witness:
  "\<exists>s'. process_tick flat_x86 0 0 demo_sched = Some (Some (SwitchTo 5 0 0), s')
     \<and> ec_curr_task (my_cpu 0 s') = 9 \<and> rq_view (ec_tasks (my_cpu 0 s')) = [7, 5]"
proof -
  have p: "get_page_table_phys flat_x86 0 (as_new (\<lambda>_. None)) = Some 0" by (simp add: get_page_table_phys_def virt_to_phys_def flat_x86_def)
  have t: "ts_heap (sd_tasks demo_sched) 9 = Some (demo_task 3 Ready 0)" by (simp add: demo_sched_def demo_storage_def)
  have b: "rq_bottom (ec_tasks (my_cpu 0 demo_sched)) < USIZE_MAX" by (simp add: demo_tick_ok(2) demo_bottom USIZE_MAX_def)
  show ?thesis using process_tick_exact[OF demo_tick_ok(1) b] t p
    by (auto simp: Let_def demo_tick_ok(2) two_tasks_queue demo_task_def demo_registers_def)
qed

text \<open>A number of ticks on one processor.\<close>

fun ticks :: "('pt, 'z) X86_scheme \<Rightarrow> usize \<Rightarrow> usize \<Rightarrow> nat \<Rightarrow> 'pt Sched \<Rightarrow> 'pt Sched option" where
  "ticks x hhdm me 0 s = Some s"
| "ticks x hhdm me (Suc n) s = do {
     (_, s') \<leftarrow> process_tick x hhdm me s;
     ticks x hhdm me n s'
   }"

text \<open>
  C2. The queue serves the task that joined it last, and the preempted task joins at that end. While
  a processor has a current task \<open>a\<close> and its queue ends in \<open>b\<close>, the two take turns at every tick, and
  the tasks \<open>ws\<close> in front of \<open>b\<close> wait at their places without ever being run, however many ticks pass.
\<close>

theorem ticks_starve_queue:
  assumes "tick_ok x hhdm me s" "rq_view (ec_tasks (my_cpu me s)) = ws @ [b]" "ec_curr_task (my_cpu me s) = a" "a \<noteq> 0"
    and "rq_bottom (ec_tasks (my_cpu me s)) + n \<le> USIZE_MAX"
  shows "\<exists>s'. ticks x hhdm me n s = Some s'
     \<and> (if even n then ec_curr_task (my_cpu me s') = a \<and> rq_view (ec_tasks (my_cpu me s')) = ws @ [b]
        else ec_curr_task (my_cpu me s') = b \<and> rq_view (ec_tasks (my_cpu me s')) = ws @ [a])"
  using assms
proof (induction n arbitrary: s a b)
  case (Suc n)
  have b: "rq_bottom (ec_tasks (my_cpu me s)) < USIZE_MAX" "rq_view (ec_tasks (my_cpu me s)) \<noteq> []" using Suc.prems by auto
  obtain sw s1 where 1: "process_tick x hhdm me s = Some (Some sw, s1)" "tick_ok x hhdm me s1" "ec_curr_task (my_cpu me s1) = b"
      "rq_view (ec_tasks (my_cpu me s1)) = ws @ [a]" "rq_bottom (ec_tasks (my_cpu me s1)) \<le> rq_bottom (ec_tasks (my_cpu me s)) + 1"
    using process_tick_ok[OF Suc.prems(1) b] Suc.prems(2-4) by auto
  have "b \<noteq> 0" using Suc.prems(1,2) by (auto simp: tick_ok_def rq_inv_def)
  then show ?case using Suc.IH[OF 1(2,4,3)] 1(1,5) Suc.prems(5) by auto
qed simp

theorem ticks_starve_queue_witness:
  "\<exists>s'. ticks flat_x86 0 0 1000 demo_sched = Some s' \<and> ec_curr_task (my_cpu 0 s') = 5 \<and> rq_view (ec_tasks (my_cpu 0 s')) = [7, 9]"
  using ticks_starve_queue[OF demo_tick_ok(1), of "[7]" 9 5 1000]
  by (simp add: demo_tick_ok(2) two_tasks_queue demo_bottom USIZE_MAX_def)

subsection \<open>Stealing from the other processors\<close>

definition queue_of :: "ExecCpu \<Rightarrow> TaskPtr list" where
  "queue_of c = rq_view (ec_tasks c)"

text \<open>Every other processor has tasks to give, seen from processor 0.\<close>

definition loaded :: "usize \<Rightarrow> usize \<Rightarrow> ExecCpu list \<Rightarrow> bool" where
  "loaded k n cpus \<longleftrightarrow> (\<forall>i. n < i \<and> i < length cpus \<longrightarrow> rq_inv (ec_tasks (cpus ! i)) \<and> k \<le> length (queue_of (cpus ! i)))"

lemma steal_step:
  assumes "rq_inv (ec_tasks c)" "0 < k" "k \<le> length (queue_of c)"
  shows "\<exists>q. rq_steal_n STEAL_BATCH_PER_CPU (ec_tasks c) = Some ([hd (queue_of c)], q) \<and> rq_view q = tl (queue_of c) \<and> \<not> rq_len (ec_tasks c) < k"
proof -
  obtain q where q: "rq_steal_n 1 (ec_tasks c) = Some (take 1 (queue_of c), q)" "rq_view q = drop 1 (queue_of c)"
    using rq_steal_n_ok[OF assms(1)] unfolding queue_of_def by blast
  have "take 1 (queue_of c) = [hd (queue_of c)]" using assms(2,3) by (cases "queue_of c") auto
  then show ?thesis using q rq_len_view[OF assms(1)] assms(3) unfolding STEAL_BATCH_PER_CPU_def by (simp only: queue_of_def) (simp add: drop_Suc)
qed

lemma steal_cpus_full:
  assumes "0 < k" "length buf = k" "n \<le> k" "k + 1 < length cpus" "loaded k n cpus"
  shows "\<exists>cpus'. steal_cpus [n + 1..<length cpus] 0 n buf cpus
      = Some (k, take n buf @ map (\<lambda>i. Some (hd (queue_of (cpus ! i)))) [n + 1..<k + 1], cpus')
     \<and> length cpus' = length cpus
     \<and> (\<forall>i < length cpus. queue_of (cpus' ! i) = (if n < i \<and> i \<le> k + 1 then tl (queue_of (cpus ! i)) else queue_of (cpus ! i)))"
  using assms
proof (induction "k - n" arbitrary: n buf cpus)
  case 0
  have n: "n = k" using 0 by simp
  have c: "rq_inv (ec_tasks (cpus ! (k + 1)))" "k \<le> length (queue_of (cpus ! (k + 1)))"
    using 0 n by (auto simp: loaded_def)
  obtain q where q: "rq_steal_n STEAL_BATCH_PER_CPU (ec_tasks (cpus ! (k + 1))) = Some ([hd (queue_of (cpus ! (k + 1)))], q)"
      "rq_view q = tl (queue_of (cpus ! (k + 1)))" "\<not> rq_len (ec_tasks (cpus ! (k + 1))) < k"
    using steal_step[OF c(1) 0(2) c(2)] by blast
  have up: "[k + 1..<length cpus] = (k + 1) # [k + 2..<length cpus]" using 0 by (simp add: upt_conv_Cons)
  let ?cpus = "cpus[k + 1 := (cpus ! (k + 1))\<lparr>ec_tasks := q\<rparr>]"
  have "steal_cpus [k + 1..<length cpus] 0 k buf cpus = Some (k, buf, ?cpus)"
    unfolding up using 0(3,5) n q by simp
  moreover have "queue_of (?cpus ! i) = (if k < i \<and> i \<le> k + 1 then tl (queue_of (cpus ! i)) else queue_of (cpus ! i))" if "i < length cpus" for i
  proof (cases "i = k + 1")
    case True
    then show ?thesis using q(2) 0(5) by (simp add: queue_of_def)
  qed auto
  ultimately show ?case using n 0(3) by (intro exI[of _ ?cpus]) simp
next
  case (Suc d)
  have n: "n < k" "n + 1 < length cpus" "d = k - (n + 1)" using Suc by auto
  have c: "rq_inv (ec_tasks (cpus ! (n + 1)))" "k \<le> length (queue_of (cpus ! (n + 1)))"
    using Suc.prems n by (auto simp: loaded_def)
  obtain q where q: "rq_steal_n STEAL_BATCH_PER_CPU (ec_tasks (cpus ! (n + 1))) = Some ([hd (queue_of (cpus ! (n + 1)))], q)"
      "rq_view q = tl (queue_of (cpus ! (n + 1)))" "\<not> rq_len (ec_tasks (cpus ! (n + 1))) < k"
    using steal_step[OF c(1) Suc.prems(1) c(2)] by blast
  have up: "[n + 1..<length cpus] = (n + 1) # [n + 2..<length cpus]" using n by (simp add: upt_conv_Cons)
  let ?cpus = "cpus[n + 1 := (cpus ! (n + 1))\<lparr>ec_tasks := q\<rparr>]" and ?buf = "buf[n := Some (hd (queue_of (cpus ! (n + 1))))]"
  have step: "steal_cpus [n + 1..<length cpus] 0 n buf cpus = steal_cpus [n + 2..<length cpus] 0 (n + 1) ?buf ?cpus"
    unfolding up using Suc.prems(2) n q by simp
  have ld: "loaded k (n + 1) ?cpus" using Suc.prems(5) by (auto simp: loaded_def)
  have "length ?buf = k" "n + 1 \<le> k" "k + 1 < length ?cpus" using Suc.prems n by simp_all
  then obtain cpus' where c': "steal_cpus [n + 1 + 1..<length ?cpus] 0 (n + 1) ?buf ?cpus
        = Some (k, take (n + 1) ?buf @ map (\<lambda>i. Some (hd (queue_of (?cpus ! i)))) [n + 1 + 1..<k + 1], cpus')"
      "length cpus' = length ?cpus"
      "\<forall>i < length ?cpus. queue_of (cpus' ! i) = (if n + 1 < i \<and> i \<le> k + 1 then tl (queue_of (?cpus ! i)) else queue_of (?cpus ! i))"
    using Suc.hyps(1)[OF n(3) Suc.prems(1) _ _ _ ld] by blast
  have out: "take (n + 1) ?buf @ map (\<lambda>i. Some (hd (queue_of (?cpus ! i)))) [n + 1 + 1..<k + 1]
      = take n buf @ map (\<lambda>i. Some (hd (queue_of (cpus ! i)))) [n + 1..<k + 1]"
  proof -
    have "take (n + 1) ?buf = take n buf @ [Some (hd (queue_of (cpus ! (n + 1))))]" using Suc.prems(2) n by (simp add: take_Suc_conv_app_nth)
    moreover have "[n + 1..<k + 1] = (n + 1) # [n + 1 + 1..<k + 1]" using n by (simp add: upt_conv_Cons)
    moreover have "map (\<lambda>i. Some (hd (queue_of (?cpus ! i)))) [n + 1 + 1..<k + 1] = map (\<lambda>i. Some (hd (queue_of (cpus ! i)))) [n + 1 + 1..<k + 1]"
      by (rule map_cong) auto
    ultimately show ?thesis by simp
  qed
  have "queue_of (cpus' ! i) = (if n < i \<and> i \<le> k + 1 then tl (queue_of (cpus ! i)) else queue_of (cpus ! i))" if "i < length cpus" for i
  proof (cases "i = n + 1")
    case True
    then show ?thesis using c'(3) that n q(2) by (simp add: queue_of_def)
  next
    case False
    then show ?thesis using c'(3) that by auto
  qed
  then show ?case using step c'(1,2) out by (intro exI[of _ cpus']) simp
qed

text \<open>
  C1. The idle loop of processor 0 takes one task from each other processor that has at least as many
  tasks as its buffer has places. When there are more such processors than places, the task taken
  after the buffer is full is neither in the buffer nor in any queue: it is lost. With \<open>k\<close> places
  the buffer gets the first tasks of processors 1 to \<open>k\<close>, and the first task of processor \<open>k + 1\<close>
  has left its queue as well.
\<close>

theorem steal_loses_task:
  assumes "0 < k" "k + 1 < length cpus" "loaded k 0 cpus"
  shows "\<exists>cpus'. try_to_steal_into 0 (replicate k None) cpus = Some (k, map (\<lambda>i. Some (hd (queue_of (cpus ! i)))) [1..<k + 1], cpus')
     \<and> length cpus' = length cpus
     \<and> (\<forall>i < length cpus. queue_of (cpus' ! i) = (if 1 \<le> i \<and> i \<le> k + 1 then tl (queue_of (cpus ! i)) else queue_of (cpus ! i)))"
proof -
  have up: "[0..<length cpus] = 0 # [1..<length cpus]" using assms(2) upt_conv_Cons[of 0 "length cpus"] by (cases cpus) simp_all
  have "(1 \<le> i) = (0 < i)" for i :: nat by auto
  then show ?thesis using steal_cpus_full[of k "replicate k None" 0 cpus] assms by (simp add: try_to_steal_into_def up)
qed

definition full_cpu :: ExecCpu where
  "full_cpu = \<lparr>ec_tasks = \<lparr>rq_top = 0, rq_bottom = 4, rq_buf = [7, 8, 9, 10] @ replicate 1020 0\<rparr>, ec_curr_task = 0, ec_idle_task = 3\<rparr>"

lemma full_cpu_queue: "rq_inv (ec_tasks full_cpu)" "queue_of full_cpu = [7, 8, 9, 10]"
proof -
  have "rq_view (ec_tasks full_cpu) = [7, 8, 9, 10]" by (simp add: rq_view_def full_cpu_def cells_def RQ_CAP_def upt_rec)
  then show "queue_of full_cpu = [7, 8, 9, 10]" "rq_inv (ec_tasks full_cpu)"
    by (simp_all add: queue_of_def rq_inv_def) (simp add: full_cpu_def RQ_CAP_def USIZE_MAX_def)
qed

theorem steal_loses_task_witness:
  "\<exists>cpus'. try_to_steal_into 0 (replicate IDLE_STEAL_BATCH None) (replicate 6 full_cpu) = Some (4, replicate 4 (Some 7), cpus')
     \<and> queue_of (cpus' ! 5) = [8, 9, 10]"
proof -
  have "loaded 4 0 (replicate 6 full_cpu)" using full_cpu_queue by (simp add: loaded_def)
  then obtain cpus' where c: "try_to_steal_into 0 (replicate 4 None) (replicate 6 full_cpu)
        = Some (4, map (\<lambda>i. Some (hd (queue_of (replicate 6 full_cpu ! i)))) [1..<4 + 1], cpus')"
      "\<forall>i < 6. queue_of (cpus' ! i) = (if 1 \<le> i \<and> i \<le> 5 then tl (queue_of (replicate 6 full_cpu ! i)) else queue_of (replicate 6 full_cpu ! i))"
    using steal_loses_task[of 4 "replicate 6 full_cpu"] by auto
  have "map (\<lambda>i. Some (hd (queue_of (replicate 6 full_cpu ! i)))) [1..<4 + 1] = replicate 4 (Some 7)"
    using full_cpu_queue by (simp add: upt_rec numeral_eq_Suc)
  then show ?thesis using c full_cpu_queue(2) by (simp add: IDLE_STEAL_BATCH_def)
qed

end
