(* ===== verification/Syscalls.thy ===== *)
theory Syscalls
  imports Scheduler
begin

text \<open>
  \<open>scheduler/syscall/\<close> and \<open>memory/vmm/pf_handler.rs\<close>: the capability check, the handlers of the system
  calls and their dispatcher, and the page fault handler. The state is that of the kernel's global
  objects. A call that blocks returns a context switch; what it does after the task has been woken
  is a second definition. Locks, printing and the entry code in assembly are left out.
\<close>

subsection \<open>Definitions: the capability check\<close>

datatype CapError = InvalidIdx | WrongType | WrongOwner | InsufficientRights

definition as_syscall_err :: "CapError \<Rightarrow> u64" where
  "as_syscall_err e = (case e of
      InvalidIdx \<Rightarrow> - 1
    | WrongType \<Rightarrow> - 2
    | WrongOwner \<Rightarrow> - 3
    | InsufficientRights \<Rightarrow> - 4)"

definition resolve_cap :: "CNode \<Rightarrow> u64 \<Rightarrow> KernelObjType \<Rightarrow> Rights \<Rightarrow> ObjectTable \<Rightarrow> (CapError + HandleRef \<times> Rights) option" where
  "resolve_cap n cap_idx expected_type required_rights ot = do {
     r \<leftarrow> cnode_get n (ucast cap_idx);
     case r of
       None \<Rightarrow> Some (Inl InvalidIdx)
     | Some cap \<Rightarrow>
         if \<not> rights_contains (cap_rights cap) required_rights then Some (Inl InsufficientRights)
         else do {
           valid \<leftarrow> with_object ot (cap_handle cap) (\<lambda>obj. obj_type obj = expected_type);
           if valid \<noteq> Some True then Some (Inl WrongType)
           else Some (Inr (cap_handle cap, cap_rights cap))
         }
   }"

subsection \<open>Definitions: the state\<close>

record 'pt Kernel =
  k_sched :: "'pt Sched"
  k_ipc :: IpcManager
  k_objects :: ObjectTable
  k_mem :: PhysMem

abbreviation k_tasks :: "'pt Kernel \<Rightarrow> 'pt TaskStorage" where
  "k_tasks k \<equiv> sd_tasks (k_sched k)"

definition put_tasks :: "'pt TaskStorage \<Rightarrow> 'pt Kernel \<Rightarrow> 'pt Kernel" where
  "put_tasks ts k = k\<lparr>k_sched := (k_sched k)\<lparr>sd_tasks := ts\<rparr>\<rparr>"

text \<open>\<open>PerCpuSchedulerData::get().curr_task_id\<close> on processor \<open>me\<close>.\<close>

definition current_task_id :: "usize \<Rightarrow> 'pt Kernel \<Rightarrow> TaskId option" where
  "current_task_id me k = do {
     d \<leftarrow> arr_get (sd_percpu (k_sched k)) me;
     Some (curr_task_id d)
   }"

subsection \<open>Definitions: the IPC handlers\<close>

datatype IpcSyscallRetCodes = IpcOk | IpcNotReady | IpcInvalidEp | IpcInvalidCap | IpcPermissionDenied | IpcUnknown

definition ret_code :: "IpcSyscallRetCodes \<Rightarrow> u64" where
  "ret_code c = (case c of
      IpcOk \<Rightarrow> 0
    | IpcNotReady \<Rightarrow> 17
    | IpcInvalidEp \<Rightarrow> 10
    | IpcInvalidCap \<Rightarrow> 11
    | IpcPermissionDenied \<Rightarrow> 12
    | IpcUnknown \<Rightarrow> 32)"

record IpcSyscallArguments =
  ipc_ep_id :: u64
  ipc_msg :: "u64 list"

definition resolve_endpoint_cap :: "CNode \<Rightarrow> CapIdx \<Rightarrow> Rights \<Rightarrow> ObjectTable \<Rightarrow> (IpcSyscallRetCodes + EndpointId) option" where
  "resolve_endpoint_cap n cap_idx required_rights ot = do {
     r \<leftarrow> resolve_cap n (ucast cap_idx) KernelObjType.Endpoint required_rights ot;
     case r of
       Inl _ \<Rightarrow> Some (Inl IpcInvalidCap)
     | Inr (handle, _) \<Rightarrow> do {
         d \<leftarrow> with_object ot handle (\<lambda>obj. case obj_data obj of
             EndpointData e \<Rightarrow> Some (endpoint_id_new (ucast e))
           | _ \<Rightarrow> None);
         Some (case d of Some (Some i) \<Rightarrow> Inr i | _ \<Rightarrow> Inl IpcInvalidCap)
       }
   }"

text \<open>\<open>get_task_by_index\<close> and the task behind the pointer.\<close>

definition task_of :: "TaskIdIndex \<Rightarrow> 'pt Kernel \<Rightarrow> 'pt Task option" where
  "task_of i k = Option.bind (get_task_by_index i (k_tasks k)) (ts_heap (k_tasks k))"

definition handle_ipc_ep_create :: "TaskIdIndex \<Rightarrow> 'pt Kernel \<Rightarrow> (u64 \<times> 'pt Kernel) option" where
  "handle_ipc_ep_create curr_id k = do {
     let (r, im) = im_create_endpoint curr_id (k_ipc k);
     ep \<leftarrow> r;
     (h, ot) \<leftarrow> obj_insert (object_new KernelObjType.Endpoint (EndpointData (ucast ep))) (k_objects k);
     handle \<leftarrow> expect_ok h;
     let cap = cap_new handle RIGHTS_ALL;
     p \<leftarrow> get_task_by_index curr_id (k_tasks k);
     t \<leftarrow> ts_heap (k_tasks k) p;
     (i, n) \<leftarrow> cnode_alloc cap (cnode (tcb t));
     cap_idx \<leftarrow> i;
     ts \<leftarrow> update_tcb (\<lambda>t. t\<lparr>cnode := n\<rparr>) p (k_tasks k);
     Some (ucast cap_idx, put_tasks ts (k\<lparr>k_ipc := im, k_objects := ot\<rparr>))
   }"

text \<open>The reference count is decremented through a shared reference, and its result is dropped.\<close>

definition handle_ipc_ep_destroy :: "TaskIdIndex \<Rightarrow> u64 \<Rightarrow> 'pt Kernel \<Rightarrow> (IpcSyscallRetCodes \<times> 'pt Kernel) option" where
  "handle_ipc_ep_destroy curr_id cap_idx k = (case get_task_by_index curr_id (k_tasks k) of
      None \<Rightarrow> Some (IpcInvalidCap, k)
    | Some p \<Rightarrow> do {
        t \<leftarrow> ts_heap (k_tasks k) p;
        r \<leftarrow> resolve_endpoint_cap (cnode (tcb t)) (ucast cap_idx) RIGHTS_ALL (k_objects k);
        case r of
          Inl e \<Rightarrow> Some (e, k)
        | Inr ep \<Rightarrow> do {
            c \<leftarrow> cnode_get (cnode (tcb t)) (ucast cap_idx);
            cap \<leftarrow> c;
            let im = im_destroy_endpoint ep (k_ipc k);
            n \<leftarrow> cnode_delete (ucast cap_idx) (cnode (tcb t));
            ts \<leftarrow> update_tcb (\<lambda>t. t\<lparr>cnode := n\<rparr>) p (k_tasks k);
            (_, ot) \<leftarrow> with_object_mut (cap_handle cap) dec_ref (k_objects k);
            Some (IpcOk, put_tasks ts (k\<lparr>k_ipc := im, k_objects := ot\<rparr>))
          }
      })"

text \<open>Waking the receiver that a send has found.\<close>

definition wake_receiver :: "TaskIdIndex \<Rightarrow> 'pt Kernel \<Rightarrow> 'pt Kernel option" where
  "wake_receiver receiver k = (case get_task_by_index receiver (k_tasks k) of
      None \<Rightarrow> Some k
    | Some p \<Rightarrow> do {
        ts \<leftarrow> awaken_task p (k_tasks k);
        Some (put_tasks ts k)
      })"

definition send_through :: "TaskIdIndex \<Rightarrow> u64 \<Rightarrow> FastMessage \<Rightarrow> 'pt Kernel \<Rightarrow> (IpcSyscallRetCodes \<times> 'pt Kernel) option" where
  "send_through curr_id cap_idx msg k = (case get_task_by_index curr_id (k_tasks k) of
      None \<Rightarrow> Some (IpcInvalidCap, k)
    | Some p \<Rightarrow> do {
        t \<leftarrow> ts_heap (k_tasks k) p;
        r \<leftarrow> resolve_endpoint_cap (cnode (tcb t)) (ucast cap_idx) RIGHTS_WRITE (k_objects k);
        case r of
          Inl e \<Rightarrow> Some (e, k)
        | Inr ep \<Rightarrow> do {
            (res, im) \<leftarrow> handle_send curr_id ep msg (k_ipc k);
            let k1 = k\<lparr>k_ipc := im\<rparr>;
            case res of
              WakeReceiver receiver \<Rightarrow> do { k2 \<leftarrow> wake_receiver receiver k1; Some (IpcOk, k2) }
            | ResNotReady \<Rightarrow> Some (IpcNotReady, k1)
            | Error InvalidEndpoint \<Rightarrow> Some (IpcInvalidEp, k1)
            | Error _ \<Rightarrow> Some (IpcUnknown, k1)
            | _ \<Rightarrow> Some (IpcOk, k1)
          }
      })"

definition handle_ipc_send :: "TaskIdIndex \<Rightarrow> IpcSyscallArguments \<Rightarrow> 'pt Kernel \<Rightarrow> (IpcSyscallRetCodes \<times> 'pt Kernel) option" where
  "handle_ipc_send curr_id ipc k = send_through curr_id (ipc_ep_id ipc) (msg_with_data LABEL_NOTIFY (ipc_msg ipc)) k"

definition handle_ipc_reply :: "TaskIdIndex \<Rightarrow> IpcSyscallArguments \<Rightarrow> 'pt Kernel \<Rightarrow> (IpcSyscallRetCodes \<times> 'pt Kernel) option" where
  "handle_ipc_reply curr_id ipc k = send_through curr_id (ipc_ep_id ipc) (msg_with_data LABEL_REPLY_OK (ipc_msg ipc)) k"

datatype IpcOutcome = Return IpcSyscallRetCodes | Block Switch

text \<open>The receiving half that \<open>handle_ipc_recv\<close> and \<open>handle_ipc_call\<close> share, up to the context switch.\<close>

definition recv_or_block ::
  "('pt, 'z) X86_scheme \<Rightarrow> usize \<Rightarrow> usize \<Rightarrow> TaskIdIndex \<Rightarrow> EndpointId \<Rightarrow> 'pt Kernel \<Rightarrow> (IpcOutcome \<times> 'pt Kernel) option" where
  "recv_or_block x hhdm me curr_id ep k = do {
     (res, im) \<leftarrow> handle_recv curr_id ep (k_ipc k);
     let k1 = k\<lparr>k_ipc := im\<rparr>;
     case res of
       BlockCurrent \<Rightarrow> do {
         (sw, s) \<leftarrow> block_current_on_ipc x hhdm me (k_sched k1);
         Some (Block sw, k1\<lparr>k_sched := s\<rparr>)
       }
     | Error _ \<Rightarrow> Some (Return IpcUnknown, k1)
     | _ \<Rightarrow> Some (Return IpcOk, k1)
   }"

definition handle_ipc_recv ::
  "('pt, 'z) X86_scheme \<Rightarrow> usize \<Rightarrow> usize \<Rightarrow> TaskIdIndex \<Rightarrow> u64 \<Rightarrow> 'pt Kernel \<Rightarrow> (IpcOutcome \<times> 'pt Kernel) option" where
  "handle_ipc_recv x hhdm me curr_id cap_idx_raw k = (case get_task_by_index curr_id (k_tasks k) of
      None \<Rightarrow> Some (Return IpcInvalidCap, k)
    | Some p \<Rightarrow> do {
        t \<leftarrow> ts_heap (k_tasks k) p;
        r \<leftarrow> resolve_endpoint_cap (cnode (tcb t)) (ucast cap_idx_raw) RIGHTS_READ (k_objects k);
        case r of
          Inl e \<Rightarrow> Some (Return e, k)
        | Inr ep \<Rightarrow> recv_or_block x hhdm me curr_id ep k
      })"

text \<open>What a receiver does once it runs again: it takes its message into its registers.\<close>

definition recv_resume :: "TaskIdIndex \<Rightarrow> TaskRegisters \<Rightarrow> 'pt Kernel \<Rightarrow> (IpcSyscallRetCodes \<times> TaskRegisters \<times> 'pt Kernel) option" where
  "recv_resume curr_id regs k = (case take_pending_message curr_id (k_ipc k) of
      (None, im) \<Rightarrow> Some (IpcOk, regs, k\<lparr>k_ipc := im\<rparr>)
    | (Some msg, im) \<Rightarrow> do {
        d0 \<leftarrow> arr_get (m_data msg) 0;
        d1 \<leftarrow> arr_get (m_data msg) 1;
        d2 \<leftarrow> arr_get (m_data msg) 2;
        d3 \<leftarrow> arr_get (m_data msg) 3;
        Some (IpcOk, regs\<lparr>rdi := m_label msg, rsi := d0, rdx := d1, r10 := d2, r8 := d3\<rparr>, k\<lparr>k_ipc := im\<rparr>)
      })"

definition handle_ipc_call ::
  "('pt, 'z) X86_scheme \<Rightarrow> usize \<Rightarrow> usize \<Rightarrow> TaskIdIndex \<Rightarrow> IpcSyscallArguments \<Rightarrow> 'pt Kernel \<Rightarrow> (IpcOutcome \<times> 'pt Kernel) option" where
  "handle_ipc_call x hhdm me curr_id ipc k = (case get_task_by_index curr_id (k_tasks k) of
      None \<Rightarrow> Some (Return IpcInvalidCap, k)
    | Some p \<Rightarrow> do {
        t \<leftarrow> ts_heap (k_tasks k) p;
        r \<leftarrow> resolve_endpoint_cap (cnode (tcb t)) (ucast (ipc_ep_id ipc)) RIGHTS_WRITE (k_objects k);
        m0 \<leftarrow> arr_get (ipc_msg ipc) 0;
        m1 \<leftarrow> arr_get (ipc_msg ipc) 1;
        m2 \<leftarrow> arr_get (ipc_msg ipc) 2;
        m3 \<leftarrow> arr_get (ipc_msg ipc) 3;
        case r of
          Inl e \<Rightarrow> Some (Return e, k)
        | Inr server_ep \<Rightarrow> do {
            r' \<leftarrow> resolve_endpoint_cap (cnode (tcb t)) (ucast m0) RIGHTS_READ (k_objects k);
            case r' of
              Inl e \<Rightarrow> Some (Return e, k)
            | Inr reply_ep \<Rightarrow> do {
                (res, im) \<leftarrow> handle_send curr_id server_ep (msg_with_data LABEL_CALL [m1, m2, m3, 0]) (k_ipc k);
                let k1 = k\<lparr>k_ipc := im\<rparr>;
                case res of
                  WakeReceiver receiver \<Rightarrow> do { k2 \<leftarrow> wake_receiver receiver k1; recv_or_block x hhdm me curr_id reply_ep k2 }
                | ResNotReady \<Rightarrow> Some (Return IpcNotReady, k1)
                | Error InvalidEndpoint \<Rightarrow> Some (Return IpcInvalidEp, k1)
                | Error _ \<Rightarrow> Some (Return IpcUnknown, k1)
                | _ \<Rightarrow> recv_or_block x hhdm me curr_id reply_ep k1
              }
          }
      })"

subsection \<open>Definitions: the memory handlers\<close>

definition frame_alloc :: "('pt, 'z) X86_scheme \<Rightarrow> usize \<Rightarrow> 'pt Kernel \<Rightarrow> (u64 \<times> 'pt Kernel) option" where
  "frame_alloc x hhdm k = do {
     (r, pm) \<leftarrow> alloc_pages_by_order x hhdm 0 (PALLOC_ZEROED OR PALLOC_KERNEL) (k_mem k);
     phys \<leftarrow> r;
     Some (of_nat phys, k\<lparr>k_mem := pm\<rparr>)
   }"

text \<open>
  The three handlers on address spaces look up the current task, check its capability, and find the
  task whose address space the object names; then they differ.
\<close>

definition vspace_target :: "usize \<Rightarrow> u64 \<Rightarrow> 'pt Kernel \<Rightarrow> (CapError + TaskPtr) option" where
  "vspace_target me vspace_cap_idx k = do {
     curr_id \<leftarrow> current_task_id me k;
     p \<leftarrow> get_task_by_index curr_id (k_tasks k);
     t \<leftarrow> ts_heap (k_tasks k) p;
     r \<leftarrow> resolve_cap (cnode (tcb t)) vspace_cap_idx VSpace RIGHTS_WRITE (k_objects k);
     case r of
       Inl e \<Rightarrow> Some (Inl e)
     | Inr (handle, _) \<Rightarrow> do {
         d \<leftarrow> with_object (k_objects k) handle (\<lambda>obj. case obj_data obj of VSpaceData i \<Rightarrow> Some i | _ \<Rightarrow> None);
         case d of
           Some (Some target_id) \<Rightarrow> do {
             target \<leftarrow> get_task_by_index target_id (k_tasks k);
             Some (Inr target)
           }
         | _ \<Rightarrow> Some (Inl WrongType)
       }
   }"

definition vma_map :: "('pt, 'z) X86_scheme \<Rightarrow> usize \<Rightarrow> usize \<Rightarrow> u64 \<Rightarrow> u64 \<Rightarrow> u64 \<Rightarrow> u32 \<Rightarrow> 'pt Kernel \<Rightarrow> (u64 \<times> 'pt Kernel) option" where
  "vma_map x hhdm me vspace_cap_idx vaddr sz flags k = do {
     r \<leftarrow> vspace_target me vspace_cap_idx k;
     case r of
       Inl e \<Rightarrow> Some (as_syscall_err e, k)
     | Inr p \<Rightarrow> do {
         t \<leftarrow> ts_heap (k_tasks k) p;
         va \<leftarrow> va_new x (unat vaddr);
         (res, sp, pm) \<leftarrow> as_map x hhdm va (unat sz) ReservedVma (map_flags_from_bits_truncate flags) (addr_space (tcb t), k_mem k);
         _ \<leftarrow> expect_ok res;
         ts \<leftarrow> update_tcb (\<lambda>t. t\<lparr>addr_space := sp\<rparr>) p (k_tasks k);
         Some (0, put_tasks ts (k\<lparr>k_mem := pm\<rparr>))
       }
   }"

definition vma_unmap :: "('pt, 'z) X86_scheme \<Rightarrow> usize \<Rightarrow> u64 \<Rightarrow> u64 \<Rightarrow> 'pt Kernel \<Rightarrow> (u64 \<times> 'pt Kernel) option" where
  "vma_unmap x me vspace_cap_idx vaddr k = do {
     r \<leftarrow> vspace_target me vspace_cap_idx k;
     case r of
       Inl e \<Rightarrow> Some (as_syscall_err e, k)
     | Inr p \<Rightarrow> do {
         t \<leftarrow> ts_heap (k_tasks k) p;
         va \<leftarrow> va_new x (unat vaddr);
         (res, sp) \<leftarrow> as_unmap x va (addr_space (tcb t));
         _ \<leftarrow> expect_ok res;
         ts \<leftarrow> update_tcb (\<lambda>t. t\<lparr>addr_space := sp\<rparr>) p (k_tasks k);
         Some (0, put_tasks ts k)
       }
   }"

definition mprotect :: "('pt, 'z) X86_scheme \<Rightarrow> usize \<Rightarrow> usize \<Rightarrow> u64 \<Rightarrow> u64 \<Rightarrow> u32 \<Rightarrow> 'pt Kernel \<Rightarrow> (u64 \<times> 'pt Kernel) option" where
  "mprotect x hhdm me vspace_cap_idx vaddr flags k = do {
     r \<leftarrow> vspace_target me vspace_cap_idx k;
     case r of
       Inl e \<Rightarrow> Some (as_syscall_err e, k)
     | Inr p \<Rightarrow> do {
         t \<leftarrow> ts_heap (k_tasks k) p;
         va \<leftarrow> va_new x (unat vaddr);
         (res, sp, pm) \<leftarrow> as_protect x hhdm va (map_flags_from_bits_truncate flags) (addr_space (tcb t), k_mem k);
         _ \<leftarrow> expect_ok res;
         ts \<leftarrow> update_tcb (\<lambda>t. t\<lparr>addr_space := sp\<rparr>) p (k_tasks k);
         Some (0, put_tasks ts (k\<lparr>k_mem := pm\<rparr>))
       }
   }"

subsection \<open>Definitions: the dispatcher\<close>

record SyscallArguments =
  syscall_number :: u64
  arg1 :: u64
  arg2 :: u64
  arg3 :: u64
  arg4 :: u64
  arg5 :: u64

text \<open>A call returns a value, blocks in a receive, or sleeps; a sleeper returns 0 when it runs again.\<close>

datatype SyscallOutcome = Value u64 | BlockIpc Switch | BlockSleep Switch

definition ipc_outcome :: "IpcOutcome \<Rightarrow> SyscallOutcome" where
  "ipc_outcome r = (case r of Return c \<Rightarrow> Value (ret_code c) | Block sw \<Rightarrow> BlockIpc sw)"

definition thread_sleep :: "('pt, 'z) X86_scheme \<Rightarrow> usize \<Rightarrow> usize \<Rightarrow> u64 \<Rightarrow> 'pt Kernel \<Rightarrow> (SyscallOutcome \<times> 'pt Kernel) option" where
  "thread_sleep x hhdm me ns k = do {
     (r, s) \<leftarrow> sched_sleep x hhdm me (unat ns) (k_sched k);
     Some (case r of None \<Rightarrow> Value 0 | Some sw \<Rightarrow> BlockSleep sw, k\<lparr>k_sched := s\<rparr>)
   }"

definition syscall_dispatcher ::
  "('pt, 'z) X86_scheme \<Rightarrow> usize \<Rightarrow> usize \<Rightarrow> SyscallArguments \<Rightarrow> 'pt Kernel \<Rightarrow> (SyscallOutcome \<times> 'pt Kernel) option" where
  "syscall_dispatcher x hhdm me args k =
     (if syscall_number args = 0x10 then
        (if arg1 args < 0x1000 \<or> arg1 args > 0x00007FFFFFFFFFFF then Some (Value 1, k)
         else if unat (arg2 args) > 4096 then Some (Value 1, k)
         else Some (Value 0, k))
      else do {
        curr_id \<leftarrow> current_task_id me k;
        let ipc = \<lparr>ipc_ep_id = arg1 args, ipc_msg = [arg2 args, arg3 args, arg4 args, arg5 args]\<rparr>;
        if syscall_number args = 0x64 then map_option (apfst Value) (handle_ipc_ep_create curr_id k)
        else if syscall_number args = 0x65 then map_option (apfst (Value \<circ> ret_code)) (handle_ipc_ep_destroy curr_id (arg1 args) k)
        else if syscall_number args = 0x60 then map_option (apfst (Value \<circ> ret_code)) (handle_ipc_send curr_id ipc k)
        else if syscall_number args = 0x61 then map_option (apfst ipc_outcome) (handle_ipc_recv x hhdm me curr_id (arg1 args) k)
        else if syscall_number args = 0x62 then map_option (apfst ipc_outcome) (handle_ipc_call x hhdm me curr_id ipc k)
        else if syscall_number args = 0x63 then map_option (apfst (Value \<circ> ret_code)) (handle_ipc_reply curr_id ipc k)
        else if syscall_number args = 0x2 then map_option (apfst Value) (frame_alloc x hhdm k)
        else if syscall_number args = 0x3 then map_option (apfst Value) (vma_map x hhdm me (arg1 args) (arg2 args) (arg3 args) (ucast (arg4 args)) k)
        else if syscall_number args = 0x4 then map_option (apfst Value) (vma_unmap x me (arg1 args) (arg2 args) k)
        else if syscall_number args = 0x5 then map_option (apfst Value) (mprotect x hhdm me (arg1 args) (arg2 args) (ucast (arg3 args)) k)
        else if syscall_number args = 0x99 then thread_sleep x hhdm me (arg1 args) k
        else Some (Value 0, k)
      })"

definition syscall_args :: "TaskRegisters \<Rightarrow> SyscallArguments" where
  "syscall_args regs = \<lparr>syscall_number = syscall_number_or_irq_or_error_code regs,
     arg1 = rdi regs, arg2 = rsi regs, arg3 = rdx regs, arg4 = r10 regs, arg5 = r8 regs\<rparr>"

subsection \<open>Definitions: the page fault handler\<close>

text \<open>The cases that print and stop the processor are \<open>Halt\<close>.\<close>

datatype FaultOutcome = Resume | Halt

definition page_fault :: "('pt, 'z) X86_scheme \<Rightarrow> usize \<Rightarrow> usize \<Rightarrow> VirtAddr \<Rightarrow> u64 \<Rightarrow> 'pt Kernel \<Rightarrow> (FaultOutcome \<times> 'pt Kernel) option" where
  "page_fault x hhdm me fault_addr error k =
     (if \<not> bit error 2 then Some (Halt, k)
      else do {
        curr_id \<leftarrow> current_task_id me k;
        p \<leftarrow> get_task_by_index curr_id (k_tasks k);
        t \<leftarrow> ts_heap (k_tasks k) p;
        r \<leftarrow> as_find x (addr_space (tcb t)) fault_addr;
        case r of
          None \<Rightarrow> Some (Halt, k)
        | Some v \<Rightarrow>
            if bit error 1 \<and> \<not> flag_set (vma_flags v) MAP_WRITE then Some (Halt, k)
            else (case vma_backing v of
                ReservedVma \<Rightarrow> do {
                  (a, pm) \<leftarrow> alloc_pages_by_order x hhdm 0 (PALLOC_ZEROED OR PALLOC_KERNEL) (k_mem k);
                  phys \<leftarrow> a;
                  page_vaddr \<leftarrow> va_new x (fault_addr - fault_addr mod PAGE_SIZE);
                  let pt_flags = to_page_table_flags (vma_flags v);
                  (res, pt, pm') \<leftarrow> map_single_page x hhdm page_vaddr phys pt_flags (as_page_table (addr_space (tcb t)), pm);
                  _ \<leftarrow> expect_ok res;
                  ts \<leftarrow> update_tcb (\<lambda>t. t\<lparr>addr_space := (addr_space t)\<lparr>as_page_table := pt\<rparr>\<rparr>) p (k_tasks k);
                  Some (Resume, put_tasks ts (k\<lparr>k_mem := pm'\<rparr>))
                }
              | _ \<Rightarrow> Some (Halt, k))
      })"

subsection \<open>Capabilities that name an endpoint\<close>

definition names_endpoint :: "ObjectTable \<Rightarrow> CNode \<Rightarrow> CapIdx \<Rightarrow> Rights \<Rightarrow> EndpointId \<Rightarrow> bool" where
  "names_endpoint ot n i r e \<longleftrightarrow> (\<exists>c obj d. cap_at n (unat i) = Some c \<and> rights_contains (cap_rights c) r
     \<and> objects ot (cap_handle c) = Some obj \<and> obj_type obj = KernelObjType.Endpoint \<and> obj_data obj = EndpointData d \<and> e = ucast d)"

text \<open>A capability table of the right size whose handles are indices of the object table.\<close>

definition cnode_ok :: "CNode \<Rightarrow> bool" where
  "cnode_ok n \<longleftrightarrow> cnode_wf n \<and> (\<forall>i c. cap_at n i = Some c \<longrightarrow> in_bounds (cap_handle c))"

definition kernel_ok :: "'pt Kernel \<Rightarrow> bool" where
  "kernel_ok k \<longleftrightarrow> ot_inv (k_objects k) \<and> im_inv (k_ipc k) \<and> table_wf (k_tasks k)
     \<and> (\<forall>i t. task_of i k = Some t \<longrightarrow> cnode_ok (cnode (tcb t)))"

lemma with_object_ok: "ot_inv ot \<Longrightarrow> in_bounds h \<Longrightarrow> with_object ot h f = Some (map_option f (objects ot h))"
  by (simp add: with_object_def ot_get_objects)

lemma resolve_endpoint_cap_ok:
  assumes "cnode_ok n" "ot_inv ot"
  shows "\<exists>r. resolve_endpoint_cap n i rights ot = Some r \<and> (\<forall>e. r = Inr e \<longleftrightarrow> names_endpoint ot n i rights e) \<and> (\<forall>c. r = Inl c \<longrightarrow> c = IpcInvalidCap)"
proof (cases "cap_at n (unat i)")
  case None
  have "cnode_get n i = Some None" using None assms(1) by (simp add: cnode_ok_def cnode_get_eq)
  then show ?thesis using None by (simp add: resolve_endpoint_cap_def resolve_cap_def names_endpoint_def ucast_down_ucast_id is_down)
next
  case (Some c)
  have g: "cnode_get n i = Some (Some c)" using Some assms(1) by (simp add: cnode_ok_def cnode_get_eq)
  have b: "in_bounds (cap_handle c)" using Some assms(1) by (auto simp: cnode_ok_def)
  have ro: "resolve_endpoint_cap n i rights ot = Some (case objects ot (cap_handle c) of
      Some obj \<Rightarrow> if rights_contains (cap_rights c) rights \<and> obj_type obj = KernelObjType.Endpoint
        then (case obj_data obj of EndpointData d \<Rightarrow> Inr (ucast d) | _ \<Rightarrow> Inl IpcInvalidCap) else Inl IpcInvalidCap
    | None \<Rightarrow> Inl IpcInvalidCap)"
    using g by (auto simp: resolve_endpoint_cap_def resolve_cap_def endpoint_id_new_def with_object_ok[OF assms(2) b] ucast_down_ucast_id is_down
      split: option.splits ObjData.splits)
  show ?thesis unfolding ro names_endpoint_def Some by (auto split: option.splits ObjData.splits)
qed

lemma resolve_refused:
  assumes "cnode_ok n" "ot_inv ot" "\<nexists>e. names_endpoint ot n i rights e"
  shows "resolve_endpoint_cap n i rights ot = Some (Inl IpcInvalidCap)"
proof -
  obtain r where r: "resolve_endpoint_cap n i rights ot = Some r" "\<forall>e. r = Inr e \<longleftrightarrow> names_endpoint ot n i rights e" "\<forall>c. r = Inl c \<longrightarrow> c = IpcInvalidCap"
    using resolve_endpoint_cap_ok[OF assms(1,2)] by blast
  then show ?thesis using assms(3) by (cases r) auto
qed

lemma resolve_granted:
  assumes "cnode_ok n" "ot_inv ot" "names_endpoint ot n i rights e"
  shows "resolve_endpoint_cap n i rights ot = Some (Inr e)"
  using resolve_endpoint_cap_ok[OF assms(1,2), of i rights] assms(3) by auto

lemma task_ofE:
  assumes "task_of i k = Some t"
  obtains p where "get_task_by_index i (k_tasks k) = Some p" "ts_heap (k_tasks k) p = Some t"
  using assms by (auto simp: task_of_def bind_eq_Some_conv)

text \<open>
  C1. No IPC without the capability. Each of the calls returns the code for an invalid capability, and
  changes nothing in the kernel, when the slot of the calling task does not hold a capability with
  the right the call needs whose handle still reaches an endpoint object: the write right to send
  and to reply, the read right to receive, all rights to destroy, and for a call the write right on
  the server's endpoint and the read right on the endpoint of the reply.
\<close>

theorem ipc_without_capability_refused:
  assumes ok: "kernel_ok k" and t: "task_of i k = Some t"
    and len: "length (ipc_msg ipc) = 4"
  defines "lacks \<equiv> \<lambda>idx r. \<nexists>e. names_endpoint (k_objects k) (cnode (tcb t)) (ucast (idx :: u64)) r e"
  shows "(lacks (ipc_ep_id ipc) RIGHTS_WRITE \<longrightarrow> handle_ipc_send i ipc k = Some (IpcInvalidCap, k) \<and> handle_ipc_reply i ipc k = Some (IpcInvalidCap, k))
     \<and> (lacks idx RIGHTS_READ \<longrightarrow> handle_ipc_recv x hhdm me i idx k = Some (Return IpcInvalidCap, k))
     \<and> (lacks idx RIGHTS_ALL \<longrightarrow> handle_ipc_ep_destroy i idx k = Some (IpcInvalidCap, k))
     \<and> (lacks (ipc_ep_id ipc) RIGHTS_WRITE \<or> lacks (ipc_msg ipc ! 0) RIGHTS_READ
          \<longrightarrow> handle_ipc_call x hhdm me i ipc k = Some (Return IpcInvalidCap, k))"
proof -
  obtain p where p: "get_task_by_index i (k_tasks k) = Some p" "ts_heap (k_tasks k) p = Some t" using task_ofE[OF t] by blast
  have n: "cnode_ok (cnode (tcb t))" "ot_inv (k_objects k)" using ok t by (auto simp: kernel_ok_def)
  note res = resolve_refused[OF n] 
  have send: "send_through i a msg k = Some (IpcInvalidCap, k)" if "lacks a RIGHTS_WRITE" for a msg
    using res[of "ucast a" RIGHTS_WRITE] that p by (simp add: lacks_def send_through_def)
  have recv: "handle_ipc_recv x hhdm me i idx k = Some (Return IpcInvalidCap, k)" if "lacks idx RIGHTS_READ"
    using res[of "ucast idx" RIGHTS_READ] that p by (simp add: lacks_def handle_ipc_recv_def)
  have dest: "handle_ipc_ep_destroy i idx k = Some (IpcInvalidCap, k)" if "lacks idx RIGHTS_ALL"
    using res[of "ucast idx" RIGHTS_ALL] that p by (simp add: lacks_def handle_ipc_ep_destroy_def)
  have call: "handle_ipc_call x hhdm me i ipc k = Some (Return IpcInvalidCap, k)"
    if l: "lacks (ipc_ep_id ipc) RIGHTS_WRITE \<or> lacks (ipc_msg ipc ! 0) RIGHTS_READ"
  proof (cases "lacks (ipc_ep_id ipc) RIGHTS_WRITE")
    case True
    then show ?thesis using res[of "ucast (ipc_ep_id ipc)" RIGHTS_WRITE] p len by (simp add: lacks_def handle_ipc_call_def)
  next
    case False
    then obtain e where e: "names_endpoint (k_objects k) (cnode (tcb t)) (ucast (ipc_ep_id ipc)) RIGHTS_WRITE e" by (auto simp: lacks_def)
    have "lacks (ipc_msg ipc ! 0) RIGHTS_READ" using l False by simp
    then show ?thesis using resolve_granted[OF n e] res[of "ucast (ipc_msg ipc ! 0)" RIGHTS_READ] p len
      by (simp add: lacks_def handle_ipc_call_def)
  qed
  show ?thesis using send recv dest call by (simp add: handle_ipc_send_def handle_ipc_reply_def)
qed

subsection \<open>A concrete kernel state\<close>

text \<open>Tasks 1 and 2 hold a capability with all rights on the endpoint 9; task 1 is the current one.\<close>

definition demo_handle :: HandleRef where "demo_handle = \<lparr>h_index = 0, h_generation = 0\<rparr>"

definition demo_cnode :: CNode where
  "demo_cnode = \<lparr>cn_slots = cap_new demo_handle RIGHTS_ALL # replicate 49 CAP_NULL\<rparr>"

definition demo_objects :: ObjectTable where
  "demo_objects = \<lparr>ot_slots = (ot_slots ot_new)[0 := \<lparr>slot_generation = 0,
       slot_obj = Some (object_new KernelObjType.Endpoint (EndpointData 9))\<rparr>], ot_free_head = 1\<rparr>"

definition demo_peer :: "TaskId \<Rightarrow> TaskState \<Rightarrow> flat_pt Task" where
  "demo_peer i st = (demo_task i st 0)\<lparr>tcb := (tcb (demo_task i st 0))\<lparr>cnode := demo_cnode\<rparr>\<rparr>"

definition demo_kernel :: "flat_pt Kernel" where
  "demo_kernel = \<lparr>k_sched = demo_sched\<lparr>sd_tasks := demo_storage\<lparr>ts_heap := (ts_heap demo_storage)(5 \<mapsto> demo_peer 1 Running, 7 \<mapsto> demo_peer 2 Ready)\<rparr>\<rparr>,
     k_ipc = snd (im_create_endpoint 9 im_new), k_objects = demo_objects, k_mem = no_memory\<rparr>"

lemma demo_objects_inv: "ot_inv demo_objects" "objects demo_objects demo_handle = Some (object_new KernelObjType.Endpoint (EndpointData 9))"
  by (simp_all add: demo_objects_def ot_inv_def objects_def in_bounds_def demo_handle_def ot_new_def MAX_OBJECTS_def)

lemma demo_cnode_cap: "cap_at demo_cnode i = (if i = 0 then Some (cap_new demo_handle RIGHTS_ALL) else None)" "cap_at cnode_new i = None"
proof -
  have "(cap_new demo_handle RIGHTS_ALL # replicate 49 CAP_NULL) ! i = CAP_NULL" if "0 < i" "i < 50"
    using that by (cases i) auto
  then show "cap_at demo_cnode i = (if i = 0 then Some (cap_new demo_handle RIGHTS_ALL) else None)"
    by (cases "i = 0") (auto simp: cap_at_def demo_cnode_def CAPABILITY_MAX_def cap_is_null_def CAP_NULL_def cap_new_def RIGHTS_ALL_def RIGHTS_NONE_def)
  show "cap_at cnode_new i = None" by (simp add: cap_at_def cnode_new_def cap_is_null_def CAP_NULL_def)
qed

lemma demo_cnode_ok: "cnode_ok demo_cnode" "cnode_ok cnode_new"
  using cnode_new_wf
  by (auto simp: cnode_ok_def demo_cnode_cap cap_new_def demo_handle_def in_bounds_def MAX_OBJECTS_def split: if_splits)
    (simp add: cnode_wf_def demo_cnode_def CAPABILITY_MAX_def)

lemma demo_names: "rights_contains RIGHTS_ALL r \<Longrightarrow> names_endpoint demo_objects demo_cnode 0 r 9"
  by (simp add: names_endpoint_def demo_cnode_cap demo_objects_inv cap_new_def object_new_def)

lemma demo_kernel_tasks:
  "get_task_by_index i (k_tasks demo_kernel) = (if i = 1 then Some 5 else if i = 2 then Some 7 else if i = 3 then Some 9 else if i = 4 then Some 11 else None)"
  "ts_heap (k_tasks demo_kernel) 5 = Some (demo_peer 1 Running)" "ts_heap (k_tasks demo_kernel) 7 = Some (demo_peer 2 Ready)"
  "ts_heap (k_tasks demo_kernel) 9 = Some (demo_task 3 Ready 0)" "ts_heap (k_tasks demo_kernel) 11 = Some (demo_task 4 Sleep 10)"
  by (simp_all add: demo_kernel_def demo_sched_def demo_storage_def get_task_by_index_def get_by_index_def bt_get_def)

lemma demo_kernel_ok: "kernel_ok demo_kernel"
proof -
  have "cnode_ok (cnode (tcb t))" if "task_of i demo_kernel = Some t" for i t
    using that demo_cnode_ok
    by (auto simp: task_of_def demo_kernel_tasks demo_peer_def demo_task_def split: if_splits)
  moreover have "table_wf (k_tasks demo_kernel)"
    by (simp add: table_wf_def demo_kernel_def demo_sched_def demo_storage_def demo_task_def demo_peer_def bt_ok_def)
  moreover have "im_inv (k_ipc demo_kernel)" using create_on_new by (auto simp: demo_kernel_def)
  moreover have "k_objects demo_kernel = demo_objects" by (simp add: demo_kernel_def)
  ultimately show ?thesis using demo_objects_inv by (simp add: kernel_ok_def)
qed

theorem ipc_without_capability_refused_witness:
  "handle_ipc_send 3 \<lparr>ipc_ep_id = 0, ipc_msg = [1, 2, 3, 4]\<rparr> demo_kernel = Some (IpcInvalidCap, demo_kernel)
   \<and> handle_ipc_recv flat_x86 0 0 3 0 demo_kernel = Some (Return IpcInvalidCap, demo_kernel)"
proof -
  have t: "task_of 3 demo_kernel = Some (demo_task 3 Ready 0)" by (simp add: task_of_def demo_kernel_tasks)
  have "\<nexists>e. names_endpoint (k_objects demo_kernel) (cnode (tcb (demo_task 3 Ready 0))) i r e" for i r
    by (simp add: names_endpoint_def demo_task_def demo_cnode_cap)
  then show ?thesis
    using ipc_without_capability_refused[OF demo_kernel_ok t, of "\<lparr>ipc_ep_id = 0, ipc_msg = [1, 2, 3, 4]\<rparr>" 0 flat_x86 0 0] by simp
qed

subsection \<open>Rendezvous through the system calls\<close>

text \<open>Processor \<open>me\<close> runs the task at \<open>p\<close>, and its idle task can be switched to.\<close>

definition running_on :: "('pt, 'z) X86_scheme \<Rightarrow> usize \<Rightarrow> usize \<Rightarrow> TaskPtr \<Rightarrow> 'pt Sched \<Rightarrow> bool" where
  "running_on x hhdm me p s \<longleftrightarrow> me < length (sd_percpu s) \<and> cpu_id (sd_percpu s ! me) < length (sd_cpus s)
     \<and> ec_curr_task (my_cpu me s) = p \<and> p \<noteq> 0 \<and> runnable x hhdm (sd_tasks s) p
     \<and> (\<exists>idle. ts_heap (sd_tasks s) (ec_idle_task (my_cpu me s)) = Some idle \<and> get_page_table_phys x hhdm (addr_space (tcb idle)) \<noteq> None)"

lemma with_state_get:
  assumes "h q = Some t"
  obtains t' where "with_state st p h q = Some t'" "addr_space (tcb t') = addr_space (tcb t)" "cnode (tcb t') = cnode (tcb t)" "task_id t' = task_id t"
  using assms by (cases "q = p") (auto simp: with_state_def)

lemma block_current_ok:
  assumes "running_on x hhdm me p s"
  shows "\<exists>sw s'. block_current_on_ipc x hhdm me s = Some (sw, s')
     \<and> sd_tasks s' = (sd_tasks s)\<lparr>ts_heap := with_state Sleep p (ts_heap (sd_tasks s))\<rparr> \<and> ec_curr_task (my_cpu me s') = 0"
proof -
  have me: "me < length (sd_percpu s)" "cpu_id (sd_percpu s ! me) < length (sd_cpus s)" "ec_curr_task (my_cpu me s) = p" "p \<noteq> 0"
    using assms by (auto simp: running_on_def)
  let ?h = "with_state Sleep p (ts_heap (sd_tasks s))"
  obtain t where t: "ts_heap (sd_tasks s) p = Some t" using assms by (auto simp: running_on_def runnable_def)
  obtain idle0 cr3 where i0: "ts_heap (sd_tasks s) (ec_idle_task (my_cpu me s)) = Some idle0" "get_page_table_phys x hhdm (addr_space (tcb idle0)) = Some cr3"
    using assms by (auto simp: running_on_def)
  obtain idle where i: "?h (ec_idle_task (my_cpu me s)) = Some idle" "get_page_table_phys x hhdm (addr_space (tcb idle)) = Some cr3"
    using with_state_get[where h = "ts_heap (sd_tasks s)", OF i0(1), of Sleep p] i0(2) by metis
  show ?thesis using me i update_state[OF t, of Sleep]
    by (simp add: block_current_on_ipc_def switch_to_idle_def ec_get_curr_task_def my_cpu_def put_cpu_def put_percpu_def ec_set_curr_task_def Let_def)
qed

text \<open>
  C2. Rendezvous through the system calls. Task \<open>a\<close>, current on a processor, receives through a
  capability with the read right on an open endpoint at which nobody waits: the call blocks it, and it
  sleeps. When task \<open>b\<close> then sends through a capability with the write right on the same endpoint,
  the send succeeds, \<open>a\<close> is ready and has joined the global run queue, and once \<open>a\<close> runs again its
  registers hold the label and the four words of the message, and no message is left for it.
\<close>

theorem syscall_rendezvous:
  assumes ok: "kernel_ok k" and a: "get_task_by_index a (k_tasks k) = Some p" "ts_heap (k_tasks k) p = Some ta" "running_on x hhdm me p (k_sched k)"
    and b: "task_of b k = Some tb"
    and caps: "names_endpoint (k_objects k) (cnode (tcb ta)) (ucast idx) RIGHTS_READ e"
      "names_endpoint (k_objects k) (cnode (tcb tb)) (ucast (ipc_ep_id ipc)) RIGHTS_WRITE e"
    and ep: "endpoint_of (im_table (k_ipc k)) e = Some ep" "\<not> ep_closed ep" "waiting (ep_recv_queue ep) = []"
      "wq_count (wq_inner (ep_recv_queue ep)) < WQ_CAP"
    and len: "length (ipc_msg ipc) = 4"
  shows "\<exists>sw k1 k2 k3. handle_ipc_recv x hhdm me a idx k = Some (Block sw, k1)
     \<and> map_option (\<lambda>t. task_state (tcb t)) (ts_heap (k_tasks k1) p) = Some Sleep
     \<and> handle_ipc_send b ipc k1 = Some (IpcOk, k2)
     \<and> map_option (\<lambda>t. task_state (tcb t)) (ts_heap (k_tasks k2) p) = Some Ready \<and> ts_global (k_tasks k2) = ts_global (k_tasks k) @ [p]
     \<and> recv_resume a regs k2 = Some (IpcOk, regs\<lparr>rdi := LABEL_NOTIFY, rsi := ipc_msg ipc ! 0, rdx := ipc_msg ipc ! 1,
          r10 := ipc_msg ipc ! 2, r8 := ipc_msg ipc ! 3\<rparr>, k3)
     \<and> im_pending (k_ipc k3) a = None"
proof -
  have inv: "ot_inv (k_objects k)" "im_inv (k_ipc k)" "table_wf (k_tasks k)" using ok by (auto simp: kernel_ok_def)
  have ta: "task_of a k = Some ta" using a by (simp add: task_of_def)
  have na: "cnode_ok (cnode (tcb ta))" and nb: "cnode_ok (cnode (tcb tb))" using ok ta b by (auto simp: kernel_ok_def)
  obtain q where q: "get_task_by_index b (k_tasks k) = Some q" "ts_heap (k_tasks k) q = Some tb" using task_ofE[OF b] by blast
  obtain im1 e1 where r: "handle_recv a e (k_ipc k) = Some (BlockCurrent, im1)" "im_inv im1" "im_pending im1 = im_pending (k_ipc k)"
      "endpoint_of (im_table im1) = (endpoint_of (im_table (k_ipc k)))(e \<mapsto> e1)" "\<not> ep_closed e1" "waiting (ep_recv_queue e1) = [a]"
    using handle_recv_ok[OF inv(2), of a e] ep by auto
  obtain sw s1 where bl: "block_current_on_ipc x hhdm me (k_sched k) = Some (sw, s1)"
      "sd_tasks s1 = (k_tasks k)\<lparr>ts_heap := with_state Sleep p (ts_heap (k_tasks k))\<rparr>"
    using block_current_ok[OF a(3)] by blast
  let ?k1 = "k\<lparr>k_ipc := im1, k_sched := s1\<rparr>"
  have 1: "handle_ipc_recv x hhdm me a idx k = Some (Block sw, ?k1)"
    using a(1,2) resolve_granted[OF na inv(1) caps(1)] r(1) bl(1) by (simp add: handle_ipc_recv_def recv_or_block_def Let_def)
  have sl: "map_option (\<lambda>t. task_state (tcb t)) (ts_heap (k_tasks ?k1) p) = Some Sleep" using bl(2) a(2) by (simp add: with_state_def)
  let ?msg = "msg_with_data LABEL_NOTIFY (ipc_msg ipc)"
  obtain im2 e2 where s: "handle_send b e ?msg im1 = Some (WakeReceiver a, im2)" "im_pending im2 = (im_pending im1)(a \<mapsto> ?msg)"
    using handle_send_ok[OF r(2), of b e ?msg] r(4-6) by auto
  obtain tb' where tb': "ts_heap (k_tasks ?k1) q = Some tb'" "cnode (tcb tb') = cnode (tcb tb)"
    using with_state_get[where h = "ts_heap (k_tasks k)", OF q(2), of Sleep p] bl(2) by auto
  obtain ta' where ta': "ts_heap (sd_tasks s1) p = Some ta'" "task_id ta' = task_id ta" using bl(2) a(2) by (auto simp: with_state_def)
  obtain ts where aw: "awaken_task p (sd_tasks s1) = Some ts" "ts_heap ts = with_state Ready p (ts_heap (sd_tasks s1))"
      "ts_global ts = ts_global (k_tasks k) @ [p]"
    using update_state[OF ta'(1), of Ready] bl(2) ta'(1)
    by (auto simp: awaken_task_def add_task_to_execute_def table_insert_def global_push_def with_state_def)
  let ?k2 = "put_tasks ts (?k1\<lparr>k_ipc := im2\<rparr>)"
  have t1: "get_task_by_index i (k_tasks ?k1) = get_task_by_index i (k_tasks k)" for i using bl(2) by (simp add: get_task_by_index_def get_by_index_def)
  have 2: "handle_ipc_send b ipc ?k1 = Some (IpcOk, ?k2)"
    using t1 q(1) a(1) tb' resolve_granted[OF nb inv(1) caps(2)] s(1) aw(1)
    by (simp add: handle_ipc_send_def send_through_def wake_receiver_def Let_def)
  have rd: "map_option (\<lambda>t. task_state (tcb t)) (ts_heap (k_tasks ?k2) p) = Some Ready" using aw(2) ta'(1) by (simp add: put_tasks_def with_state_def)
  have "\<exists>k3. recv_resume a regs ?k2 = Some (IpcOk, regs\<lparr>rdi := LABEL_NOTIFY, rsi := ipc_msg ipc ! 0, rdx := ipc_msg ipc ! 1,
          r10 := ipc_msg ipc ! 2, r8 := ipc_msg ipc ! 3\<rparr>, k3) \<and> im_pending (k_ipc k3) a = None"
    using s(2) len by (simp add: recv_resume_def put_tasks_def take_pending_message_def msg_with_data_def)
  then show ?thesis using 1 sl 2 rd aw(3) by (auto simp: put_tasks_def)
qed

theorem syscall_rendezvous_witness:
  "\<exists>sw k1 k2 k3. handle_ipc_recv flat_x86 0 0 1 0 demo_kernel = Some (Block sw, k1)
     \<and> handle_ipc_send 2 \<lparr>ipc_ep_id = 0, ipc_msg = [10, 20, 30, 40]\<rparr> k1 = Some (IpcOk, k2)
     \<and> recv_resume 1 demo_registers k2 = Some (IpcOk, demo_registers\<lparr>rdi := 3, rsi := 10, rdx := 20, r10 := 30, r8 := 40\<rparr>, k3)"
proof -
  obtain m e where m: "im_create_endpoint 9 im_new = (Some 9, m)" "endpoint_of (im_table m) 9 = Some e" "\<not> ep_closed e"
      "waiting (ep_recv_queue e) = []" "wq_count (wq_inner (ep_recv_queue e)) < WQ_CAP"
    using create_on_new by blast
  have ep: "endpoint_of (im_table (k_ipc demo_kernel)) 9 = Some e" using m by (simp add: demo_kernel_def)
  have p: "get_page_table_phys flat_x86 0 (as_new (\<lambda>_. None)) = Some 0" by (simp add: get_page_table_phys_def virt_to_phys_def flat_x86_def)
  have run: "running_on flat_x86 0 0 5 (k_sched demo_kernel)"
    by (simp add: running_on_def runnable_def my_cpu_def) (simp add: demo_kernel_def demo_sched_def demo_storage_def demo_peer_def demo_task_def p)
  have cs: "rights_contains RIGHTS_ALL RIGHTS_READ" "rights_contains RIGHTS_ALL RIGHTS_WRITE"
    by (simp_all add: rights_contains_def RIGHTS_ALL_def RIGHTS_READ_def RIGHTS_WRITE_def)
  have o: "k_objects demo_kernel = demo_objects" "cnode (tcb (demo_peer i st)) = demo_cnode" for i st
    by (simp_all add: demo_kernel_def demo_peer_def)
  have g: "get_task_by_index 1 (k_tasks demo_kernel) = Some 5" "task_of 2 demo_kernel = Some (demo_peer 2 Ready)"
    by (simp_all add: task_of_def demo_kernel_tasks)
  show ?thesis
    using syscall_rendezvous[OF demo_kernel_ok g(1) demo_kernel_tasks(2) run g(2), of 0 9 "\<lparr>ipc_ep_id = 0, ipc_msg = [10, 20, 30, 40]\<rparr>" e demo_registers]
      demo_names[OF cs(1)] demo_names[OF cs(2)] ep m(3-5) o by (simp add: LABEL_NOTIFY_def) blast
qed

end
