(* ===== verification/Spec2Isabelle.thy ===== *)
theory Spec2Isabelle
  imports Syscalls
begin

text \<open>
  A verification development of the Anvil kernel.
\<close>

end
